(* ===== verification/Prelude.thy ===== *)
theory Prelude
  imports Complex_Main "HOL-Library.Word"
begin

unbundle bit_operations_syntax

text \<open>
  Shared vocabulary of the development: the Go types the components use, the
  pieces of the Go standard library they call (\<^verbatim>\<open>sort.Search\<close>, \<^verbatim>\<open>copy\<close>,
  \<^verbatim>\<open>encoding/binary\<close> unsigned varints), and the lemmas about them that more
  than one component needs.

  Conventions. A Go \<^verbatim>\<open>int64\<close> is an \<open>int\<close> together with the bounds the code
  checks (\<open>MaxInt64\<close>); conversions to and from \<^verbatim>\<open>uint64\<close> go through
  \<open>64 word\<close>. A \<^verbatim>\<open>time.Time\<close> is an \<open>int\<close> of nanoseconds, a
  \<^verbatim>\<open>time.Duration\<close> likewise. A \<^verbatim>\<open>float64\<close> is a \<open>real\<close>: rounding is
  not modelled, and every use of it in the modelled code is a comparison or a
  ratio whose rounding no theorem here depends on.
\<close>

section \<open>Types and units\<close>

type_synonym byte = "8 word"
type_synonym u64 = "64 word"
type_synonym time = int
type_synonym duration = int

definition MaxInt64 :: int where
  "MaxInt64 = 9223372036854775807"

definition millisecond :: duration where
  "millisecond = 1000000"

definition second :: duration where
  "second = 1000000000"

definition minute :: duration where
  "minute = 60 * second"

lemmas time_units = millisecond_def second_def minute_def

text \<open>The conversion of a float to an integer cuts towards zero.\<close>

definition trunc :: "real \<Rightarrow> int" where
  "trunc x = (if x < 0 then \<lceil>x\<rceil> else \<lfloor>x\<rfloor>)"

lemma trunc_bounds:
  "x < 0 \<Longrightarrow> x \<le> real_of_int (trunc x) \<and> trunc x \<le> 0" "0 \<le> x \<Longrightarrow> 0 \<le> trunc x \<and> real_of_int (trunc x) \<le> x"
  by (auto simp: trunc_def ceiling_le_iff le_floor_iff)

text \<open>\<^verbatim>\<open>time.Time.Unix\<close>.\<close>

definition Unix :: "time \<Rightarrow> int" where
  "Unix t = t div second"

text \<open>Collections that the component proofs pass to the simplifier.\<close>

named_theorems go_defs \<open>definitions of the modelled Go standard library\<close>
named_theorems iv_simps \<open>rewriting for interval lists\<close>
named_theorems sql_simps \<open>rewriting for table updates\<close>

section \<open>Invariants of step relations\<close>

locale step_invariant =
  fixes step :: "'s \<Rightarrow> 's \<Rightarrow> bool" and inv :: "'s \<Rightarrow> bool"
  assumes inv_step: "step s t \<Longrightarrow> inv s \<Longrightarrow> inv t"
begin

lemma inv_run: "step\<^sup>*\<^sup>* s t \<Longrightarrow> inv s \<Longrightarrow> inv t"
  by (induction rule: rtranclp_induct) (auto intro: inv_step)

end

section \<open>Slices\<close>

text \<open>
  \<open>go_copy xs off src\<close> is \<^verbatim>\<open>copy(xs[off:], src)\<close>: it overwrites at most as many
  elements as both sides have. Go's \<^verbatim>\<open>copy\<close> behaves as if the source were read
  first, so an overlapping source is the value \<open>src\<close> had before.
\<close>

definition go_copy :: "'a list \<Rightarrow> nat \<Rightarrow> 'a list \<Rightarrow> 'a list" where
  "go_copy xs off src =
     (let n = min (length xs - off) (length src)
      in take off xs @ take n src @ drop (off + n) xs)"

text \<open>\<open>slice xs i j\<close> is \<^verbatim>\<open>xs[i:j]\<close> for \<open>i \<le> j \<le> length xs\<close>.\<close>

definition slice :: "'a list \<Rightarrow> nat \<Rightarrow> nat \<Rightarrow> 'a list" where
  "slice xs i j = take (j - i) (drop i xs)"

lemma length_go_copy [simp]: "off \<le> length xs \<Longrightarrow> length (go_copy xs off src) = length xs"
  by (simp add: go_copy_def Let_def)

lemma length_slice [simp]: "j \<le> length xs \<Longrightarrow> length (slice xs i j) = j - i"
  by (simp add: slice_def)

lemma slice_self [simp]: "slice xs i i = []"
  by (simp add: slice_def)

section \<open>Binary search\<close>

text \<open>
  \<^verbatim>\<open>sort.Search\<close>: \<^verbatim>\<open>for i < j { h := (i+j)/2; if !f(h) { i = h+1 } else { j = h } }\<close>.
\<close>

function search_loop :: "(nat \<Rightarrow> bool) \<Rightarrow> nat \<Rightarrow> nat \<Rightarrow> nat" where
  "search_loop f i j =
     (if i < j
      then (let h = (i + j) div 2
            in if \<not> f h then search_loop f (h + 1) j else search_loop f i h)
      else i)"
  by pat_completeness auto
termination
  by (relation "measure (\<lambda>(f, i, j). j - i)") (auto simp: Let_def)

declare search_loop.simps [simp del]

definition go_search :: "nat \<Rightarrow> (nat \<Rightarrow> bool) \<Rightarrow> nat" where
  "go_search n f = search_loop f 0 n"

lemma search_loop_spec:
  assumes "i \<le> j" "j \<le> n" "\<forall>k<i. \<not> f k" "j < n \<longrightarrow> f j"
    and "\<forall>a b. a \<le> b \<longrightarrow> b < n \<longrightarrow> f a \<longrightarrow> f b"
  shows "search_loop f i j \<le> j \<and> (\<forall>k < search_loop f i j. \<not> f k) \<and>
         (search_loop f i j < n \<longrightarrow> f (search_loop f i j))"
  using assms
proof (induction f i j rule: search_loop.induct)
  case (1 f i j)
  show ?case
  proof (cases "i < j")
    case False
    with "1.prems"(1) have "search_loop f i j = j"
      by (subst search_loop.simps) simp
    with False "1.prems" show ?thesis by auto
  next
    case True
    define h where "h = (i + j) div 2"
    have h: "i \<le> h" "h < j" using True by (auto simp: h_def)
    show ?thesis
    proof (cases "f h")
      case fh: True
      have "search_loop f i j = search_loop f i h"
        using True fh by (simp add: search_loop.simps [of f i j] Let_def h_def)
      moreover have "search_loop f i h \<le> h \<and> (\<forall>k < search_loop f i h. \<not> f k) \<and>
            (search_loop f i h < n \<longrightarrow> f (search_loop f i h))"
        by (rule "1.IH"(2) [OF True h_def]) (use fh h "1.prems" in auto)
      ultimately show ?thesis using h by auto
    next
      case fh: False
      have below: "\<not> f k" if "k < h + 1" for k
        using "1.prems"(2,5) fh h that by (metis Suc_eq_plus1 less_Suc_eq_le less_le_trans)
      have "search_loop f i j = search_loop f (h + 1) j"
        using True fh by (simp add: search_loop.simps [of f i j] Let_def h_def)
      moreover have "search_loop f (h + 1) j \<le> j \<and> (\<forall>k < search_loop f (h + 1) j. \<not> f k) \<and>
            (search_loop f (h + 1) j < n \<longrightarrow> f (search_loop f (h + 1) j))"
        by (rule "1.IH"(1) [OF True h_def]) (use fh h below "1.prems" in auto)
      ultimately show ?thesis by simp
    qed
  qed
qed

text \<open>On a predicate that never flips back, the result is the first index where it holds.\<close>

lemma go_search_spec:
  assumes "\<forall>a b. a \<le> b \<longrightarrow> b < n \<longrightarrow> f a \<longrightarrow> f b"
  shows go_search_le: "go_search n f \<le> n"
    and go_search_below: "k < go_search n f \<Longrightarrow> \<not> f k"
    and go_search_at: "go_search n f < n \<Longrightarrow> f (go_search n f)"
  using search_loop_spec [of 0 n n f] assms by (auto simp: go_search_def)

lemma go_search_sorted_wrt:
  assumes "sorted_wrt R xs" and "\<forall>x y. R x y \<longrightarrow> P x \<longrightarrow> P y"
  defines "i \<equiv> go_search (length xs) (\<lambda>k. P (xs ! k))"
  shows "i \<le> length xs" and "\<forall>x \<in> set (take i xs). \<not> P x" and "\<forall>x \<in> set (drop i xs). P x"
proof -
  have mono: "\<forall>a b. a \<le> b \<longrightarrow> b < length xs \<longrightarrow> P (xs ! a) \<longrightarrow> P (xs ! b)"
    using assms(1,2) by (metis le_neq_implies_less sorted_wrt_nth_less)
  note spec = go_search_spec [OF mono, folded i_def]
  show "i \<le> length xs" by (rule spec(1))
  show "\<forall>x \<in> set (take i xs). \<not> P x"
    using spec(1,2) by (auto simp: in_set_conv_nth)
  show "\<forall>x \<in> set (drop i xs). P x"
  proof
    fix x assume "x \<in> set (drop i xs)"
    then obtain k where k: "k < length xs - i" "x = xs ! (i + k)"
      by (auto simp: in_set_conv_nth)
    then have "P (xs ! i)" using spec(3) by simp
    moreover have "i \<le> i + k" "i + k < length xs" using k by auto
    ultimately show "P x" using mono k(2) by blast
  qed
qed

section \<open>Unsigned varints\<close>

text \<open>
  \<^verbatim>\<open>binary.AppendUvarint\<close> and \<^verbatim>\<open>binary.Uvarint\<close>. \<open>uvarint\<close> returns the value and
  the number of bytes read; a count of 0 is a buffer that ends early, a
  negative count an encoding of more than 64 bits.
\<close>

function append_uvarint :: "byte list \<Rightarrow> u64 \<Rightarrow> byte list" where
  "append_uvarint out x =
     (if 0x80 \<le> x then append_uvarint (out @ [ucast x OR 0x80]) (drop_bit 7 x)
      else out @ [ucast x])"
  by pat_completeness auto
termination
proof (relation "measure (\<lambda>(out, x). unat x)", simp)
  fix out :: "byte list" and x :: u64
  assume "0x80 \<le> x"
  then have "128 \<le> unat x" by (simp add: word_le_nat_alt)
  moreover have "unat (drop_bit 7 x) = unat x div 128"
    by (simp add: drop_bit_eq_div unat_div)
  ultimately show "((out @ [ucast x OR 0x80], drop_bit 7 x), (out, x)) \<in> measure (\<lambda>(out, x). unat x)"
    by simp
qed

declare append_uvarint.simps [simp del]

fun uvarint_loop :: "byte list \<Rightarrow> nat \<Rightarrow> u64 \<Rightarrow> nat \<Rightarrow> u64 \<times> int" where
  "uvarint_loop [] i x s = (0, 0)"
| "uvarint_loop (b # bs) i x s =
     (if i = 10 then (0, - (int i + 1))
      else if b < 0x80 then
        (if i = 9 \<and> 1 < b then (0, - (int i + 1))
         else (x OR push_bit s (ucast b), int i + 1))
      else uvarint_loop bs (i + 1) (x OR push_bit s (ucast (b AND 0x7f))) (s + 7))"

definition uvarint :: "byte list \<Rightarrow> u64 \<times> int" where
  "uvarint buf = uvarint_loop buf 0 0 0"

lemma unat_drop_bit_7_less: "0x80 \<le> (x :: u64) \<Longrightarrow> unat (drop_bit 7 x) < unat x"
  by (simp add: drop_bit_eq_div unat_div word_le_nat_alt)

lemma append_uvarint_acc: "append_uvarint out x = out @ append_uvarint [] x"
proof (induction x arbitrary: out rule: measure_induct_rule [of unat])
  case (less x)
  show ?case
  proof (cases "0x80 \<le> x")
    case True
    have step: "append_uvarint out' x = out' @ [ucast x OR 0x80] @ append_uvarint [] (drop_bit 7 x)"
      for out'
      using less [OF unat_drop_bit_7_less [OF True], of "out' @ [ucast x OR 0x80]"] True
      by (simp add: append_uvarint.simps [of out' x])
    show ?thesis by (simp add: step [of out] step [of "[]"])
  next
    case False
    then show ?thesis by (simp add: append_uvarint.simps [of out x] append_uvarint.simps [of "[]" x])
  qed
qed

lemma append_uvarint_Nil:
  "append_uvarint [] x =
     (if 0x80 \<le> x then (ucast x OR 0x80) # append_uvarint [] (drop_bit 7 x) else [ucast x])"
  by (subst append_uvarint.simps) (simp add: append_uvarint_acc [of "[ucast x OR 0x80]"])

lemma append_uvarint_not_Nil [simp]: "append_uvarint [] x \<noteq> []"
  by (subst append_uvarint_Nil) simp

lemma bit_127: "bit (0x7f :: int) m \<longleftrightarrow> m < 7"
  using bit_mask_iff [of 7 m, where 'a = int] by (simp add: mask_eq_exp_minus_1 possible_bit_def)

lemma bit_128: "bit (0x80 :: int) m \<longleftrightarrow> m = 7"
  using bit_exp_iff [of 7 m, where 'a = int] by (auto simp: possible_bit_def)

text \<open>One encoded byte carries the low seven bits; the rest is the shifted value.\<close>

lemma low_seven_bits:
  "push_bit s (ucast ((ucast (x :: u64) OR 0x80 :: byte) AND 0x7f)) OR push_bit (s + 7) (drop_bit 7 x)
     = push_bit s x"
proof (rule bit_word_eqI)
  fix n assume n: "n < LENGTH(64)"
  show "bit (push_bit s (ucast ((ucast x OR 0x80 :: byte) AND 0x7f)) OR push_bit (s + 7) (drop_bit 7 x)) n
      = bit (push_bit s x) n"
  proof (cases "s + 7 \<le> n")
    case True
    then have "7 + (n - (s + 7)) = n - s" by simp
    with True n show ?thesis by (auto simp: bit_simps bit_127 bit_128)
  next
    case False
    with n show ?thesis by (auto simp: bit_simps bit_127 bit_128)
  qed
qed

lemma uvarint_loop_append:
  "i \<le> 9 \<Longrightarrow> unat x < 2 ^ (64 - 7 * i) \<Longrightarrow>
   uvarint_loop (append_uvarint [] x @ rest) i acc (7 * i)
     = (acc OR push_bit (7 * i) x, int i + int (length (append_uvarint [] x)))"
proof (induction x arbitrary: i acc rule: measure_induct_rule [of unat])
  case (less x)
  show ?case
  proof (cases "0x80 \<le> x")
    case True
    then have big: "128 \<le> unat x" by (simp add: word_le_nat_alt)
    have i: "i < 9"
    proof (rule ccontr)
      assume "\<not> i < 9"
      with less.prems have "unat x < 2 ^ 1" by simp
      with big show False by simp
    qed
    have small: "unat (drop_bit 7 x) < 2 ^ (64 - 7 * (i + 1))"
    proof -
      have "(2::nat) ^ (64 - 7 * i) = 2 ^ (64 - 7 * (i + 1)) * 2 ^ 7"
        using i by (subst power_add [symmetric]) simp
      with less.prems(2) have "unat x div 128 < 2 ^ (64 - 7 * (i + 1))"
        by (simp add: div_less_iff_less_mult)
      then show ?thesis by (simp add: drop_bit_eq_div unat_div)
    qed
    have "(0x80 :: byte) \<le> ucast x OR 0x80"
      by (metis le_word_or2 or.commute)
    then have hi: "\<not> (ucast x OR 0x80 :: byte) < 0x80" by simp
    have "uvarint_loop (append_uvarint [] x @ rest) i acc (7 * i) =
      uvarint_loop (append_uvarint [] (drop_bit 7 x) @ rest) (i + 1)
        (acc OR push_bit (7 * i) (ucast ((ucast x OR 0x80 :: byte) AND 0x7f))) (7 * (i + 1))"
      using True i hi by (subst append_uvarint_Nil) (simp add: algebra_simps)
    also have "\<dots> = (acc OR push_bit (7 * i) (ucast ((ucast x OR 0x80 :: byte) AND 0x7f))
        OR push_bit (7 * (i + 1)) (drop_bit 7 x), int (i + 1) + int (length (append_uvarint [] (drop_bit 7 x))))"
      using less.IH [OF unat_drop_bit_7_less [OF True] _ small] i by (simp add: or.assoc)
    also have "\<dots> = (acc OR push_bit (7 * i) x, int i + int (length (append_uvarint [] x)))"
      using True low_seven_bits [of "7 * i" x]
      by (subst append_uvarint_Nil [of x]) (simp add: or.assoc algebra_simps)
    finally show ?thesis .
  next
    case False
    then have lt: "unat x < 128" by (simp add: word_le_nat_alt)
    have "unat (ucast x :: byte) = unat x"
      using lt by (simp add: unsigned_ucast_eq unsigned_take_bit_eq take_bit_nat_eq_self)
    then have b: "(ucast x :: byte) < 0x80" "i = 9 \<Longrightarrow> \<not> 1 < (ucast x :: byte)"
      "ucast (ucast x :: byte) = x"
      using lt less.prems by (auto simp: word_less_nat_alt word_unat_eq_iff unsigned_ucast_eq unsigned_take_bit_eq take_bit_nat_eq_self)
    then show ?thesis using False less.prems(1) by (subst (1 2) append_uvarint_Nil) simp
  qed
qed

lemma uvarint_append: "uvarint (append_uvarint [] x @ rest) = (x, int (length (append_uvarint [] x)))"
  using uvarint_loop_append [of 0 x rest 0] unsigned_less [of x] by (simp add: uvarint_def)

text \<open>A positive count never runs past the buffer.\<close>

lemma uvarint_loop_count:
  "uvarint_loop buf i x s = (v, n) \<Longrightarrow> 0 < n \<Longrightarrow> int i < n \<and> n \<le> int i + int (length buf)"
  by (induction buf i x s rule: uvarint_loop.induct) (auto split: if_splits)

lemma uvarint_count: "uvarint buf = (v, n) \<Longrightarrow> 0 < n \<Longrightarrow> n \<le> int (length buf)"
  using uvarint_loop_count [of buf 0 0 0 v n] by (simp add: uvarint_def)

lemma uvarint_loop_at_most: "uvarint_loop buf i x s = (v, n) \<Longrightarrow> i \<le> 10 \<Longrightarrow> n \<le> 10"
  by (induction buf i x s rule: uvarint_loop.induct) (auto split: if_splits)

lemma length_append_uvarint: "length (append_uvarint [] x) \<le> 10"
  using uvarint_append [of x "[]"] uvarint_loop_at_most [of "append_uvarint [] x" 0 0 0 x]
  by (simp add: uvarint_def)

end
