(* ===== verification/Intervals.thy ===== *)
theory Intervals
  imports Prelude
begin

text \<open>
  The durable byte record of \<^verbatim>\<open>pkg/transfer/interval.go\<close>: a sorted, coalesced list of
  half-open ranges. The definitions follow the source statement by statement (the
  binary search, the merge loop and the slice surgery of \<^verbatim>\<open>Add\<close>); the lemmas relate
  them to the set of bytes the list covers. The locale \<open>range_set\<close> is the contract
  that the downloader and the scheduler rely on.
\<close>

section \<open>Data and operations\<close>

record Interval =
  Start :: int
  End :: int

record IntervalSet =
  iv :: "Interval list"
  isize :: int

definition Iv :: "int \<Rightarrow> int \<Rightarrow> Interval" where
  "Iv a b = \<lparr>Start = a, End = b\<rparr>"

lemma Iv_sel [simp]: "Start (Iv a b) = a" "End (Iv a b) = b"
  by (simp_all add: Iv_def)

definition empty_set :: "int \<Rightarrow> IntervalSet" where
  "empty_set n = \<lparr>iv = [], isize = n\<rparr>"

text \<open>
  The loop \<^verbatim>\<open>for j < len(iv) && iv[j].Start <= end\<close>, started on \<^verbatim>\<open>iv[i:]\<close>; the first
  component of the result is \<open>j - i\<close>.
\<close>

fun add_loop :: "Interval list \<Rightarrow> int \<Rightarrow> int \<Rightarrow> int \<Rightarrow> nat \<times> int \<times> int" where
  "add_loop [] e ns ne = (0, ns, ne)"
| "add_loop (v # vs) e ns ne =
     (if Start v \<le> e
      then (let ns' = (if Start v < ns then Start v else ns);
                ne' = (if ne < End v then End v else ne);
                (k, r) = add_loop vs e ns' ne'
            in (Suc k, r))
      else (0, ns, ne))"

definition Add :: "IntervalSet \<Rightarrow> int \<Rightarrow> int \<Rightarrow> IntervalSet" where
  "Add s start e =
     (if e \<le> start then s
      else (let xs = iv s;
                i = go_search (length xs) (\<lambda>k. start \<le> End (xs ! k));
                (k, ns, ne) = add_loop (drop i xs) e start e;
                j = i + k;
                l = length xs;
                xs1 = xs @ [Iv 0 0];
                xs2 = go_copy xs1 (i + 1) (drop j xs1);
                xs3 = take (l - (j - i) + 1) xs2
            in s\<lparr>iv := xs3[i := Iv ns ne]\<rparr>))"

fun missing_loop :: "Interval list \<Rightarrow> int \<Rightarrow> int \<Rightarrow> Interval list \<Rightarrow> Interval list" where
  "missing_loop [] tot nxt out = (if nxt < tot then out @ [Iv nxt tot] else out)"
| "missing_loop (v # vs) tot nxt out =
     (let out' = (if nxt < Start v then out @ [Iv nxt (min (Start v) tot)] else out);
          nxt' = (if nxt < End v then End v else nxt)
      in if tot \<le> nxt' then out' else missing_loop vs tot nxt' out')"

definition Missing :: "IntervalSet \<Rightarrow> int \<Rightarrow> Interval list" where
  "Missing s tot = missing_loop (iv s) tot 0 []"

fun contains_loop :: "Interval list \<Rightarrow> int \<Rightarrow> int \<Rightarrow> bool" where
  "contains_loop [] start e = (e \<le> start)"
| "contains_loop (v # vs) start e =
     (if start < Start v then False
      else if e \<le> End v then True
      else contains_loop vs (if start < End v then End v else start) e)"

definition contains :: "IntervalSet \<Rightarrow> int \<Rightarrow> int \<Rightarrow> bool" where
  "contains s start e = (if e \<le> start then True else contains_loop (iv s) start e)"

definition total_bytes :: "IntervalSet \<Rightarrow> int" where
  "total_bytes s = foldl (\<lambda>n v. n + (End v - Start v)) 0 (iv s)"

definition clone :: "IntervalSet \<Rightarrow> IntervalSet" where
  "clone s = \<lparr>iv = [] @ iv s, isize = isize s\<rparr>"

section \<open>Well-formedness and the covered bytes\<close>

definition wf_ivs :: "Interval list \<Rightarrow> bool" where
  "wf_ivs xs \<longleftrightarrow> sorted_wrt (\<lambda>a b. End a < Start b) xs \<and> (\<forall>v \<in> set xs. Start v < End v)"

definition covered :: "Interval list \<Rightarrow> int set" where
  "covered xs = (\<Union>v \<in> set xs. {Start v..<End v})"

definition bytes :: "IntervalSet \<Rightarrow> int set" where
  "bytes s = covered (iv s)"

lemma covered_simps [simp, iv_simps]:
  "covered [] = {}"
  "covered (v # vs) = {Start v..<End v} \<union> covered vs"
  "covered (xs @ ys) = covered xs \<union> covered ys"
  by (auto simp: covered_def)

lemma wf_ivs_Nil [simp]: "wf_ivs []"
  by (simp add: wf_ivs_def)

lemma wf_ivs_Cons [iv_simps]:
  "wf_ivs (v # vs) \<longleftrightarrow> Start v < End v \<and> (\<forall>w \<in> set vs. End v < Start w) \<and> wf_ivs vs"
  by (auto simp: wf_ivs_def)

lemma wf_ivs_append [iv_simps]:
  "wf_ivs (xs @ ys) \<longleftrightarrow> wf_ivs xs \<and> wf_ivs ys \<and> (\<forall>v \<in> set xs. \<forall>w \<in> set ys. End v < Start w)"
  by (auto simp: wf_ivs_def sorted_wrt_append)

lemma wf_ivs_take_drop: "wf_ivs xs \<Longrightarrow> wf_ivs (take n xs)" "wf_ivs xs \<Longrightarrow> wf_ivs (drop n xs)"
  using wf_ivs_append [of "take n xs" "drop n xs"] by simp_all

lemma wf_ivs_Start_less: "wf_ivs (v # vs) \<Longrightarrow> b \<in> covered vs \<Longrightarrow> End v < b"
  by (force simp: wf_ivs_Cons covered_def)

section \<open>Add\<close>

lemma take_prefix: "length xs = a \<Longrightarrow> take (a + p) (xs @ ys) = xs @ take p ys"
  by simp

text \<open>The slice surgery of \<^verbatim>\<open>Add\<close> replaces \<^verbatim>\<open>iv[i:j]\<close> by one element.\<close>

lemma splice:
  assumes "i + k \<le> length xs"
  shows "(take (length xs - k + 1) (go_copy (xs @ [z]) (i + 1) (drop (i + k) (xs @ [z]))))[i := v]
         = take i xs @ [v] @ drop (i + k) xs"
proof -
  define n where "n = min (length (xs @ [z]) - (i + 1)) (length (drop (i + k) (xs @ [z])))"
  define tl where "tl = drop (i + 1 + n) (xs @ [z])"
  have copy: "go_copy (xs @ [z]) (i + 1) (drop (i + k) (xs @ [z]))
      = take (i + 1) (xs @ [z]) @ take n (drop (i + k) (xs @ [z])) @ tl"
    by (simp only: go_copy_def Let_def n_def tl_def)
  define p where "p = length xs - (i + k)"
  have n: "p \<le> n" using assms by (auto simp: n_def p_def)
  have m: "length xs - k + 1 = i + 1 + p" using assms by (simp add: p_def)
  have "take (length xs - k + 1) (go_copy (xs @ [z]) (i + 1) (drop (i + k) (xs @ [z])))
      = take (i + 1) (xs @ [z]) @ take p (take n (drop (i + k) (xs @ [z])) @ tl)"
    unfolding copy m by (rule take_prefix) (use assms in simp)
  also have "take p (take n (drop (i + k) (xs @ [z])) @ tl) = take p (drop (i + k) (xs @ [z]))"
    using n assms by (simp add: p_def min_absorb1)
  also have "\<dots> = drop (i + k) xs"
    using assms by (simp add: p_def)
  also have "take (i + 1) (xs @ [z]) = take i xs @ [(xs @ [z]) ! i]"
    using assms take_Suc_conv_app_nth [of i "xs @ [z]"] by simp
  finally show ?thesis using assms by (simp add: list_update_append)
qed

lemma add_loop_spec:
  assumes "add_loop vs e ns ne = (k, ns', ne')"
    and "wf_ivs vs" "ns \<le> e" "e \<le> ne" "\<forall>v \<in> set vs. ns \<le> End v"
  shows "k \<le> length vs \<and> ns' \<le> ns \<and> ne \<le> ne' \<and>
    {ns'..<ne'} = {ns..<ne} \<union> covered (take k vs) \<and>
    (\<forall>v \<in> set (drop k vs). e < Start v \<and> (ne < Start v \<longrightarrow> ne' < Start v)) \<and>
    (\<forall>c. c < ns \<longrightarrow> (\<forall>v \<in> set vs. c < Start v) \<longrightarrow> c < ns')"
  using assms
proof (induction vs arbitrary: ns ne k)
  case Nil
  then show ?case by simp
next
  case (Cons v vs)
  show ?case
  proof (cases "Start v \<le> e")
    case False
    with Cons.prems show ?thesis by (force simp: wf_ivs_Cons)
  next
    case True
    define n1 where "n1 = min ns (Start v)"
    define e1 where "e1 = max ne (End v)"
    obtain k0 where rec: "add_loop vs e n1 e1 = (k0, ns', ne')" and k: "k = Suc k0"
      using Cons.prems(1) True
      by (auto simp: n1_def e1_def min_def max_def Let_def split: prod.splits if_splits)
    have v: "Start v < End v" "\<forall>w \<in> set vs. End v < Start w" "wf_ivs vs" "ns \<le> End v"
      using Cons.prems(2,5) by (auto simp: wf_ivs_Cons)
    have IH: "k0 \<le> length vs \<and> ns' \<le> n1 \<and> e1 \<le> ne' \<and>
      {ns'..<ne'} = {n1..<e1} \<union> covered (take k0 vs) \<and>
      (\<forall>v \<in> set (drop k0 vs). e < Start v \<and> (e1 < Start v \<longrightarrow> ne' < Start v)) \<and>
      (\<forall>c. c < n1 \<longrightarrow> (\<forall>v \<in> set vs. c < Start v) \<longrightarrow> c < ns')"
      by (rule Cons.IH [OF rec v(3)])
        (use Cons.prems(3-5) v True in \<open>auto simp: n1_def e1_def\<close>)
    have "{n1..<e1} = {ns..<ne} \<union> {Start v..<End v}"
      using Cons.prems(3,4) True v by (auto simp: n1_def e1_def)
    moreover have "\<forall>w \<in> set (drop k0 vs). ne < Start w \<longrightarrow> e1 < Start w"
      using v by (auto simp: e1_def dest: in_set_dropD)
    ultimately show ?thesis
      using IH k by (auto simp: n1_def e1_def)
  qed
qed

text \<open>
  \<open>Add_split\<close> is the shape of the result: an untouched left part, one merged interval and an
  untouched right part.
\<close>

lemma Add_split:
  assumes "wf_ivs (iv s)" and "start < e"
  obtains xs ms ys ns ne where "iv s = xs @ ms @ ys" "iv (Add s start e) = xs @ [Iv ns ne] @ ys"
    "isize (Add s start e) = isize s"
    "{ns..<ne} = {start..<e} \<union> covered ms" "ns \<le> start" "e \<le> ne"
    "\<forall>v \<in> set xs. End v < ns" "\<forall>v \<in> set ys. ne < Start v"
proof -
  define i where "i = go_search (length (iv s)) (\<lambda>k. start \<le> End (iv s ! k))"
  have sorted: "sorted_wrt (\<lambda>a b. End a < Start b \<and> Start b < End b) (iv s)"
    using assms(1) sorted_wrt_mono_rel [of "iv s" "\<lambda>a b. End a < Start b"
        "\<lambda>a b. End a < Start b \<and> Start b < End b"]
    by (simp add: wf_ivs_def)
  have "\<forall>a b. End a < Start b \<and> Start b < End b \<longrightarrow> start \<le> End a \<longrightarrow> start \<le> End b"
    by auto
  note i = go_search_sorted_wrt [where P = "\<lambda>v. start \<le> End v", OF sorted this,
      folded i_def, unfolded not_le]
  obtain k ns ne where loop: "add_loop (drop i (iv s)) e start e = (k, ns, ne)"
    by (metis prod_cases3)
  have wf: "wf_ivs (drop i (iv s))" "wf_ivs (take i (iv s))"
    using assms(1) by (rule wf_ivs_take_drop)+
  have sep: "End v < Start w" if "v \<in> set (take i (iv s))" "w \<in> set (drop i (iv s))" for v w
    using assms(1) that wf_ivs_append [of "take i (iv s)" "drop i (iv s)"] by simp
  note spec = add_loop_spec [OF loop wf(1) less_imp_le [OF assms(2)] order_refl i(3)]
  have k: "i + k \<le> length (iv s)" using conjunct1 [OF spec] i(1) by simp
  have "Add s start e = s\<lparr>iv := take i (iv s) @ [Iv ns ne] @ drop (i + k) (iv s)\<rparr>"
    using assms(2) k splice [OF k, of "Iv 0 0" "Iv ns ne"] loop
    by (simp add: Add_def Let_def i_def)
  then have Add: "iv (Add s start e) = take i (iv s) @ [Iv ns ne] @ drop (i + k) (iv s)"
    "isize (Add s start e) = isize s" by simp_all
  have drop: "drop (i + k) (iv s) = drop k (drop i (iv s))" by (simp add: add.commute)
  have parts: "iv s = take i (iv s) @ take k (drop i (iv s)) @ drop (i + k) (iv s)"
    unfolding drop append_take_drop_id ..
  have left: "\<forall>v \<in> set (take i (iv s)). End v < ns"
    using conjunct2 [OF conjunct2 [OF conjunct2 [OF conjunct2 [OF conjunct2 [OF spec]]]]] i(2) sep
    by blast
  have right: "\<forall>v \<in> set (drop (i + k) (iv s)). ne < Start v"
    unfolding drop using spec assms(2) by simp
  show thesis
    by (rule that [OF parts Add _ _ _ left right]) (use spec in simp_all)
qed

lemma wf_Add: "wf_ivs (iv s) \<Longrightarrow> wf_ivs (iv (Add s start e))"
proof (cases "start < e")
  case True
  assume wf: "wf_ivs (iv s)"
  from wf True show ?thesis
  proof (rule Add_split)
    fix xs ms ys ns ne
    assume *: "iv s = xs @ ms @ ys" "iv (Add s start e) = xs @ [Iv ns ne] @ ys" "ns \<le> start" "e \<le> ne"
      "\<forall>v \<in> set xs. End v < ns" "\<forall>v \<in> set ys. ne < Start v"
    show ?thesis using wf True * by (auto simp: wf_ivs_append wf_ivs_Cons)
  qed
qed (simp add: Add_def)

lemma bytes_Add: "wf_ivs (iv s) \<Longrightarrow> bytes (Add s start e) = bytes s \<union> {start..<e}"
proof (cases "start < e")
  case True
  assume "wf_ivs (iv s)"
  from this True show ?thesis
    by (rule Add_split) (auto simp: bytes_def)
qed (auto simp: Add_def)

lemma isize_Add [simp]: "wf_ivs (iv s) \<Longrightarrow> isize (Add s start e) = isize s"
  by (cases "start < e") (auto elim: Add_split simp: Add_def)

section \<open>Missing, contains, total\<close>

lemma covered_missing_loop:
  "wf_ivs vs \<Longrightarrow> covered (missing_loop vs tot nxt out) = covered out \<union> ({nxt..<tot} - covered vs)"
proof (induction vs tot nxt out rule: missing_loop.induct)
  case (2 v vs tot nxt out)
  define out' where "out' = (if nxt < Start v then out @ [Iv nxt (min (Start v) tot)] else out)"
  define nxt' where "nxt' = (if nxt < End v then End v else nxt)"
  have after: "\<And>b. b \<in> covered vs \<Longrightarrow> End v < b"
    using "2.prems" by (rule wf_ivs_Start_less)
  have out': "covered out' = covered out \<union> {nxt..<min (Start v) tot}"
    by (auto simp: out'_def)
  have ends: "Start v < End v" using "2.prems" by (simp add: wf_ivs_Cons)
  have key: "{nxt..<tot} - covered (v # vs)
      = {nxt..<min (Start v) tot} \<union> ({nxt'..<tot} - covered vs)"
    using ends by (auto simp: nxt'_def dest: after)
  show ?case
  proof (cases "tot \<le> nxt'")
    case True
    then have "missing_loop (v # vs) tot nxt out = out'" by (simp add: out'_def nxt'_def Let_def)
    then show ?thesis using True key out' by auto
  next
    case False
    then have "missing_loop (v # vs) tot nxt out = missing_loop vs tot nxt' out'"
      by (simp add: out'_def nxt'_def Let_def)
    moreover have "covered (missing_loop vs tot nxt' out') = covered out' \<union> ({nxt'..<tot} - covered vs)"
      using False "2.prems" by (intro "2.IH" [OF out'_def nxt'_def]) (auto simp: wf_ivs_Cons)
    ultimately show ?thesis unfolding key out' by (simp only: Un_assoc)
  qed
qed auto

lemma covered_Missing: "wf_ivs (iv s) \<Longrightarrow> covered (Missing s tot) = {0..<tot} - bytes s"
  by (simp add: Missing_def covered_missing_loop bytes_def)

lemma wf_missing_loop:
  "wf_ivs vs \<Longrightarrow> wf_ivs out \<Longrightarrow> \<forall>w \<in> set out. End w < nxt \<Longrightarrow> nxt < tot \<Longrightarrow>
   wf_ivs (missing_loop vs tot nxt out)"
proof (induction vs tot nxt out rule: missing_loop.induct)
  case (2 v vs tot nxt out)
  define out' where "out' = (if nxt < Start v then out @ [Iv nxt (min (Start v) tot)] else out)"
  define nxt' where "nxt' = (if nxt < End v then End v else nxt)"
  have out': "wf_ivs out'" using "2.prems" by (auto simp: out'_def iv_simps)
  have "missing_loop (v # vs) tot nxt out = (if tot \<le> nxt' then out' else missing_loop vs tot nxt' out')"
    by (simp add: out'_def nxt'_def Let_def)
  moreover have "wf_ivs (missing_loop vs tot nxt' out')" if "\<not> tot \<le> nxt'"
    using that "2.prems" out'
    by (intro "2.IH" [OF out'_def nxt'_def])
      (fastforce simp: out'_def nxt'_def wf_ivs_Cons split: if_splits)+
  ultimately show ?case using out' by simp
qed (auto simp: iv_simps)

lemma wf_Missing: "wf_ivs (iv s) \<Longrightarrow> 0 < tot \<Longrightarrow> wf_ivs (Missing s tot)"
  by (simp add: Missing_def wf_missing_loop)

lemma contains_loop_iff:
  "wf_ivs vs \<Longrightarrow> start < e \<Longrightarrow> contains_loop vs start e \<longleftrightarrow> {start..<e} \<subseteq> covered vs"
proof (induction vs start e rule: contains_loop.induct)
  case (2 v vs start e)
  have ends: "Start v < End v" "wf_ivs vs" using "2.prems" by (auto simp: wf_ivs_Cons)
  have after: "\<And>b. b \<in> covered vs \<Longrightarrow> End v < b"
    using "2.prems"(1) by (rule wf_ivs_Start_less)
  consider "start < Start v" | "Start v \<le> start" "e \<le> End v"
    | "Start v \<le> start" "start < End v" "End v < e" | "End v \<le> start" "End v < e"
    using ends by linarith
  then show ?case
  proof cases
    case 1
    then have "start \<notin> covered (v # vs)" using after ends by fastforce
    then show ?thesis using 1 "2.prems" by auto
  next
    case 2
    then show ?thesis by auto
  next
    case 3
    have "{start..<e} \<subseteq> covered (v # vs) \<longleftrightarrow> {End v..<e} \<subseteq> covered vs"
    proof -
      have "{start..<e} = {start..<End v} \<union> {End v..<e}" using 3 by auto
      moreover have "{start..<End v} \<subseteq> {Start v..<End v}" "{End v..<e} \<inter> {Start v..<End v} = {}"
        using 3 by auto
      ultimately show ?thesis unfolding covered_simps by blast
    qed
    then show ?thesis using 3 "2.IH" ends by simp
  next
    case 4
    then show ?thesis using "2.IH" ends "2.prems"(2) by auto
  qed
qed auto

lemma contains_iff: "wf_ivs (iv s) \<Longrightarrow> contains s start e \<longleftrightarrow> {start..<e} \<subseteq> bytes s"
  by (auto simp: contains_def bytes_def contains_loop_iff)

lemma finite_covered [simp]: "finite (covered vs)"
  by (induction vs) auto

lemma foldl_lengths: "foldl (\<lambda>n v. n + (End v - Start v)) c vs = c + (\<Sum>v\<leftarrow>vs. End v - Start v)"
  by (induction vs arbitrary: c) auto

lemma card_covered: "wf_ivs vs \<Longrightarrow> (\<Sum>v\<leftarrow>vs. End v - Start v) = int (card (covered vs))"
proof (induction vs)
  case (Cons v vs)
  have "{Start v..<End v} \<inter> covered vs = {}"
    by (auto dest: wf_ivs_Start_less [OF Cons.prems])
  then have "card (covered (v # vs)) = card {Start v..<End v} + card (covered vs)"
    by (simp only: covered_simps card_Un_disjoint finite_covered finite_atLeastLessThan_int)
  moreover have "int (card {Start v..<End v}) = End v - Start v"
    using Cons.prems by (simp add: wf_ivs_Cons)
  moreover have "(\<Sum>v\<leftarrow>vs. End v - Start v) = int (card (covered vs))"
    using Cons.prems by (intro Cons.IH) (simp add: wf_ivs_Cons)
  ultimately show ?case by (simp only: list.map sum_list.Cons of_nat_add)
qed simp

lemma total_bytes_card: "wf_ivs (iv s) \<Longrightarrow> total_bytes s = int (card (bytes s))"
  by (simp add: total_bytes_def foldl_lengths card_covered bytes_def)

text \<open>The coalesced form is unique: the list is determined by the bytes it covers.\<close>

lemma covered_Start: "Start v < End v \<Longrightarrow> Start v \<in> covered (v # vs)"
  by simp

lemma wf_ivs_canonical: "wf_ivs xs \<Longrightarrow> wf_ivs ys \<Longrightarrow> covered xs = covered ys \<Longrightarrow> xs = ys"
proof (induction xs arbitrary: ys)
  case Nil
  then show ?case using covered_Start by (cases ys) (fastforce simp: wf_ivs_Cons)+
next
  case (Cons v vs)
  have v: "Start v < End v" "wf_ivs vs" using Cons.prems(1) by (simp_all add: wf_ivs_Cons)
  with Cons.prems(3) obtain w ws where ys: "ys = w # ws" by (cases ys) fastforce+
  have w: "Start w < End w" "wf_ivs ws" using Cons.prems(2) ys by (simp_all add: wf_ivs_Cons)
  have cov: "{Start v..<End v} \<union> covered vs = {Start w..<End w} \<union> covered ws"
    using Cons.prems(3) ys by simp
  have av: "\<And>b. b \<in> covered vs \<Longrightarrow> End v < b" using Cons.prems(1) by (rule wf_ivs_Start_less)
  have aw: "\<And>b. b \<in> covered ws \<Longrightarrow> End w < b"
    using Cons.prems(2) unfolding ys by (rule wf_ivs_Start_less)
  have mem: "b \<in> {Start v..<End v} \<or> b \<in> covered vs \<longleftrightarrow> b \<in> {Start w..<End w} \<or> b \<in> covered ws" for b
    using cov by blast
  have start: "Start v = Start w"
    using mem [of "Start v"] mem [of "Start w"] v w av [of "Start w"] aw [of "Start v"] by auto
  have "\<not> End v < End w" using mem [of "End v"] start v av [of "End v"] by auto
  moreover have "\<not> End w < End v" using mem [of "End w"] start w aw [of "End w"] by auto
  ultimately have e: "End v = End w" by simp
  have "covered vs = covered ws"
    using mem start e av aw by (metis atLeastLessThan_iff not_less_iff_gr_or_eq subsetI subset_antisym)
  then show ?case using Cons.IH [OF v(2) w(2)] start e ys by simp
qed

section \<open>The contract\<close>

text \<open>
  What the downloader, the checkpointer and the scheduler use of an interval set: \<open>inv\<close> is kept
  by \<open>add\<close>, and each operation is a set operation on the bytes.
\<close>

locale range_set =
  fixes inv :: "'s \<Rightarrow> bool"
    and byte_set :: "'s \<Rightarrow> int set"
    and add :: "'s \<Rightarrow> int \<Rightarrow> int \<Rightarrow> 's"
    and missing :: "'s \<Rightarrow> int \<Rightarrow> Interval list"
    and has :: "'s \<Rightarrow> int \<Rightarrow> int \<Rightarrow> bool"
  assumes inv_add: "inv s \<Longrightarrow> inv (add s a b)"
    and byte_set_add: "inv s \<Longrightarrow> byte_set (add s a b) = byte_set s \<union> {a..<b}"
    and covered_missing: "inv s \<Longrightarrow> covered (missing s tot) = {0..<tot} - byte_set s"
    and has_iff: "inv s \<Longrightarrow> has s a b \<longleftrightarrow> {a..<b} \<subseteq> byte_set s"
begin

lemma inv_add_all: "inv s \<Longrightarrow> inv (foldl (\<lambda>t v. add t (Start v) (End v)) s vs)"
  by (induction vs arbitrary: s) (auto intro: inv_add)

lemma byte_set_add_all:
  "inv s \<Longrightarrow> byte_set (foldl (\<lambda>t v. add t (Start v) (End v)) s vs) = byte_set s \<union> covered vs"
  by (induction vs arbitrary: s) (auto simp: inv_add byte_set_add)

lemma has_after_missing:
  "inv s \<Longrightarrow> has (foldl (\<lambda>t v. add t (Start v) (End v)) s (missing s tot)) 0 tot"
  by (auto simp: has_iff inv_add_all byte_set_add_all covered_missing)

lemma nothing_missing: "inv s \<Longrightarrow> covered (missing s tot) = {} \<longleftrightarrow> has s 0 tot"
  by (auto simp: covered_missing has_iff)

end

interpretation ivs: range_set "\<lambda>s. wf_ivs (iv s)" bytes Add Missing contains
  by unfold_locales (simp_all add: wf_Add bytes_Add covered_Missing contains_iff)

section \<open>Properties\<close>

text \<open>C10: \<^verbatim>\<open>IntervalSet.Add\<close> keeps the list sorted, disjoint and coalesced, leaves the file size alone,
  and records exactly the bytes it held before plus the new range.\<close>

theorem Add_correct:
  assumes "wf_ivs (iv s)"
  shows "wf_ivs (iv (Add s start e)) \<and> isize (Add s start e) = isize s \<and>
         bytes (Add s start e) = bytes s \<union> {start..<e}"
  using assms by (simp add: wf_Add bytes_Add)

theorem Add_correct_witness:
  "Add \<lparr>iv = [Iv 0 4, Iv 8 12, Iv 20 24], isize = 30\<rparr> 4 9 = \<lparr>iv = [Iv 0 12, Iv 20 24], isize = 30\<rparr> \<and>
   bytes \<lparr>iv = [Iv 0 12, Iv 20 24], isize = 30\<rparr>
     = bytes \<lparr>iv = [Iv 0 4, Iv 8 12, Iv 20 24], isize = 30\<rparr> \<union> {4..<9}"
proof -
  let ?s = "\<lparr>iv = [Iv 0 4, Iv 8 12, Iv 20 24], isize = 30\<rparr>"
  have "Add ?s 4 9 = \<lparr>iv = [Iv 0 12, Iv 20 24], isize = 30\<rparr>" by code_simp
  moreover have "wf_ivs (iv ?s)" by code_simp
  ultimately show ?thesis using Add_correct [of ?s 4 9] by simp
qed

text \<open>C11: \<^verbatim>\<open>Missing(total)\<close> is the complement of the set inside \<open>[0, total)\<close>, itself sorted, disjoint and
  coalesced, and downloading what it lists (in list order) leaves nothing missing: \<^verbatim>\<open>contains(0, total)\<close>
  answers true afterwards and the set covers at least \<open>total\<close> bytes.\<close>

theorem Missing_resume:
  assumes "wf_ivs (iv s)" and "0 < tot"
  defines "s' \<equiv> foldl (\<lambda>t v. Add t (Start v) (End v)) s (Missing s tot)"
  shows "wf_ivs (Missing s tot) \<and> covered (Missing s tot) = {0..<tot} - bytes s \<and>
         contains s' 0 tot \<and> covered (Missing s' tot) = {} \<and> bytes s' = bytes s \<union> {0..<tot}"
proof -
  have wf: "wf_ivs (iv s')" unfolding s'_def by (rule ivs.inv_add_all [OF assms(1)])
  have has: "contains s' 0 tot" unfolding s'_def by (rule ivs.has_after_missing [OF assms(1)])
  have "bytes s' = bytes s \<union> ({0..<tot} - bytes s)"
    unfolding s'_def ivs.byte_set_add_all [OF assms(1)] covered_Missing [OF assms(1)] ..
  then show ?thesis
    using has ivs.nothing_missing [OF wf, of tot] wf_Missing [OF assms(1,2)]
      covered_Missing [OF assms(1), of tot] by simp
qed

theorem Missing_resume_witness:
  "let s = \<lparr>iv = [Iv 2 4, Iv 8 12], isize = 30\<rparr> in
   wf_ivs (iv s) \<and> Missing s 10 = [Iv 0 2, Iv 4 8] \<and>
   contains (foldl (\<lambda>t v. Add t (Start v) (End v)) s (Missing s 10)) 0 10"
  using Missing_resume [of "\<lparr>iv = [Iv 2 4, Iv 8 12], isize = 30\<rparr>" 10]
  by (simp add: wf_ivs_def Missing_def Let_def)

text \<open>\<^verbatim>\<open>contains\<close> is inclusion in the covered bytes, \<^verbatim>\<open>total\<close> is their number, and the
  representation is canonical: two sets that cover the same bytes are the same list.\<close>

lemma queries_exact:
  assumes "wf_ivs (iv s)" and "wf_ivs (iv t)"
  shows "(contains s a b \<longleftrightarrow> {a..<b} \<subseteq> bytes s) \<and> total_bytes s = int (card (bytes s)) \<and>
         (bytes s = bytes t \<longleftrightarrow> iv s = iv t) \<and> clone s = s"
  using assms wf_ivs_canonical by (auto simp: contains_iff total_bytes_card bytes_def clone_def)

lemma queries_exact_example:
  "let s = \<lparr>iv = [Iv 2 4, Iv 8 12], isize = 30\<rparr> in
   wf_ivs (iv s) \<and> contains s 9 12 \<and> \<not> contains s 3 9 \<and> total_bytes s = 6 \<and> {9..<12} \<subseteq> bytes s"
  using queries_exact [of "\<lparr>iv = [Iv 2 4, Iv 8 12], isize = 30\<rparr>" "\<lparr>iv = [], isize = 30\<rparr>" 9 12]
  by (simp add: wf_ivs_def contains_def total_bytes_def)

end
