(* ===== verification/Serde.thy ===== *)
theory Serde
  imports Intervals
begin

text \<open>
  The progress blob of \<^verbatim>\<open>pkg/transfer/interval_serde.go\<close>: the only record a download resumes
  from. The encoder and the decoder are translated with every check they make; the reasons of a
  \<^verbatim>\<open>CorruptProgressError\<close> are the constructors of \<open>CorruptProgressError\<close>.
\<close>

section \<open>Encoder and decoder\<close>

datatype CorruptProgressError =
    NegativeSize int
  | EmptyOrReversed nat int int
  | OverlapsPrevious nat int int
  | ExceedsSize nat int int
  | BadMagic
  | UnsupportedVersion byte
  | TruncatedSize
  | SizeOutOfRange u64
  | TruncatedCount
  | CountExceedsPayload
  | TruncatedStart nat
  | TruncatedLength nat
  | ZeroLength nat
  | DeltaOutOfRange nat
  | StartOverflows nat
  | EndOverflows nat
  | EndOutOfBounds nat int u64
  | TrailingGarbage

definition serdeMagic :: "byte list" where
  "serdeMagic = [0x48, 0x46, 0x44, 0x50]"

definition serdeVersion :: byte where
  "serdeVersion = 1"

fun marshal_check :: "nat \<Rightarrow> Interval list \<Rightarrow> int \<Rightarrow> int \<Rightarrow> CorruptProgressError option" where
  "marshal_check i [] prevEnd sz = None"
| "marshal_check i (v # vs) prevEnd sz =
     (if End v \<le> Start v then Some (EmptyOrReversed i (Start v) (End v))
      else if Start v < prevEnd then Some (OverlapsPrevious i (Start v) prevEnd)
      else if sz < End v then Some (ExceedsSize i (End v) sz)
      else marshal_check (i + 1) vs (End v) sz)"

fun marshal_loop :: "Interval list \<Rightarrow> int \<Rightarrow> byte list \<Rightarrow> byte list" where
  "marshal_loop [] prevEnd out = out"
| "marshal_loop (v # vs) prevEnd out =
     (let out1 = append_uvarint out (word_of_int (Start v - prevEnd));
          out2 = append_uvarint out1 (word_of_int (End v - Start v))
      in marshal_loop vs (End v) out2)"

definition MarshalBinary :: "IntervalSet \<Rightarrow> CorruptProgressError + byte list" where
  "MarshalBinary s =
     (if isize s < 0 then Inl (NegativeSize (isize s))
      else case marshal_check 0 (iv s) 0 (isize s) of
        Some e \<Rightarrow> Inl e
      | None \<Rightarrow>
          (let out = serdeMagic @ [serdeVersion];
               out = append_uvarint out (word_of_int (isize s));
               out = append_uvarint out (of_nat (length (iv s)))
           in Inr (marshal_loop (iv s) 0 out)))"

fun unmarshal_loop ::
  "nat \<Rightarrow> nat \<Rightarrow> u64 \<Rightarrow> byte list \<Rightarrow> int \<Rightarrow> Interval list
     \<Rightarrow> CorruptProgressError + (Interval list \<times> byte list)" where
  "unmarshal_loop 0 i sz rest prevEnd out = Inr (out, rest)"
| "unmarshal_loop (Suc c) i sz rest prevEnd out =
     (let (delta, n) = uvarint rest in
      if n \<le> 0 then Inl (TruncatedStart i) else
      let rest = drop (nat n) rest; (len, m) = uvarint rest in
      if m \<le> 0 then Inl (TruncatedLength i) else
      let rest = drop (nat m) rest in
      if len = 0 then Inl (ZeroLength i) else
      if MaxInt64 < uint delta \<or> MaxInt64 < uint len then Inl (DeltaOutOfRange i) else
      if MaxInt64 - prevEnd < uint delta then Inl (StartOverflows i) else
      let start = prevEnd + uint delta in
      if MaxInt64 - start < uint len then Inl (EndOverflows i) else
      let e = start + uint len in
      if uint sz < e then Inl (EndOutOfBounds i e sz)
      else unmarshal_loop c (i + 1) sz rest e (out @ [Iv start e]))"

definition UnmarshalBinary :: "byte list \<Rightarrow> CorruptProgressError + IntervalSet" where
  "UnmarshalBinary b =
     (if length b < 5 \<or> take 4 b \<noteq> serdeMagic then Inl BadMagic
      else if b ! 4 \<noteq> serdeVersion then Inl (UnsupportedVersion (b ! 4)) else
      let rest = drop 5 b; (sz, n) = uvarint rest in
      if n \<le> 0 then Inl TruncatedSize else
      if MaxInt64 < uint sz then Inl (SizeOutOfRange sz) else
      let rest = drop (nat n) rest; (count, m) = uvarint rest in
      if m \<le> 0 then Inl TruncatedCount else
      let rest = drop (nat m) rest in
      if of_nat (length rest) + 1 < count then Inl CountExceedsPayload else
      (case unmarshal_loop (unat count) 0 sz rest 0 [] of
         Inl e \<Rightarrow> Inl e
       | Inr (vs, rest) \<Rightarrow>
           if rest \<noteq> [] then Inl TrailingGarbage
           else Inr (foldl (\<lambda>t v. Add t (Start v) (End v)) (empty_set (uint sz)) vs)))"

section \<open>Shape of encoder and decoder\<close>

text \<open>
  \<open>ordered_from p vs\<close>: what \<^verbatim>\<open>MarshalBinary\<close> validates and what the decoder loop produces;
  adjacent intervals are still allowed.
\<close>

fun ordered_from :: "int \<Rightarrow> Interval list \<Rightarrow> int \<Rightarrow> bool" where
  "ordered_from p [] sz \<longleftrightarrow> True"
| "ordered_from p (v # vs) sz \<longleftrightarrow> p \<le> Start v \<and> Start v < End v \<and> End v \<le> sz \<and> ordered_from (End v) vs sz"

lemma marshal_check_None: "marshal_check i vs p sz = None \<longleftrightarrow> ordered_from p vs sz"
  by (induction i vs p sz rule: marshal_check.induct) auto

lemma ordered_from_append:
  "ordered_from p (xs @ ys) sz \<longleftrightarrow>
     ordered_from p xs sz \<and> ordered_from (if xs = [] then p else End (last xs)) ys sz"
  by (induction p xs sz rule: ordered_from.induct) auto

lemma wf_ivs_ordered:
  "wf_ivs vs \<Longrightarrow> \<forall>v \<in> set vs. p \<le> Start v \<and> End v \<le> sz \<Longrightarrow> ordered_from p vs sz"
  by (induction p vs sz rule: ordered_from.induct) (auto simp: wf_ivs_Cons less_imp_le)

lemma ordered_covered: "ordered_from p vs sz \<Longrightarrow> covered vs \<subseteq> {p..<sz}"
  by (induction p vs sz rule: ordered_from.induct) fastforce+

lemma ordered_length: "ordered_from p vs sz \<Longrightarrow> p \<le> sz \<Longrightarrow> int (length vs) \<le> sz - p"
  by (induction p vs sz rule: ordered_from.induct) auto

lemma marshal_loop_acc: "marshal_loop vs p out = out @ marshal_loop vs p []"
proof (induction vs arbitrary: p out)
  case (Cons v vs)
  have "marshal_loop (v # vs) p acc = acc @ append_uvarint [] (word_of_int (Start v - p)) @
      append_uvarint [] (word_of_int (End v - Start v)) @ marshal_loop vs (End v) []" for acc
    by (simp only: marshal_loop.simps Let_def append_uvarint_acc [of "acc @ _"]
        append_uvarint_acc [of acc] Cons.IH [of _ "acc @ _"] append_assoc)
  then show ?case by (simp only: append_Nil)
qed simp

lemma marshal_loop_Cons:
  "marshal_loop (v # vs) p [] = append_uvarint [] (word_of_int (Start v - p)) @
     append_uvarint [] (word_of_int (End v - Start v)) @ marshal_loop vs (End v) []"
  by (simp add: Let_def append_uvarint_acc [of "append_uvarint [] _"]
      marshal_loop_acc [of vs "End v" "_ @ _"])

lemma length_marshal_loop: "length vs \<le> length (marshal_loop vs p [])"
proof (induction vs arbitrary: p)
  case (Cons v vs)
  then have "length vs \<le> length (marshal_loop vs (End v) [])" .
  moreover have "0 < length (append_uvarint [] (word_of_int (Start v - p) :: u64))" by simp
  ultimately show ?case unfolding marshal_loop_Cons by (simp only: length_append length_Cons)
qed simp

section \<open>Round trip\<close>

lemma uint_word_of_int_small: "0 \<le> n \<Longrightarrow> n \<le> MaxInt64 \<Longrightarrow> uint (word_of_int n :: u64) = n"
  by (simp add: MaxInt64_def uint_word_of_int)

lemma unmarshal_marshal_loop:
  "ordered_from p vs (uint sz) \<Longrightarrow> uint sz \<le> MaxInt64 \<Longrightarrow> 0 \<le> p \<Longrightarrow>
   unmarshal_loop (length vs) i sz (marshal_loop vs p [] @ rest) p out = Inr (out @ vs, rest)"
proof (induction vs arbitrary: i p out)
  case (Cons v vs)
  have v: "p \<le> Start v" "Start v < End v" "End v \<le> uint sz" using Cons.prems by auto
  define d l where "d = (word_of_int (Start v - p) :: u64)" and "l = (word_of_int (End v - Start v) :: u64)"
  have u: "uint d = Start v - p" "uint l = End v - Start v"
    unfolding d_def l_def
    by (rule uint_word_of_int_small; use v Cons.prems(2,3) in linarith)+
  then have "l \<noteq> 0" using v by auto
  moreover have "unmarshal_loop (length vs) (i + 1) sz (marshal_loop vs (End v) [] @ rest) (End v)
      (out @ [Iv (Start v) (End v)]) = Inr (out @ v # vs, rest)"
    using Cons v by (simp add: Iv_def)
  moreover have "marshal_loop (v # vs) p [] @ rest
      = append_uvarint [] d @ append_uvarint [] l @ marshal_loop vs (End v) [] @ rest"
    unfolding marshal_loop_Cons d_def l_def by simp
  ultimately show ?case
    using v u Cons.prems(2,3) by (simp add: Let_def uvarint_append del: marshal_loop.simps)
qed simp

lemma UnmarshalBinary_append:
  assumes "ordered_from 0 vs sz" "0 \<le> sz" "sz \<le> MaxInt64"
    and "int (length (marshal_loop vs 0 [])) \<le> MaxInt64"
  shows "UnmarshalBinary (serdeMagic @ [serdeVersion] @ append_uvarint [] (word_of_int sz) @
      append_uvarint [] (of_nat (length vs)) @ marshal_loop vs 0 [])
    = Inr (foldl (\<lambda>t v. Add t (Start v) (End v)) (empty_set sz) vs)"
proof -
  have sz: "uint (word_of_int sz :: u64) = sz" using assms by (simp add: uint_word_of_int_small)
  have "int (length vs) \<le> MaxInt64" using ordered_length [OF assms(1,2)] assms(3) by simp
  then have len: "unat (of_nat (length vs) :: u64) = length vs"
    by (simp add: MaxInt64_def unat_of_nat)
  have "unat (of_nat (Suc (length (marshal_loop vs 0 []))) :: u64) = Suc (length (marshal_loop vs 0 []))"
    using assms(4) by (subst unat_of_nat) (simp add: MaxInt64_def)
  then have count: "\<not> of_nat (length (marshal_loop vs 0 [])) + 1 < (of_nat (length vs) :: u64)"
    using length_marshal_loop [of vs 0] len by (simp add: word_less_nat_alt add.commute)
  have loop: "unmarshal_loop (length vs) 0 (word_of_int sz) (marshal_loop vs 0 []) 0 [] = Inr (vs, [])"
    using unmarshal_marshal_loop [of 0 vs "word_of_int sz" 0 "[]" "[]"] sz assms by simp
  show ?thesis
    unfolding UnmarshalBinary_def
    using count len sz assms(3) loop
    by (simp add: Let_def uvarint_append serdeMagic_def serdeVersion_def)
qed

lemma MarshalBinary_Inr:
  assumes "MarshalBinary s = Inr b"
  shows "ordered_from 0 (iv s) (isize s)" "0 \<le> isize s"
    "b = serdeMagic @ [serdeVersion] @ append_uvarint [] (word_of_int (isize s)) @
      append_uvarint [] (of_nat (length (iv s))) @ marshal_loop (iv s) 0 []"
proof -
  show "ordered_from 0 (iv s) (isize s)" "0 \<le> isize s"
    using assms by (auto simp: MarshalBinary_def split: if_splits option.splits
        simp flip: marshal_check_None [where i = 0])
  have "b = marshal_loop (iv s) 0 (append_uvarint (append_uvarint (serdeMagic @ [serdeVersion])
      (word_of_int (isize s))) (of_nat (length (iv s))))"
    using assms by (simp add: MarshalBinary_def Let_def split: if_splits option.splits)
  also have "\<dots> = serdeMagic @ [serdeVersion] @ append_uvarint [] (word_of_int (isize s)) @
      append_uvarint [] (of_nat (length (iv s))) @ marshal_loop (iv s) 0 []"
    by (simp only: marshal_loop_acc [of "iv s" 0 "_ @ _"]
        append_uvarint_acc [of "append_uvarint _ _"] append_uvarint_acc [of "_ @ _"] append_assoc)
  finally show "b = serdeMagic @ [serdeVersion] @ append_uvarint [] (word_of_int (isize s)) @
      append_uvarint [] (of_nat (length (iv s))) @ marshal_loop (iv s) 0 []" .
qed

lemma wf_empty_set [simp]: "wf_ivs (iv (empty_set n))" "bytes (empty_set n) = {}" "isize (empty_set n) = n"
  by (simp_all add: empty_set_def bytes_def)

lemma isize_add_all:
  "wf_ivs (iv s) \<Longrightarrow> isize (foldl (\<lambda>t v. Add t (Start v) (End v)) s vs) = isize s"
  by (induction vs arbitrary: s) (auto simp: wf_Add)

lemmas merged_facts =
  ivs.inv_add_all [OF wf_empty_set(1)] ivs.byte_set_add_all [OF wf_empty_set(1)]
  isize_add_all [OF wf_empty_set(1)]

lemma roundtrip:
  assumes "MarshalBinary s = Inr b" "isize s \<le> MaxInt64" "int (length b) \<le> MaxInt64"
  shows "UnmarshalBinary b = Inr (foldl (\<lambda>t v. Add t (Start v) (End v)) (empty_set (isize s)) (iv s))"
  using MarshalBinary_Inr [OF assms(1)] assms(2,3) UnmarshalBinary_append by simp

section \<open>Decoded sets\<close>

lemma unmarshal_loop_ordered:
  "unmarshal_loop c i sz rest p out = Inr (vs, rest') \<Longrightarrow> \<exists>ws. vs = out @ ws \<and> ordered_from p ws (uint sz)"
proof (induction c i sz rest p out rule: unmarshal_loop.induct)
  case (2 c i sz rest p out)
  from "2.prems" obtain delta n len m where
    u: "uvarint rest = (delta, n)" "uvarint (drop (nat n) rest) = (len, m)" "\<not> n \<le> 0" "\<not> m \<le> 0"
      "len \<noteq> 0" "\<not> (MaxInt64 < uint delta \<or> MaxInt64 < uint len)" "\<not> MaxInt64 - p < uint delta"
      "\<not> MaxInt64 - (p + uint delta) < uint len" "\<not> uint sz < p + uint delta + uint len"
      "unmarshal_loop c (i + 1) sz (drop (nat m) (drop (nat n) rest)) (p + uint delta + uint len)
        (out @ [Iv (p + uint delta) (p + uint delta + uint len)]) = Inr (vs, rest')"
    by (auto simp: Let_def split: prod.splits if_splits)
  then obtain ws where "vs = (out @ [Iv (p + uint delta) (p + uint delta + uint len)]) @ ws"
      "ordered_from (p + uint delta + uint len) ws (uint sz)"
    using "2.IH" [OF u(1)[symmetric] refl u(3) refl u(2)[symmetric] refl u(4) refl u(5-7) refl u(8) refl u(9,10)]
    by auto
  moreover have "0 < uint len" using u(5) by (metis order_le_less uint_ge_0 unsigned_eq_0_iff)
  ultimately show ?case using u(9)
    by (intro exI [of _ "Iv (p + uint delta) (p + uint delta + uint len) # ws"]) simp
qed simp

lemma UnmarshalBinary_ordered:
  assumes "UnmarshalBinary b = Inr s"
  obtains sz vs where "s = foldl (\<lambda>t v. Add t (Start v) (End v)) (empty_set sz) vs"
    "ordered_from 0 vs sz" "0 \<le> sz" "sz \<le> MaxInt64"
proof -
  from assms obtain sz vs count rest where
    "unmarshal_loop count 0 sz rest 0 [] = Inr (vs, [])" "\<not> MaxInt64 < uint sz"
    and s: "s = foldl (\<lambda>t v. Add t (Start v) (End v)) (empty_set (uint sz)) vs"
    by (auto simp: UnmarshalBinary_def Let_def split: if_splits prod.splits sum.splits)
  moreover from this(1) have "ordered_from 0 vs (uint sz)" by (auto dest: unmarshal_loop_ordered)
  ultimately show thesis by (intro that [OF s]) simp_all
qed

section \<open>The salvage record\<close>

text \<open>
  \<^verbatim>\<open>fullIntervalBlob\<close> of \<^verbatim>\<open>pkg/sched/disk.go\<close> writes the one-interval record by hand; the bytes are
  the ones \<^verbatim>\<open>MarshalBinary\<close> would emit.
\<close>

definition fullIntervalBlob :: "int \<Rightarrow> byte list" where
  "fullIntervalBlob sz =
     (let out = [0x48, 0x46, 0x44, 0x50, 1];
          out = append_uvarint out (word_of_int sz);
          out = append_uvarint out 1;
          out = append_uvarint out 0
      in append_uvarint out (word_of_int sz))"

lemma fullIntervalBlob_Marshal:
  "0 < sz \<Longrightarrow> MarshalBinary \<lparr>iv = [Iv 0 sz], isize = sz\<rparr> = Inr (fullIntervalBlob sz)"
  by (simp add: MarshalBinary_def fullIntervalBlob_def Let_def serdeMagic_def serdeVersion_def)

section \<open>Properties\<close>

text \<open>C12: A progress blob written by \<^verbatim>\<open>MarshalBinary\<close> is read back by \<^verbatim>\<open>UnmarshalBinary\<close> as the same set,
  for every well-formed set whose size and whose blob length a Go program can hold.\<close>

theorem blob_roundtrip:
  assumes "MarshalBinary s = Inr b" and "wf_ivs (iv s)"
    and "isize s \<le> MaxInt64" and "int (length b) \<le> MaxInt64"
  shows "UnmarshalBinary b = Inr s"
proof -
  let ?t = "foldl (\<lambda>t v. Add t (Start v) (End v)) (empty_set (isize s)) (iv s)"
  have "iv ?t = iv s"
    by (rule wf_ivs_canonical [OF merged_facts(1) assms(2)])
      (use merged_facts(2) [of "isize s" "iv s"] in \<open>simp add: bytes_def empty_set_def\<close>)
  moreover have "isize ?t = isize s" using merged_facts(3) by simp
  ultimately have "?t = s" by simp
  then show ?thesis using roundtrip [OF assms(1,3,4)] by simp
qed

theorem blob_roundtrip_witness:
  "\<exists>b. MarshalBinary \<lparr>iv = [Iv 0 5, Iv 300 1000], isize = 1000\<rparr> = Inr b \<and> length b = 14 \<and>
    UnmarshalBinary b = Inr \<lparr>iv = [Iv 0 5, Iv 300 1000], isize = 1000\<rparr>"
proof -
  let ?s = "\<lparr>iv = [Iv 0 5, Iv 300 1000], isize = 1000\<rparr>"
  let ?b = "[0x48, 0x46, 0x44, 0x50, 1, 0xe8, 7, 2, 0, 5, 0xa7, 2, 0xbc, 5] :: byte list"
  have b: "MarshalBinary ?s = Inr ?b" by code_simp
  then show ?thesis using blob_roundtrip [OF b]
    by (simp add: wf_ivs_def MaxInt64_def)
qed



text \<open>The hand-written salvage record of \<^verbatim>\<open>fullIntervalBlob\<close> decodes to the complete set \<open>[0, size)\<close>,
  so nothing is missing after a salvage.\<close>

lemma fullIntervalBlob_complete:
  assumes "0 < sz" and "sz \<le> MaxInt64"
  shows "UnmarshalBinary (fullIntervalBlob sz) = Inr \<lparr>iv = [Iv 0 sz], isize = sz\<rparr> \<and>
         Missing \<lparr>iv = [Iv 0 sz], isize = sz\<rparr> sz = []"
proof -
  let ?s = "\<lparr>iv = [Iv 0 sz], isize = sz\<rparr>"
  have m: "MarshalBinary ?s = Inr (fullIntervalBlob sz)"
    using assms(1) by (rule fullIntervalBlob_Marshal)
  have "length (fullIntervalBlob sz) \<le> 5 + 10 + 10 + 10 + 10"
    using length_append_uvarint [of "word_of_int sz"] length_append_uvarint [of 0]
      length_append_uvarint [of 1] unfolding MarshalBinary_Inr(3) [OF m]
    by (simp add: serdeMagic_def marshal_loop_Cons del: marshal_loop.simps(2))
  then have "int (length (fullIntervalBlob sz)) \<le> MaxInt64" by (simp add: MaxInt64_def)
  then have "UnmarshalBinary (fullIntervalBlob sz) = Inr (foldl (\<lambda>t v. Add t (Start v) (End v)) (empty_set sz) [Iv 0 sz])"
    using roundtrip [OF m] assms(2) by simp
  also have "foldl (\<lambda>t v. Add t (Start v) (End v)) (empty_set sz) [Iv 0 sz] = ?s"
    using assms(1) by (simp add: empty_set_def Add_def go_search_def search_loop.simps go_copy_def)
  finally show ?thesis using assms(1) by (simp add: Missing_def)
qed

lemma fullIntervalBlob_complete_example:
  "0 < (123456789::int) \<and> 123456789 \<le> MaxInt64 \<and>
   UnmarshalBinary (fullIntervalBlob 123456789) = Inr \<lparr>iv = [Iv 0 123456789], isize = 123456789\<rparr>"
  using fullIntervalBlob_complete [of 123456789] by (simp add: MaxInt64_def)

end
