(* ===== verification/Store_Model.thy ===== *)
theory Store_Model
  imports Prelude
begin

text \<open>
  The state database of \<^verbatim>\<open>pkg/store\<close>: row types (\<^verbatim>\<open>models.go\<close>), the errors
  (\<^verbatim>\<open>errors.go\<close>), and the SQL the operations are written in. A table is the list of its
  rows. Columns keep the names of the Go fields with a prefix per table; the lease columns
  that five tables share are a common record, so that the lease operations and their lemmas
  are stated once. A nullable text column whose code treats NULL and \<^verbatim>\<open>''\<close> alike
  (\<^verbatim>\<open>nullzero\<close>) is a \<open>string\<close>, every other nullable column an \<open>option\<close>.
\<close>

section \<open>Rows\<close>

datatype RepoStatus = RepoPending | RepoListing | RepoListed | RepoError
datatype JobStatus = JobQueued | JobRunning | JobDone | JobError
datatype FileStatus = FileDiscovered | FileSalvaging | FileQueued | FileDownloading
  | FileDownloaded | FileVerifying | FileCached | FileError
datatype JobFileStatus = JobFilePending | JobFileInstalling | JobFileDone | JobFileError
datatype BlockStatus = BlockPending | BlockActive | BlockDone
datatype ReferenceStatus = RefPending | RefHashing | RefHashed | RefError

type_synonym LeaseToken = string

definition DestModeCache :: string where "DestModeCache = ''cache''"
definition DestModeLocalDir :: string where "DestModeLocalDir = ''local-dir''"

record lease_cols =
  lease_owner :: "string option"
  lease_token :: "LeaseToken option"
  lease_until :: "time option"
  updated_at :: time

record Repo = lease_cols +
  r_id :: int
  r_type :: string
  r_name :: string
  r_revision :: string
  r_commit_sha :: string
  r_endpoint :: string
  r_status :: RepoStatus
  r_retries :: int
  r_last_error :: "string option"
  r_available_at :: "time option"
  r_created_at :: time

record Job =
  j_id :: int
  j_repo_id :: int
  j_filenames :: string
  j_include :: string
  j_exclude :: string
  j_dest_mode :: string
  j_dest_dir :: string
  j_status :: JobStatus
  j_last_error :: "string option"
  j_created_at :: time
  j_updated_at :: time

record File = lease_cols +
  f_id :: int
  f_repo_id :: int
  f_path :: string
  f_size :: int
  f_git_oid :: string
  f_sha256 :: string
  f_xet_hash :: string
  f_is_lfs :: bool
  f_status :: FileStatus
  f_cache_path :: string
  f_block_size :: int
  f_conns :: int
  f_progress :: "byte list option"
  f_progress_ver :: int
  f_retries :: int
  f_verify_fails :: int
  f_last_error :: "string option"

record JobFile = lease_cols +
  jf_job_id :: int
  jf_file_id :: int
  jf_dest_path :: string
  jf_status :: JobFileStatus
  jf_last_error :: "string option"

record Block = lease_cols +
  b_id :: int
  b_file_id :: int
  b_idx :: int
  b_offset :: int
  b_length :: int
  b_status :: BlockStatus
  b_upstream :: string
  b_retries :: int
  b_last_error :: "string option"
  b_available_at :: "time option"

record ReferenceFile = lease_cols +
  rf_id :: int
  rf_path :: string
  rf_size :: int
  rf_mtime_ns :: int
  rf_dev :: int
  rf_ino :: int
  rf_status :: ReferenceStatus
  rf_sha256 :: string
  rf_last_error :: "string option"

record FileEntry =
  fe_path :: string
  fe_size :: int
  fe_git_oid :: string
  fe_sha256 :: string
  fe_xet_hash :: string
  fe_is_lfs :: bool

record Upstream =
  u_id :: int
  u_endpoint :: string
  u_cooldown_until :: "time option"
  u_ema_bps :: real
  u_errors :: int
  u_successes :: int
  u_blacklist_until :: "time option"
  u_updated_at :: time

record EndpointCooldown =
  ec_endpoint :: string
  ec_kind :: string
  ec_until :: time
  ec_reason :: string

record DB =
  repos :: "Repo list"
  jobs :: "Job list"
  files :: "File list"
  job_files :: "JobFile list"
  blocks :: "Block list"
  reference_files :: "ReferenceFile list"
  upstreams :: "Upstream list"
  endpoint_cooldowns :: "EndpointCooldown list"
  kv :: "(string \<times> string) list"

definition empty_db :: DB where
  "empty_db = \<lparr>repos = [], jobs = [], files = [], job_files = [], blocks = [],
     reference_files = [], upstreams = [], endpoint_cooldowns = [], kv = []\<rparr>"

section \<open>Errors\<close>

text \<open>
  \<open>Constraint\<close> is a statement the schema rejects (UNIQUE, CHECK, FOREIGN KEY), \<open>NoRows\<close>
  the \<^verbatim>\<open>sql.ErrNoRows\<close> of a scan, \<open>OtherErr\<close> an error the operation makes itself.
\<close>

datatype store_error =
    ErrFenced
  | ErrNoWork
  | ErrLiveBlockLeases
  | ErrBlocksPending
  | ErrTokenlessEdge
  | Constraint
  | NoRows
  | OtherErr string

section \<open>Statements\<close>

text \<open>\<^verbatim>\<open>UPDATE t SET g WHERE P\<close>, \<^verbatim>\<open>SELECT COUNT(*) FROM t WHERE P\<close>,
  \<^verbatim>\<open>SELECT * FROM t WHERE P ORDER BY k LIMIT 1\<close>.\<close>

definition sql_update :: "('r \<Rightarrow> bool) \<Rightarrow> ('r \<Rightarrow> 'r) \<Rightarrow> 'r list \<Rightarrow> 'r list" where
  "sql_update P g t = map (\<lambda>r. if P r then g r else r) t"

definition sql_count :: "('r \<Rightarrow> bool) \<Rightarrow> 'r list \<Rightarrow> nat" where
  "sql_count P t = length (filter P t)"

definition sql_first :: "('r \<Rightarrow> 'k :: linorder) \<Rightarrow> ('r \<Rightarrow> bool) \<Rightarrow> 'r list \<Rightarrow> 'r option" where
  "sql_first k P t = (case sort_key k (filter P t) of [] \<Rightarrow> None | r # _ \<Rightarrow> Some r)"

text \<open>The rowid a SQLite \<^verbatim>\<open>INTEGER PRIMARY KEY\<close> column gets: one more than the largest in use.\<close>

definition next_id :: "int list \<Rightarrow> int" where
  "next_id ids = foldr max ids 0 + 1"

section \<open>Leases\<close>

text \<open>\<^verbatim>\<open>lease_owner = NULL, lease_token = NULL, lease_until = NULL\<close> and the claim's
  \<^verbatim>\<open>lease_owner = ?, lease_token = ?, lease_until = ?\<close>.\<close>

definition clear_lease :: "'a lease_cols_scheme \<Rightarrow> 'a lease_cols_scheme" where
  "clear_lease r = r\<lparr>lease_owner := None, lease_token := None, lease_until := None\<rparr>"

definition set_lease :: "string \<Rightarrow> LeaseToken \<Rightarrow> time \<Rightarrow> 'a lease_cols_scheme \<Rightarrow> 'a lease_cols_scheme" where
  "set_lease owner tok until r = r\<lparr>lease_owner := Some owner, lease_token := Some tok, lease_until := Some until\<rparr>"

definition expired :: "time \<Rightarrow> 'a lease_cols_scheme \<Rightarrow> bool" where
  "expired now r = (case lease_until r of None \<Rightarrow> False | Some u \<Rightarrow> u \<le> now)"

definition live :: "time \<Rightarrow> 'a lease_cols_scheme \<Rightarrow> bool" where
  "live now r = (case lease_until r of None \<Rightarrow> False | Some u \<Rightarrow> now < u)"

definition leaseDuration :: duration where
  "leaseDuration = 30 * second"

definition maxVerifyFails :: int where
  "maxVerifyFails = 2"

text \<open>
  \<^verbatim>\<open>execGuarded\<close>: a guarded UPDATE that must hit exactly one row. Every guard fixes the primary
  key, so the count is 0 or 1; 0 is \<open>ErrFenced\<close>.
\<close>

definition execGuarded :: "('r \<Rightarrow> bool) \<Rightarrow> ('r \<Rightarrow> 'r) \<Rightarrow> 'r list \<Rightarrow> store_error + 'r list" where
  "execGuarded P g t = (if sql_count P t \<noteq> 1 then Inl ErrFenced else Inr (sql_update P g t))"

text \<open>
  \<^verbatim>\<open>claimOne\<close>: \<^verbatim>\<open>UPDATE t SET g WHERE k = (SELECT k ... WHERE P ORDER BY k LIMIT 1) AND Q RETURNING *\<close>;
  the claimed row is returned as updated. \<open>Q\<close> repeats the status test of \<open>P\<close>.
\<close>

definition claimOne ::
  "('r \<Rightarrow> 'k :: linorder) \<Rightarrow> ('r \<Rightarrow> bool) \<Rightarrow> ('r \<Rightarrow> bool) \<Rightarrow> ('r \<Rightarrow> 'r) \<Rightarrow> 'r list
     \<Rightarrow> store_error + ('r list \<times> 'r)" where
  "claimOne k P Q g t =
     (case sql_first k P t of
        None \<Rightarrow> Inl ErrNoWork
      | Some r \<Rightarrow>
          if Q r then Inr (sql_update (\<lambda>r'. k r' = k r \<and> Q r') g t, g r) else Inl ErrNoWork)"

section \<open>Lemmas\<close>

lemma map_sql_update:
  "(\<And>r. P r \<Longrightarrow> f (g r) = f r) \<Longrightarrow> map f (sql_update P g t) = map f t"
  by (induction t) (auto simp: sql_update_def)

lemma ball_sql_update:
  "\<forall>r \<in> set t. Q r \<Longrightarrow> (\<And>r. P r \<Longrightarrow> Q r \<Longrightarrow> Q (g r)) \<Longrightarrow> \<forall>r \<in> set (sql_update P g t). Q r"
  by (auto simp: sql_update_def)

lemma ball_sql_update_iff:
  "(\<forall>r' \<in> set (sql_update P g t). Q r') \<longleftrightarrow> (\<forall>r \<in> set t. Q (if P r then g r else r))"
  by (auto simp: sql_update_def)

lemma in_sql_update: "r' \<in> set (sql_update P g t) \<longleftrightarrow> (\<exists>r \<in> set t. r' = (if P r then g r else r))"
  by (auto simp: sql_update_def)

lemma sql_update_id: "(\<And>r. r \<in> set t \<Longrightarrow> \<not> P r) \<Longrightarrow> sql_update P g t = t"
  by (induction t) (auto simp: sql_update_def)

lemma length_sql_update [simp]: "length (sql_update P g t) = length t"
  by (simp add: sql_update_def)

lemma sql_count_0: "sql_count P t = 0 \<longleftrightarrow> (\<forall>r \<in> set t. \<not> P r)"
  by (auto simp: sql_count_def filter_empty_conv)

lemma sql_count_pos: "0 < sql_count P t \<longleftrightarrow> (\<exists>r \<in> set t. P r)"
  by (metis gr_zeroI less_numeral_extra(3) sql_count_0)

lemma sql_first_SomeD: "sql_first k P t = Some r \<Longrightarrow> r \<in> set t \<and> P r"
proof -
  assume "sql_first k P t = Some r"
  then obtain rs where s: "sort_key k (filter P t) = r # rs"
    by (auto simp: sql_first_def split: list.splits)
  show ?thesis using arg_cong [OF s, of set] by auto
qed

lemma sql_first_None: "sql_first k P t = None \<longleftrightarrow> (\<forall>r \<in> set t. \<not> P r)"
proof -
  have "sort_key k (filter P t) = [] \<longleftrightarrow> filter P t = []"
    by (metis length_0_conv length_sort)
  then show ?thesis by (auto simp: sql_first_def filter_empty_conv split: list.splits)
qed

lemma sql_first_least: "sql_first k P t = Some r \<Longrightarrow> r' \<in> set t \<Longrightarrow> P r' \<Longrightarrow> k r \<le> k r'"
proof -
  assume first: "sql_first k P t = Some r" and r': "r' \<in> set t" "P r'"
  then obtain rs where s: "sort_key k (filter P t) = r # rs"
    by (auto simp: sql_first_def split: list.splits)
  have "sorted (map k (r # rs))" using sorted_sort_key [of k "filter P t"] by (simp add: s)
  moreover have "r' \<in> set (r # rs)" using r' arg_cong [OF s, of set] by auto
  ultimately show "k r \<le> k r'" by auto
qed

lemma foldr_max_ge: "x \<in> set xs \<Longrightarrow> x \<le> foldr max xs (b :: int)"
  by (induction xs) (auto simp: le_max_iff_disj)

lemma next_id_fresh: "x \<in> set ids \<Longrightarrow> x < next_id ids"
  using foldr_max_ge [of x ids 0] by (simp add: next_id_def)

lemma lease_sels [simp]:
  "lease_token (clear_lease r) = None" "lease_until (clear_lease r) = None"
  "lease_owner (clear_lease r) = None" "updated_at (clear_lease r) = updated_at r"
  "lease_token (set_lease ow tok u r) = Some tok" "lease_until (set_lease ow tok u r) = Some u"
  "lease_owner (set_lease ow tok u r) = Some ow" "updated_at (set_lease ow tok u r) = updated_at r"
  by (simp_all add: clear_lease_def set_lease_def)

lemma execGuarded_Inr:
  "execGuarded P g t = Inr t' \<longleftrightarrow> sql_count P t = 1 \<and> t' = sql_update P g t"
  by (auto simp: execGuarded_def)

lemma execGuarded_none: "(\<And>r. r \<in> set t \<Longrightarrow> \<not> P r) \<Longrightarrow> execGuarded P g t = Inl ErrFenced"
  using sql_count_0 [of P t] by (simp add: execGuarded_def)

lemma claimOne_Inr:
  "claimOne k P Q g t = Inr (t', x) \<longleftrightarrow>
     (\<exists>r. sql_first k P t = Some r \<and> Q r \<and> t' = sql_update (\<lambda>r'. k r' = k r \<and> Q r') g t \<and> x = g r)"
  by (auto simp: claimOne_def split: option.splits)

end
