(* ===== verification/Store_Ops.thy ===== *)
theory Store_Ops
  imports Store_Model "HOL-Library.Product_Lexorder" "HOL-Library.List_Lexorder"
begin

text \<open>
  Every operation of \<^verbatim>\<open>pkg/store\<close> that reads or changes the tables (\<^verbatim>\<open>jobs.go\<close>,
  \<^verbatim>\<open>files.go\<close>, \<^verbatim>\<open>blocks.go\<close>, \<^verbatim>\<open>sched.go\<close>, \<^verbatim>\<open>references.go\<close>, \<^verbatim>\<open>lease.go\<close>,
  \<^verbatim>\<open>recover.go\<close>, \<^verbatim>\<open>upstreams.go\<close>, \<^verbatim>\<open>kv.go\<close>, \<^verbatim>\<open>counts.go\<close>). An operation maps the
  database to \<open>Inl\<close> of an error, in which case its transaction rolled back and the database is
  the one before, or to \<open>Inr\<close> of the new database and the result. The clock (\<open>now\<close>), the
  instance id (\<open>owner\<close>) and the token a claim draws (\<open>tok\<close>) are arguments. A \<^verbatim>\<open>cause error\<close>
  is its message, \<open>None\<close> for \<^verbatim>\<open>nil\<close>.
\<close>

section \<open>Repositories and jobs\<close>

record JobReq =
  q_filenames :: string
  q_include :: string
  q_exclude :: string
  q_dest_mode :: string
  q_dest_dir :: string
  q_status :: "JobStatus option"
  q_repo :: "(string \<times> string \<times> string \<times> string) option"

definition repo_key :: "Repo \<Rightarrow> string \<times> string \<times> string \<times> string" where
  "repo_key r = (r_type r, r_name r, r_revision r, r_endpoint r)"

definition new_repo :: "int \<Rightarrow> time \<Rightarrow> string \<times> string \<times> string \<times> string \<Rightarrow> Repo" where
  "new_repo i now k = (case k of (ty, nm, rv, ep) \<Rightarrow>
     \<lparr>lease_owner = None, lease_token = None, lease_until = None, updated_at = now,
      r_id = i, r_type = ty, r_name = nm, r_revision = rv, r_commit_sha = '''', r_endpoint = ep,
      r_status = RepoPending, r_retries = 0, r_last_error = None, r_available_at = None,
      r_created_at = now\<rparr>)"

definition upsert_repo :: "time \<Rightarrow> string \<times> string \<times> string \<times> string \<Rightarrow> DB \<Rightarrow> DB" where
  "upsert_repo now key db =
     (if \<exists>r \<in> set (repos db). repo_key r = key then db
      else db\<lparr>repos := repos db @ [new_repo (next_id (map r_id (repos db))) now key]\<rparr>)"

definition EnqueueJob :: "JobReq \<Rightarrow> time \<Rightarrow> DB \<Rightarrow> store_error + (DB \<times> Job)" where
  "EnqueueJob q now db =
     (case q_repo q of
        None \<Rightarrow> Inl (OtherErr ''job carries no repo'')
      | Some (ty, nm, rv, ep) \<Rightarrow>
          (let key = (if ty = '''' then ''model'' else ty, nm, if rv = '''' then ''main'' else rv, ep);
               st = (case q_status q of None \<Rightarrow> JobQueued | Some s \<Rightarrow> s);
               db1 = upsert_repo now key db
           in case find (\<lambda>r. repo_key r = key) (repos db1) of
                None \<Rightarrow> Inl NoRows
              | Some r \<Rightarrow>
                  if q_dest_mode q \<noteq> DestModeCache \<and> q_dest_mode q \<noteq> DestModeLocalDir then Inl Constraint
                  else (let j = \<lparr>j_id = next_id (map j_id (jobs db1)), j_repo_id = r_id r,
                                 j_filenames = q_filenames q, j_include = q_include q,
                                 j_exclude = q_exclude q, j_dest_mode = q_dest_mode q,
                                 j_dest_dir = q_dest_dir q, j_status = st, j_last_error = None,
                                 j_created_at = now, j_updated_at = now\<rparr>
                        in Inr (db1\<lparr>jobs := jobs db1 @ [j]\<rparr>, j))))"

definition LeaseMeta :: "string \<Rightarrow> LeaseToken \<Rightarrow> time \<Rightarrow> DB \<Rightarrow> store_error + (DB \<times> Repo)" where
  "LeaseMeta owner tok now db =
     (case claimOne r_id
         (\<lambda>r. r_status r = RepoPending \<and>
              (case r_available_at r of None \<Rightarrow> True | Some a \<Rightarrow> a \<le> now))
         (\<lambda>r. r_status r = RepoPending)
         (\<lambda>r. (set_lease owner tok (now + leaseDuration) r)\<lparr>r_status := RepoListing, updated_at := now\<rparr>)
         (repos db) of
        Inl e \<Rightarrow> Inl e
      | Inr (t, r) \<Rightarrow> Inr (db\<lparr>repos := t\<rparr>, r))"

definition listing_guard :: "int \<Rightarrow> LeaseToken \<Rightarrow> Repo \<Rightarrow> bool" where
  "listing_guard i tok r \<longleftrightarrow> r_id r = i \<and> r_status r = RepoListing \<and> lease_token r = Some tok"

definition update_repo :: "(Repo \<Rightarrow> bool) \<Rightarrow> (Repo \<Rightarrow> Repo) \<Rightarrow> DB \<Rightarrow> store_error + DB" where
  "update_repo P g db =
     (case execGuarded P g (repos db) of Inl e \<Rightarrow> Inl e | Inr t \<Rightarrow> Inr (db\<lparr>repos := t\<rparr>))"

definition SetCommitSHA :: "int \<Rightarrow> LeaseToken \<Rightarrow> string \<Rightarrow> time \<Rightarrow> DB \<Rightarrow> store_error + DB" where
  "SetCommitSHA repoID tok sha now =
     update_repo (listing_guard repoID tok) (\<lambda>r. r\<lparr>r_commit_sha := sha, updated_at := now\<rparr>)"

text \<open>One iteration of the file loop of \<^verbatim>\<open>CompleteListing\<close>: the upsert by \<open>(repo_id, path)\<close>, then a
  \<^verbatim>\<open>job_files\<close> row for every job of the repo that has none.\<close>

definition new_file :: "int \<Rightarrow> int \<Rightarrow> time \<Rightarrow> FileEntry \<Rightarrow> File" where
  "new_file i repoID now e =
     \<lparr>lease_owner = None, lease_token = None, lease_until = None, updated_at = now,
      f_id = i, f_repo_id = repoID, f_path = fe_path e, f_size = fe_size e, f_git_oid = fe_git_oid e,
      f_sha256 = fe_sha256 e, f_xet_hash = fe_xet_hash e, f_is_lfs = fe_is_lfs e,
      f_status = FileQueued, f_cache_path = '''', f_block_size = 0, f_conns = 8, f_progress = None,
      f_progress_ver = 1, f_retries = 0, f_verify_fails = 0, f_last_error = None\<rparr>"

definition upsert_file :: "int \<Rightarrow> time \<Rightarrow> FileEntry \<Rightarrow> File list \<Rightarrow> File list \<times> int" where
  "upsert_file repoID now e t =
     (case find (\<lambda>f. f_repo_id f = repoID \<and> f_path f = fe_path e) t of
        Some f \<Rightarrow>
          (sql_update (\<lambda>f. f_repo_id f = repoID \<and> f_path f = fe_path e)
             (\<lambda>f. f\<lparr>f_size := fe_size e, f_git_oid := fe_git_oid e, f_sha256 := fe_sha256 e,
                    f_xet_hash := fe_xet_hash e, f_is_lfs := fe_is_lfs e, updated_at := now\<rparr>) t, f_id f)
      | None \<Rightarrow> (let i = next_id (map f_id t) in (t @ [new_file i repoID now e], i)))"

definition new_job_file :: "time \<Rightarrow> int \<Rightarrow> int \<Rightarrow> JobFile" where
  "new_job_file now jobID fileID =
     \<lparr>lease_owner = None, lease_token = None, lease_until = None, updated_at = now,
      jf_job_id = jobID, jf_file_id = fileID, jf_dest_path = '''', jf_status = JobFilePending,
      jf_last_error = None\<rparr>"

definition insert_job_file :: "time \<Rightarrow> int \<Rightarrow> int \<Rightarrow> JobFile list \<Rightarrow> JobFile list" where
  "insert_job_file now jobID fileID t =
     (if \<exists>x \<in> set t. jf_job_id x = jobID \<and> jf_file_id x = fileID then t
      else t @ [new_job_file now jobID fileID])"

definition listing_entry :: "int \<Rightarrow> time \<Rightarrow> FileEntry \<Rightarrow> DB \<Rightarrow> DB" where
  "listing_entry repoID now e db =
     (let (fs, fileID) = upsert_file repoID now e (files db);
          js = map j_id (filter (\<lambda>j. j_repo_id j = repoID) (jobs db))
      in db\<lparr>files := fs,
            job_files := foldl (\<lambda>t j. insert_job_file now j fileID t) (job_files db) js\<rparr>)"

definition CompleteListing :: "int \<Rightarrow> LeaseToken \<Rightarrow> FileEntry list \<Rightarrow> time \<Rightarrow> DB \<Rightarrow> store_error + DB" where
  "CompleteListing repoID tok es now db =
     (case update_repo (listing_guard repoID tok)
         (\<lambda>r. (clear_lease r)\<lparr>r_status := RepoListed, updated_at := now\<rparr>) db of
        Inl e \<Rightarrow> Inl e
      | Inr db1 \<Rightarrow> Inr (foldl (\<lambda>d e. listing_entry repoID now e d) db1 es))"

definition DeferMeta :: "int \<Rightarrow> LeaseToken \<Rightarrow> time \<Rightarrow> time \<Rightarrow> DB \<Rightarrow> store_error + DB" where
  "DeferMeta repoID tok availableAt now =
     update_repo (listing_guard repoID tok)
       (\<lambda>r. (clear_lease r)\<lparr>r_status := RepoPending, r_available_at := Some availableAt, updated_at := now\<rparr>)"

text \<open>\<^verbatim>\<open>ReleaseMeta\<close> takes a zero \<^verbatim>\<open>time.Time\<close> for "no backoff"; here \<open>None\<close>.\<close>

definition ReleaseMeta ::
  "int \<Rightarrow> LeaseToken \<Rightarrow> time option \<Rightarrow> string option \<Rightarrow> time \<Rightarrow> DB \<Rightarrow> store_error + DB" where
  "ReleaseMeta repoID tok availableAt cause now =
     update_repo (listing_guard repoID tok)
       (\<lambda>r. (clear_lease r)\<lparr>r_status := RepoPending, r_retries := r_retries r + 1,
             r_last_error := cause, r_available_at := availableAt, updated_at := now\<rparr>)"

definition job_open :: "Job \<Rightarrow> bool" where
  "job_open j \<longleftrightarrow> j_status j = JobQueued \<or> j_status j = JobRunning"

definition FailRepo :: "int \<Rightarrow> LeaseToken \<Rightarrow> string option \<Rightarrow> time \<Rightarrow> DB \<Rightarrow> store_error + DB" where
  "FailRepo repoID tok cause now db =
     (case update_repo (listing_guard repoID tok)
         (\<lambda>r. (clear_lease r)\<lparr>r_status := RepoError, r_last_error := cause, updated_at := now\<rparr>) db of
        Inl e \<Rightarrow> Inl e
      | Inr db1 \<Rightarrow>
          Inr (db1\<lparr>jobs := sql_update (\<lambda>j. j_repo_id j = repoID \<and> job_open j)
                 (\<lambda>j. j\<lparr>j_status := JobError, j_last_error := cause, j_updated_at := now\<rparr>) (jobs db1)\<rparr>))"

definition JobProgress :: "int \<Rightarrow> DB \<Rightarrow> nat \<times> nat" where
  "JobProgress jobID db =
     (sql_count (\<lambda>x. jf_job_id x = jobID \<and> jf_status x = JobFileDone) (job_files db),
      sql_count (\<lambda>x. jf_job_id x = jobID) (job_files db))"

definition FileJobFiles :: "int \<Rightarrow> DB \<Rightarrow> JobFile list" where
  "FileJobFiles fileID db = sort_key jf_job_id (filter (\<lambda>x. jf_file_id x = fileID) (job_files db))"

text \<open>A foreign key that has no parent row makes the INSERT fail.\<close>

fun ensure_job_files :: "time \<Rightarrow> int \<Rightarrow> int list \<Rightarrow> DB \<Rightarrow> store_error + DB" where
  "ensure_job_files now jobID [] db = Inr db"
| "ensure_job_files now jobID (fileID # ids) db =
     (if \<not> (\<exists>x \<in> set (job_files db). jf_job_id x = jobID \<and> jf_file_id x = fileID) \<and>
         (\<not> (\<exists>j \<in> set (jobs db). j_id j = jobID) \<or> \<not> (\<exists>f \<in> set (files db). f_id f = fileID))
      then Inl Constraint
      else ensure_job_files now jobID ids
             (db\<lparr>job_files := insert_job_file now jobID fileID (job_files db)\<rparr>))"

definition EnsureJobFiles :: "int \<Rightarrow> int list \<Rightarrow> time \<Rightarrow> DB \<Rightarrow> store_error + DB" where
  "EnsureJobFiles jobID ids now db = (if ids = [] then Inr db else ensure_job_files now jobID ids db)"

fun set_dests :: "time \<Rightarrow> int \<Rightarrow> (int \<times> string) list \<Rightarrow> DB \<Rightarrow> store_error + DB" where
  "set_dests now jobID [] db = Inr db"
| "set_dests now jobID ((fileID, dest) # ds) db =
     (if sql_count (\<lambda>x. jf_job_id x = jobID \<and> jf_file_id x = fileID) (job_files db) \<noteq> 1
      then Inl (OtherErr ''no job_files row'')
      else set_dests now jobID ds
        (db\<lparr>job_files := sql_update (\<lambda>x. jf_job_id x = jobID \<and> jf_file_id x = fileID)
               (\<lambda>x. x\<lparr>jf_dest_path := dest, updated_at := now\<rparr>) (job_files db)\<rparr>))"

definition SetJobFileDests :: "int \<Rightarrow> (int \<times> string) list \<Rightarrow> time \<Rightarrow> DB \<Rightarrow> store_error + DB" where
  "SetJobFileDests jobID dests now db = (if dests = [] then Inr db else set_dests now jobID dests db)"

text \<open>\<^verbatim>\<open>COALESCE(?, last_error)\<close>.\<close>

definition coalesce :: "'a option \<Rightarrow> 'a option \<Rightarrow> 'a option" where
  "coalesce a b = (case a of None \<Rightarrow> b | Some x \<Rightarrow> Some x)"

definition FinishJob :: "int \<Rightarrow> string option \<Rightarrow> time \<Rightarrow> DB \<Rightarrow> store_error + DB" where
  "FinishJob jobID cause now db =
     (if sql_count (\<lambda>j. j_id j = jobID \<and> job_open j) (jobs db) \<noteq> 1
      then Inl (OtherErr ''job not queued/running'')
      else Inr (db\<lparr>
        jobs := sql_update (\<lambda>j. j_id j = jobID \<and> job_open j)
          (\<lambda>j. j\<lparr>j_status := (if cause = None then JobDone else JobError),
                 j_last_error := coalesce cause (j_last_error j), j_updated_at := now\<rparr>) (jobs db),
        job_files := sql_update (\<lambda>x. jf_job_id x = jobID \<and> jf_status x = JobFilePending)
          (\<lambda>x. x\<lparr>jf_status := (if cause = None then JobFileDone else JobFileError),
                 jf_last_error := coalesce cause (jf_last_error x), updated_at := now\<rparr>) (job_files db)\<rparr>))"

definition FailJobFilesForFile :: "int \<Rightarrow> string option \<Rightarrow> time \<Rightarrow> DB \<Rightarrow> DB" where
  "FailJobFilesForFile fileID cause now db =
     (let hit = (\<lambda>x. jf_file_id x = fileID \<and> jf_status x = JobFilePending);
          jobIDs = map jf_job_id (filter hit (job_files db));
          jfs = sql_update hit
            (\<lambda>x. x\<lparr>jf_status := JobFileError, jf_last_error := cause, updated_at := now\<rparr>) (job_files db);
          js = foldl (\<lambda>t i. sql_update (\<lambda>j. j_id j = i \<and> job_open j)
            (\<lambda>j. j\<lparr>j_status := JobError, j_last_error := cause, j_updated_at := now\<rparr>) t) (jobs db) jobIDs
      in db\<lparr>job_files := jfs, jobs := js\<rparr>)"

section \<open>Installing\<close>

definition leaseInstall ::
  "string \<Rightarrow> LeaseToken \<Rightarrow> time \<Rightarrow> string \<Rightarrow> DB \<Rightarrow> store_error + (DB \<times> JobFile \<times> File \<times> Job \<times> Repo)" where
  "leaseInstall owner tok now destMode db =
     (case claimOne (\<lambda>x. (jf_job_id x, jf_file_id x))
         (\<lambda>x. jf_status x = JobFilePending \<and>
              (\<exists>f \<in> set (files db). f_id f = jf_file_id x \<and> f_status f = FileCached) \<and>
              (\<exists>j \<in> set (jobs db). j_id j = jf_job_id x \<and> (destMode = '''' \<or> j_dest_mode j = destMode)))
         (\<lambda>x. jf_status x = JobFilePending)
         (\<lambda>x. (set_lease owner tok (now + leaseDuration) x)\<lparr>jf_status := JobFileInstalling, updated_at := now\<rparr>)
         (job_files db) of
        Inl e \<Rightarrow> Inl e
      | Inr (t, x) \<Rightarrow>
          (case find (\<lambda>f. f_id f = jf_file_id x) (files db) of
             None \<Rightarrow> Inl NoRows
           | Some f \<Rightarrow>
          (case find (\<lambda>j. j_id j = jf_job_id x) (jobs db) of
             None \<Rightarrow> Inl NoRows
           | Some j \<Rightarrow>
          (case find (\<lambda>r. r_id r = j_repo_id j) (repos db) of
             None \<Rightarrow> Inl NoRows
           | Some r \<Rightarrow>
               Inr (db\<lparr>job_files := t,
                       jobs := sql_update (\<lambda>j'. j_id j' = j_id j \<and> j_status j' = JobQueued)
                         (\<lambda>j'. j'\<lparr>j_status := JobRunning, j_updated_at := now\<rparr>) (jobs db)\<rparr>, x, f, j, r)))))"

definition LeaseInstall ::
  "string \<Rightarrow> LeaseToken \<Rightarrow> time \<Rightarrow> DB \<Rightarrow> store_error + (DB \<times> JobFile \<times> File \<times> Job \<times> Repo)" where
  "LeaseInstall owner tok now = leaseInstall owner tok now ''''"

definition LeaseInstallMode ::
  "string \<Rightarrow> LeaseToken \<Rightarrow> time \<Rightarrow> string \<Rightarrow> DB \<Rightarrow> store_error + (DB \<times> JobFile \<times> File \<times> Job \<times> Repo)" where
  "LeaseInstallMode owner tok now destMode = leaseInstall owner tok now destMode"

definition CompleteInstall :: "int \<Rightarrow> int \<Rightarrow> LeaseToken \<Rightarrow> string option \<Rightarrow> time \<Rightarrow> DB \<Rightarrow> store_error + DB" where
  "CompleteInstall jobID fileID tok err now db =
     (let st = (if err = None then JobFileDone else JobFileError);
          g = (\<lambda>x. jf_job_id x = jobID \<and> jf_file_id x = fileID \<and> jf_status x = JobFileInstalling \<and>
                   lease_token x = Some tok)
      in case execGuarded g
           (\<lambda>x. (clear_lease x)\<lparr>jf_status := st, jf_last_error := err, updated_at := now\<rparr>) (job_files db) of
           Inl e \<Rightarrow> Inl e
         | Inr t \<Rightarrow>
             (let db1 = db\<lparr>job_files := t\<rparr>
              in if st = JobFileDone \<and> sql_count (\<lambda>x. jf_job_id x = jobID \<and> jf_status x \<noteq> JobFileDone) t = 0
                 then Inr (db1\<lparr>jobs := sql_update (\<lambda>j. j_id j = jobID \<and> job_open j)
                        (\<lambda>j. j\<lparr>j_status := JobDone, j_updated_at := now\<rparr>) (jobs db1)\<rparr>)
                 else Inr db1))"

section \<open>Files\<close>

definition NextDownloadableFiles :: "nat \<Rightarrow> DB \<Rightarrow> File list" where
  "NextDownloadableFiles limit db =
     take limit (sort_key f_id (filter (\<lambda>f. f_status f = FileQueued \<and>
       (\<exists>r \<in> set (repos db). r_id r = f_repo_id f \<and> r_commit_sha r \<noteq> '''')) (files db)))"

definition update_file :: "(File \<Rightarrow> bool) \<Rightarrow> (File \<Rightarrow> File) \<Rightarrow> DB \<Rightarrow> store_error + DB" where
  "update_file P g db =
     (case execGuarded P g (files db) of Inl e \<Rightarrow> Inl e | Inr t \<Rightarrow> Inr (db\<lparr>files := t\<rparr>))"

definition LeaseFileForDownload :: "string \<Rightarrow> LeaseToken \<Rightarrow> int \<Rightarrow> time \<Rightarrow> DB \<Rightarrow> store_error + DB" where
  "LeaseFileForDownload owner tok fileID now =
     update_file (\<lambda>f. f_id f = fileID \<and> f_status f = FileQueued)
       (\<lambda>f. (set_lease owner tok (now + leaseDuration) f)\<lparr>f_status := FileDownloading, updated_at := now\<rparr>)"

definition tokenlessEdgeAllowed :: "FileStatus \<Rightarrow> FileStatus \<Rightarrow> bool" where
  "tokenlessEdgeAllowed frm to =
     (if frm = FileQueued \<and> to = FileDownloaded then True
      else if frm = FileCached \<and> to = FileQueued then True
      else False)"

text \<open>The ownership guard: \<^verbatim>\<open>lease_token = ?\<close>, or \<^verbatim>\<open>lease_token IS NULL\<close> for the empty token.\<close>

definition file_guard :: "int \<Rightarrow> FileStatus \<Rightarrow> LeaseToken \<Rightarrow> File \<Rightarrow> bool" where
  "file_guard fileID frm tok f \<longleftrightarrow> f_id f = fileID \<and> f_status f = frm \<and>
     (if tok = '''' then lease_token f = None else lease_token f = Some tok)"

definition owned_guard :: "int \<Rightarrow> FileStatus \<Rightarrow> LeaseToken \<Rightarrow> File \<Rightarrow> bool" where
  "owned_guard fileID frm tok f \<longleftrightarrow> f_id f = fileID \<and> f_status f = frm \<and> lease_token f = Some tok"

definition TransitionFile ::
  "int \<Rightarrow> LeaseToken \<Rightarrow> FileStatus \<Rightarrow> FileStatus \<Rightarrow> string option \<Rightarrow> time \<Rightarrow> DB \<Rightarrow> store_error + DB" where
  "TransitionFile fileID tok frm to cause now db =
     (if tok = '''' \<and> \<not> tokenlessEdgeAllowed frm to then Inl ErrTokenlessEdge
      else if \<not> (\<exists>f \<in> set (files db). file_guard fileID frm tok f) then Inl ErrFenced
      else if frm = FileDownloading \<and> to = FileDownloaded \<and>
              0 < sql_count (\<lambda>b. b_file_id b = fileID \<and> b_status b = BlockActive \<and> live now b) (blocks db)
      then Inl ErrLiveBlockLeases
      else if frm = FileDownloading \<and> to = FileDownloaded \<and>
              0 < sql_count (\<lambda>b. b_file_id b = fileID \<and> b_status b \<noteq> BlockDone) (blocks db)
      then Inl ErrBlocksPending
      else update_file (file_guard fileID frm tok)
             (\<lambda>f. (clear_lease f)\<lparr>f_status := to, f_last_error := cause, updated_at := now\<rparr>) db)"

definition FinishDownloaded :: "int \<Rightarrow> LeaseToken \<Rightarrow> time \<Rightarrow> DB \<Rightarrow> store_error + DB" where
  "FinishDownloaded fileID tok now db =
     (if \<not> (\<exists>f \<in> set (files db). owned_guard fileID FileDownloading tok f) then Inl ErrFenced
      else update_file (owned_guard fileID FileDownloading tok)
             (\<lambda>f. (clear_lease f)\<lparr>f_status := FileDownloaded, f_last_error := None, updated_at := now\<rparr>)
             (db\<lparr>blocks := filter (\<lambda>b. \<not> (b_file_id b = fileID \<and> b_status b \<noteq> BlockDone)) (blocks db)\<rparr>))"

definition SaveProgress :: "int \<Rightarrow> LeaseToken \<Rightarrow> byte list option \<Rightarrow> time \<Rightarrow> DB \<Rightarrow> store_error + DB" where
  "SaveProgress fileID tok blob now =
     update_file (\<lambda>f. f_id f = fileID \<and> (f_status f = FileDownloading \<or> f_status f = FileSalvaging) \<and>
                      lease_token f = Some tok)
       (\<lambda>f. f\<lparr>f_progress := blob, f_progress_ver := f_progress_ver f + 1, updated_at := now\<rparr>)"

definition LoadProgress :: "int \<Rightarrow> DB \<Rightarrow> store_error + byte list option" where
  "LoadProgress fileID db =
     (case find (\<lambda>f. f_id f = fileID) (files db) of None \<Rightarrow> Inl NoRows | Some f \<Rightarrow> Inr (f_progress f))"

definition IncrFileRetries :: "int \<Rightarrow> LeaseToken \<Rightarrow> time \<Rightarrow> DB \<Rightarrow> store_error + (DB \<times> int)" where
  "IncrFileRetries fileID tok now db =
     (let g = owned_guard fileID FileDownloading tok
      in case find g (files db) of
           None \<Rightarrow> Inl ErrFenced
         | Some f \<Rightarrow>
             Inr (db\<lparr>files := sql_update g (\<lambda>f. f\<lparr>f_retries := f_retries f + 1, updated_at := now\<rparr>) (files db)\<rparr>,
                  f_retries f + 1))"

definition LeaseVerify :: "string \<Rightarrow> LeaseToken \<Rightarrow> time \<Rightarrow> DB \<Rightarrow> store_error + (DB \<times> File)" where
  "LeaseVerify owner tok now db =
     (case claimOne f_id (\<lambda>f. f_status f = FileDownloaded) (\<lambda>f. f_status f = FileDownloaded)
         (\<lambda>f. (set_lease owner tok (now + leaseDuration) f)\<lparr>f_status := FileVerifying, updated_at := now\<rparr>)
         (files db) of
        Inl e \<Rightarrow> Inl e
      | Inr (t, f) \<Rightarrow> Inr (db\<lparr>files := t\<rparr>, f))"

definition CompleteVerify :: "int \<Rightarrow> LeaseToken \<Rightarrow> string \<Rightarrow> time \<Rightarrow> DB \<Rightarrow> store_error + DB" where
  "CompleteVerify fileID tok cachePath now =
     update_file (owned_guard fileID FileVerifying tok)
       (\<lambda>f. (clear_lease f)\<lparr>f_status := FileCached, f_cache_path := cachePath, updated_at := now\<rparr>)"

definition FailVerify :: "int \<Rightarrow> LeaseToken \<Rightarrow> string option \<Rightarrow> time \<Rightarrow> DB \<Rightarrow> store_error + DB" where
  "FailVerify fileID tok cause now db =
     (let g = owned_guard fileID FileVerifying tok
      in case find g (files db) of
           None \<Rightarrow> Inl ErrFenced
         | Some f \<Rightarrow>
             (let db1 = db\<lparr>files := sql_update g
                    (\<lambda>f. f\<lparr>f_verify_fails := f_verify_fails f + 1, f_last_error := cause, updated_at := now\<rparr>)
                    (files db)\<rparr>
              in if maxVerifyFails \<le> f_verify_fails f + 1
                 then update_file g (\<lambda>f. (clear_lease f)\<lparr>f_status := FileError, updated_at := now\<rparr>) db1
                 else update_file g
                        (\<lambda>f. (clear_lease f)\<lparr>f_status := FileQueued, f_progress := None,
                              f_progress_ver := f_progress_ver f + 1, updated_at := now\<rparr>)
                        (db1\<lparr>blocks := sql_update (\<lambda>b. b_file_id b = fileID)
                           (\<lambda>b. (clear_lease b)\<lparr>b_status := BlockPending, b_upstream := '''',
                                 b_available_at := None, updated_at := now\<rparr>) (blocks db1)\<rparr>)))"

definition SalvageableTargets :: "DB \<Rightarrow> File list" where
  "SalvageableTargets db =
     sort_key f_id (filter (\<lambda>f. f_is_lfs f \<and> f_sha256 f \<noteq> '''' \<and>
       f_status f \<noteq> FileCached \<and> f_status f \<noteq> FileError) (files db))"

definition MarkCachedFromBlob :: "int \<Rightarrow> string \<Rightarrow> time \<Rightarrow> DB \<Rightarrow> store_error + DB" where
  "MarkCachedFromBlob fileID cachePath now =
     update_file (\<lambda>f. f_id f = fileID \<and> f_status f = FileQueued)
       (\<lambda>f. f\<lparr>f_status := FileCached, f_cache_path := cachePath, updated_at := now\<rparr>)"

definition LeaseSalvage :: "string \<Rightarrow> LeaseToken \<Rightarrow> time \<Rightarrow> DB \<Rightarrow> store_error + (DB \<times> File)" where
  "LeaseSalvage owner tok now db =
     (case claimOne f_id (\<lambda>f. f_status f = FileSalvaging \<and> (lease_until f = None \<or> expired now f))
         (\<lambda>f. f_status f = FileSalvaging)
         (\<lambda>f. (set_lease owner tok (now + leaseDuration) f)\<lparr>updated_at := now\<rparr>) (files db) of
        Inl e \<Rightarrow> Inl e
      | Inr (t, f) \<Rightarrow> Inr (db\<lparr>files := t\<rparr>, f))"

definition MarkSalvaging :: "int \<Rightarrow> time \<Rightarrow> DB \<Rightarrow> store_error + DB" where
  "MarkSalvaging fileID now =
     update_file (\<lambda>f. f_id f = fileID \<and> (f_status f = FileDiscovered \<or> f_status f = FileQueued))
       (\<lambda>f. f\<lparr>f_status := FileSalvaging, updated_at := now\<rparr>)"

section \<open>Blocks\<close>

definition new_block :: "int \<Rightarrow> time \<Rightarrow> int \<Rightarrow> int \<times> int \<times> int \<Rightarrow> Block" where
  "new_block i now fileID b = (case b of (idx, off, len) \<Rightarrow>
     \<lparr>lease_owner = None, lease_token = None, lease_until = None, updated_at = now,
      b_id = i, b_file_id = fileID, b_idx = idx, b_offset = off, b_length = len,
      b_status = BlockPending, b_upstream = '''', b_retries = 0, b_last_error = None,
      b_available_at = None\<rparr>)"

text \<open>The INSERT loop: \<open>UNIQUE (file_id, idx)\<close> rejects an index that a surviving row has.\<close>

fun insert_blocks :: "time \<Rightarrow> int \<Rightarrow> (int \<times> int \<times> int) list \<Rightarrow> Block list \<Rightarrow> store_error + Block list" where
  "insert_blocks now fileID [] t = Inr t"
| "insert_blocks now fileID ((idx, off, len) # bs) t =
     (if \<exists>b \<in> set t. b_file_id b = fileID \<and> b_idx b = idx then Inl Constraint
      else insert_blocks now fileID bs (t @ [new_block (next_id (map b_id t)) now fileID (idx, off, len)]))"

definition ReplacePendingBlocks ::
  "int \<Rightarrow> LeaseToken \<Rightarrow> (int \<times> int \<times> int) list \<Rightarrow> time \<Rightarrow> DB \<Rightarrow> store_error + DB" where
  "ReplacePendingBlocks fileID tok bs now db =
     (if \<not> (\<exists>f \<in> set (files db). owned_guard fileID FileDownloading tok f) then Inl ErrFenced
      else case insert_blocks now fileID bs
             (filter (\<lambda>b. \<not> (b_file_id b = fileID \<and> b_status b = BlockPending)) (blocks db)) of
             Inl e \<Rightarrow> Inl e
           | Inr t \<Rightarrow> Inr (db\<lparr>blocks := t\<rparr>))"

record BlockFilter =
  FileIDs :: "int list"
  MaxPerFile :: "int \<Rightarrow> int option"

definition file_downloading :: "DB \<Rightarrow> int \<Rightarrow> bool" where
  "file_downloading db fileID \<longleftrightarrow> (\<exists>f \<in> set (files db). f_id f = fileID \<and> f_status f = FileDownloading)"

definition lease_candidates :: "BlockFilter \<Rightarrow> time \<Rightarrow> DB \<Rightarrow> (int \<times> int) list" where
  "lease_candidates flt now db =
     map (\<lambda>b. (b_id b, b_file_id b))
       (sort_key (\<lambda>b. (b_file_id b, b_idx b))
         (filter (\<lambda>b. b_status b = BlockPending \<and>
             (case b_available_at b of None \<Rightarrow> True | Some a \<Rightarrow> a \<le> now) \<and>
             file_downloading db (b_file_id b) \<and>
             (FileIDs flt = [] \<or> b_file_id b \<in> set (FileIDs flt))) (blocks db)))"

text \<open>One claim statement of the loop: \<open>None\<close> when a racer took the row.\<close>

definition claim_block :: "string \<Rightarrow> LeaseToken \<Rightarrow> time \<Rightarrow> int \<Rightarrow> DB \<Rightarrow> (DB \<times> Block) option" where
  "claim_block owner tok now i db =
     (let P = (\<lambda>b. b_id b = i \<and> b_status b = BlockPending \<and> file_downloading db (b_file_id b));
          g = (\<lambda>b. (set_lease owner tok (now + leaseDuration) b)\<lparr>b_status := BlockActive, updated_at := now\<rparr>)
      in case find P (blocks db) of
           None \<Rightarrow> None
         | Some b \<Rightarrow> Some (db\<lparr>blocks := sql_update P g (blocks db)\<rparr>, g b))"

text \<open>
  The claim loop runs outside a transaction: \<open>race k\<close> is what other writers do to the database
  before the claim statement of candidate \<open>k\<close>, \<open>toks k\<close> the token drawn for it.
\<close>

fun lease_loop ::
  "string \<Rightarrow> (nat \<Rightarrow> LeaseToken) \<Rightarrow> (nat \<Rightarrow> DB \<Rightarrow> DB) \<Rightarrow> time \<Rightarrow> (int \<Rightarrow> int option) \<Rightarrow> nat \<Rightarrow> nat
     \<Rightarrow> (int \<times> int) list \<Rightarrow> (int \<Rightarrow> nat) \<Rightarrow> (Block \<times> LeaseToken) list \<Rightarrow> DB
     \<Rightarrow> DB \<times> (Block \<times> LeaseToken) list" where
  "lease_loop owner toks race now cap n k [] perFile leased db = (db, leased)"
| "lease_loop owner toks race now cap n k ((i, fid) # cs) perFile leased db =
     (if n \<le> length leased then (db, leased)
      else if (case cap fid of None \<Rightarrow> False | Some c \<Rightarrow> 0 < c \<and> c \<le> int (perFile fid))
      then lease_loop owner toks race now cap n (k + 1) cs perFile leased db
      else case claim_block owner (toks k) now i (race k db) of
             None \<Rightarrow> lease_loop owner toks race now cap n (k + 1) cs perFile leased (race k db)
           | Some (db', b) \<Rightarrow>
               lease_loop owner toks race now cap n (k + 1) cs
                 (perFile(fid := perFile fid + 1)) (leased @ [(b, toks k)]) db')"

definition LeaseBlocks ::
  "string \<Rightarrow> (nat \<Rightarrow> LeaseToken) \<Rightarrow> (nat \<Rightarrow> DB \<Rightarrow> DB) \<Rightarrow> int \<Rightarrow> BlockFilter \<Rightarrow> time \<Rightarrow> DB
     \<Rightarrow> DB \<times> (Block \<times> LeaseToken) list" where
  "LeaseBlocks owner toks race n flt now db =
     (if n \<le> 0 then (db, [])
      else lease_loop owner toks race now (MaxPerFile flt) (nat n) 0 (lease_candidates flt now db)
             (\<lambda>_. 0) [] db)"

definition block_guard :: "int \<Rightarrow> LeaseToken \<Rightarrow> Block \<Rightarrow> bool" where
  "block_guard blockID tok b \<longleftrightarrow> b_id b = blockID \<and> b_status b = BlockActive \<and> lease_token b = Some tok"

definition RequeueBlock ::
  "int \<Rightarrow> LeaseToken \<Rightarrow> time \<Rightarrow> string option \<Rightarrow> time \<Rightarrow> DB \<Rightarrow> store_error + (DB \<times> int)" where
  "RequeueBlock blockID tok availableAt cause now db =
     (case find (block_guard blockID tok) (blocks db) of
        None \<Rightarrow> Inl ErrFenced
      | Some b \<Rightarrow>
          Inr (db\<lparr>blocks := sql_update (block_guard blockID tok)
                 (\<lambda>b. (clear_lease b)\<lparr>b_status := BlockPending, b_available_at := Some availableAt,
                       b_retries := b_retries b + 1, b_last_error := cause, updated_at := now\<rparr>) (blocks db)\<rparr>,
               b_retries b + 1))"

definition CompleteBlock :: "int \<Rightarrow> LeaseToken \<Rightarrow> time \<Rightarrow> DB \<Rightarrow> store_error + (DB \<times> bool)" where
  "CompleteBlock blockID tok now db =
     (case execGuarded (block_guard blockID tok)
         (\<lambda>b. (clear_lease b)\<lparr>b_status := BlockDone, updated_at := now\<rparr>) (blocks db) of
        Inl e \<Rightarrow> Inl e
      | Inr t \<Rightarrow>
          (case find (\<lambda>b. b_id b = blockID) t of
             None \<Rightarrow> Inr (db\<lparr>blocks := t\<rparr>, True)
           | Some b \<Rightarrow>
               Inr (db\<lparr>blocks := t\<rparr>,
                    sql_count (\<lambda>x. b_file_id x = b_file_id b \<and> b_status x \<noteq> BlockDone) t = 0)))"

section \<open>References\<close>

record RefStat =
  s_path :: string
  s_size :: int
  s_mtime_ns :: int
  s_dev :: int
  s_ino :: int

definition add_reference :: "time \<Rightarrow> RefStat \<Rightarrow> ReferenceFile list \<Rightarrow> ReferenceFile list" where
  "add_reference now s t =
     (if \<exists>x \<in> set t. rf_path x = s_path s
      then sql_update (\<lambda>x. rf_path x = s_path s)
             (\<lambda>x. x\<lparr>rf_size := s_size s, rf_mtime_ns := s_mtime_ns s, rf_dev := s_dev s,
                    rf_ino := s_ino s, updated_at := now\<rparr>) t
      else t @ [\<lparr>lease_owner = None, lease_token = None, lease_until = None, updated_at = now,
                 rf_id = next_id (map rf_id t), rf_path = s_path s, rf_size = s_size s,
                 rf_mtime_ns = s_mtime_ns s, rf_dev = s_dev s, rf_ino = s_ino s,
                 rf_status = RefPending, rf_sha256 = '''', rf_last_error = None\<rparr>])"

definition AddReferenceFiles :: "RefStat list \<Rightarrow> time \<Rightarrow> DB \<Rightarrow> DB" where
  "AddReferenceFiles refs now db =
     db\<lparr>reference_files := foldl (\<lambda>t s. add_reference now s t) (reference_files db) refs\<rparr>"

definition update_reference :: "(ReferenceFile \<Rightarrow> bool) \<Rightarrow> (ReferenceFile \<Rightarrow> ReferenceFile) \<Rightarrow> DB \<Rightarrow> store_error + DB" where
  "update_reference P g db =
     (case execGuarded P g (reference_files db) of
        Inl e \<Rightarrow> Inl e | Inr t \<Rightarrow> Inr (db\<lparr>reference_files := t\<rparr>))"

definition InvalidateReference :: "int \<Rightarrow> time \<Rightarrow> DB \<Rightarrow> store_error + DB" where
  "InvalidateReference i now =
     update_reference (\<lambda>x. rf_id x = i)
       (\<lambda>x. (clear_lease x)\<lparr>rf_status := RefPending, rf_sha256 := '''', rf_last_error := None, updated_at := now\<rparr>)"

definition LeaseReferenceHash :: "string \<Rightarrow> LeaseToken \<Rightarrow> time \<Rightarrow> DB \<Rightarrow> store_error + (DB \<times> ReferenceFile)" where
  "LeaseReferenceHash owner tok now db =
     (case claimOne rf_id
         (\<lambda>x. rf_status x = RefPending \<and>
              (\<exists>f \<in> set (files db). f_size f = rf_size x \<and>
                 (f_status f = FileQueued \<or> f_status f = FileDownloading \<or> f_status f = FileSalvaging)))
         (\<lambda>x. rf_status x = RefPending)
         (\<lambda>x. (set_lease owner tok (now + leaseDuration) x)\<lparr>rf_status := RefHashing, updated_at := now\<rparr>)
         (reference_files db) of
        Inl e \<Rightarrow> Inl e
      | Inr (t, x) \<Rightarrow> Inr (db\<lparr>reference_files := t\<rparr>, x))"

definition CompleteReferenceHash ::
  "int \<Rightarrow> LeaseToken \<Rightarrow> string \<Rightarrow> string option \<Rightarrow> time \<Rightarrow> DB \<Rightarrow> store_error + DB" where
  "CompleteReferenceHash i tok sha cause now =
     update_reference (\<lambda>x. rf_id x = i \<and> rf_status x = RefHashing \<and> lease_token x = Some tok)
       (\<lambda>x. (clear_lease x)\<lparr>rf_status := (if cause = None then RefHashed else RefError),
             rf_sha256 := sha, rf_last_error := cause, updated_at := now\<rparr>)"

section \<open>Heartbeats and recovery\<close>

datatype LeaseKind = LeaseRepo | LeaseFile | LeaseBlock | LeaseReference

definition renew_guard :: "int \<Rightarrow> LeaseToken \<Rightarrow> time \<Rightarrow> ('r lease_cols_scheme \<Rightarrow> int) \<Rightarrow> 'r lease_cols_scheme \<Rightarrow> bool" where
  "renew_guard i tok now k r \<longleftrightarrow> k r = i \<and> lease_token r = Some tok \<and> live now r"

definition renew_set :: "time \<Rightarrow> time \<Rightarrow> 'r lease_cols_scheme \<Rightarrow> 'r lease_cols_scheme" where
  "renew_set until now r = r\<lparr>lease_until := Some until, updated_at := now\<rparr>"

fun RenewLease :: "LeaseKind \<Rightarrow> int \<Rightarrow> LeaseToken \<Rightarrow> time \<Rightarrow> time \<Rightarrow> DB \<Rightarrow> store_error + DB" where
  "RenewLease LeaseRepo i tok until now db =
     update_repo (\<lambda>r. renew_guard i tok now r_id r \<and> r_status r = RepoListing) (renew_set until now) db"
| "RenewLease LeaseFile i tok until now db =
     update_file (\<lambda>f. renew_guard i tok now f_id f \<and>
         (f_status f = FileDownloading \<or> f_status f = FileSalvaging \<or> f_status f = FileVerifying))
       (renew_set until now) db"
| "RenewLease LeaseBlock i tok until now db =
     (case execGuarded (\<lambda>b. renew_guard i tok now b_id b \<and> b_status b = BlockActive)
         (renew_set until now) (blocks db) of
        Inl e \<Rightarrow> Inl e | Inr t \<Rightarrow> Inr (db\<lparr>blocks := t\<rparr>))"
| "RenewLease LeaseReference i tok until now db =
     update_reference (\<lambda>x. renew_guard i tok now rf_id x \<and> rf_status x = RefHashing) (renew_set until now) db"

record RecoveryStats =
  Repos :: nat
  Files :: nat
  Verifying :: nat
  Salvaging :: nat
  Blocks :: nat
  JobFiles :: nat
  References :: nat

text \<open>The seven statements of \<^verbatim>\<open>Recover\<close>, in their order; each returns the rows it hit.\<close>

definition recover_blocks :: "time \<Rightarrow> DB \<Rightarrow> DB \<times> nat" where
  "recover_blocks now db =
     (let P = (\<lambda>b. b_status b = BlockActive \<and>
           (expired now b \<or>
            (\<exists>f \<in> set (files db). f_id f = b_file_id b \<and> f_status f = FileDownloading \<and> expired now f)))
      in (db\<lparr>blocks := sql_update P
             (\<lambda>b. (clear_lease b)\<lparr>b_status := BlockPending, b_available_at := None, updated_at := now\<rparr>)
             (blocks db)\<rparr>, sql_count P (blocks db)))"

definition recover_repos :: "time \<Rightarrow> DB \<Rightarrow> DB \<times> nat" where
  "recover_repos now db =
     (let P = (\<lambda>r. r_status r = RepoListing \<and> expired now r)
      in (db\<lparr>repos := sql_update P (\<lambda>r. (clear_lease r)\<lparr>r_status := RepoPending, updated_at := now\<rparr>) (repos db)\<rparr>,
          sql_count P (repos db)))"

definition recover_files :: "FileStatus \<Rightarrow> FileStatus \<Rightarrow> time \<Rightarrow> DB \<Rightarrow> DB \<times> nat" where
  "recover_files frm to now db =
     (let P = (\<lambda>f. f_status f = frm \<and> expired now f)
      in (db\<lparr>files := sql_update P (\<lambda>f. (clear_lease f)\<lparr>f_status := to, updated_at := now\<rparr>) (files db)\<rparr>,
          sql_count P (files db)))"

definition recover_job_files :: "time \<Rightarrow> DB \<Rightarrow> DB \<times> nat" where
  "recover_job_files now db =
     (let P = (\<lambda>x. jf_status x = JobFileInstalling \<and> expired now x)
      in (db\<lparr>job_files := sql_update P (\<lambda>x. (clear_lease x)\<lparr>jf_status := JobFilePending, updated_at := now\<rparr>)
             (job_files db)\<rparr>, sql_count P (job_files db)))"

definition recover_references :: "time \<Rightarrow> DB \<Rightarrow> DB \<times> nat" where
  "recover_references now db =
     (let P = (\<lambda>x. rf_status x = RefHashing \<and> expired now x)
      in (db\<lparr>reference_files := sql_update P (\<lambda>x. (clear_lease x)\<lparr>rf_status := RefPending, updated_at := now\<rparr>)
             (reference_files db)\<rparr>, sql_count P (reference_files db)))"

definition Recover :: "time \<Rightarrow> DB \<Rightarrow> DB \<times> RecoveryStats" where
  "Recover now db =
     (let (db, nb) = recover_blocks now db;
          (db, nr) = recover_repos now db;
          (db, nf) = recover_files FileDownloading FileQueued now db;
          (db, nv) = recover_files FileVerifying FileDownloaded now db;
          (db, ns) = recover_files FileSalvaging FileQueued now db;
          (db, nj) = recover_job_files now db;
          (db, nx) = recover_references now db
      in (db, \<lparr>Repos = nr, Files = nf, Verifying = nv, Salvaging = ns, Blocks = nb,
               JobFiles = nj, References = nx\<rparr>))"

section \<open>Gates, upstreams, keys, counts\<close>

definition SetCooldown :: "string \<Rightarrow> string \<Rightarrow> time \<Rightarrow> string \<Rightarrow> DB \<Rightarrow> DB" where
  "SetCooldown ep kind until reason db =
     db\<lparr>endpoint_cooldowns :=
       (if \<exists>c \<in> set (endpoint_cooldowns db). ec_endpoint c = ep \<and> ec_kind c = kind
        then sql_update (\<lambda>c. ec_endpoint c = ep \<and> ec_kind c = kind)
               (\<lambda>c. c\<lparr>ec_until := until, ec_reason := reason\<rparr>) (endpoint_cooldowns db)
        else endpoint_cooldowns db @
               [\<lparr>ec_endpoint = ep, ec_kind = kind, ec_until = until, ec_reason = reason\<rparr>])\<rparr>"

text \<open>\<^verbatim>\<open>CooldownUntil\<close> returns the zero time when there is no gate; here \<open>None\<close>.\<close>

definition CooldownUntil :: "string \<Rightarrow> string \<Rightarrow> DB \<Rightarrow> time option" where
  "CooldownUntil ep kind db =
     map_option ec_until (find (\<lambda>c. ec_endpoint c = ep \<and> ec_kind c = kind) (endpoint_cooldowns db))"

definition new_upstream :: "int \<Rightarrow> string \<Rightarrow> time \<Rightarrow> Upstream" where
  "new_upstream i ep now = \<lparr>u_id = i, u_endpoint = ep, u_cooldown_until = None, u_ema_bps = 0,
     u_errors = 0, u_successes = 0, u_blacklist_until = None, u_updated_at = now\<rparr>"

definition UpsertUpstream :: "string \<Rightarrow> time \<Rightarrow> DB \<Rightarrow> DB" where
  "UpsertUpstream ep now db =
     db\<lparr>upstreams :=
       (if \<exists>u \<in> set (upstreams db). u_endpoint u = ep
        then sql_update (\<lambda>u. u_endpoint u = ep) (\<lambda>u. u\<lparr>u_updated_at := now\<rparr>) (upstreams db)
        else upstreams db @ [new_upstream (next_id (map u_id (upstreams db))) ep now])\<rparr>"

definition UpdateUpstream ::
  "string \<Rightarrow> real \<Rightarrow> bool \<Rightarrow> time option \<Rightarrow> time option \<Rightarrow> time \<Rightarrow> DB \<Rightarrow> DB" where
  "UpdateUpstream ep ema ok cooldown blacklist now db =
     (let succ = (if ok then 1 else 0); errs = (if ok then 0 else 1)
      in db\<lparr>upstreams :=
       (if \<exists>u \<in> set (upstreams db). u_endpoint u = ep
        then sql_update (\<lambda>u. u_endpoint u = ep)
               (\<lambda>u. u\<lparr>u_ema_bps := ema, u_successes := u_successes u + succ, u_errors := u_errors u + errs,
                      u_cooldown_until := coalesce cooldown (u_cooldown_until u),
                      u_blacklist_until := coalesce blacklist (u_blacklist_until u),
                      u_updated_at := now\<rparr>) (upstreams db)
        else upstreams db @
               [(new_upstream (next_id (map u_id (upstreams db))) ep now)
                  \<lparr>u_ema_bps := ema, u_successes := succ, u_errors := errs,
                   u_cooldown_until := cooldown, u_blacklist_until := blacklist\<rparr>])\<rparr>)"

definition UpstreamState :: "DB \<Rightarrow> Upstream list" where
  "UpstreamState db = sort_key (map (of_char :: char \<Rightarrow> nat) \<circ> u_endpoint) (upstreams db)"

definition GetKV :: "string \<Rightarrow> DB \<Rightarrow> string" where
  "GetKV key db = (case map_of (kv db) key of None \<Rightarrow> '''' | Some v \<Rightarrow> v)"

definition SetKV :: "string \<Rightarrow> string \<Rightarrow> DB \<Rightarrow> DB" where
  "SetKV key val db = db\<lparr>kv := (if key \<in> fst ` set (kv db)
     then sql_update (\<lambda>e. fst e = key) (\<lambda>e. (fst e, val)) (kv db) else kv db @ [(key, val)])\<rparr>"

definition group_count :: "('r \<Rightarrow> 's) \<Rightarrow> 'r list \<Rightarrow> ('s \<times> nat) list" where
  "group_count f t = map (\<lambda>s. (s, sql_count (\<lambda>r. f r = s) t)) (remdups (map f t))"

end
