(* ===== verification/Store_Inv.thy ===== *)
theory Store_Inv
  imports Store_Ops
begin

text \<open>
  The state machine of the store: one step per operation that commits, the invariant of the
  reachable databases (lease columns agree with the status, keys are unique, the verify budget
  is bounded), the set of (row, token) pairs that can still write, and the rows that never
  change again.
\<close>

section \<open>The invariant\<close>

definition cols_ok :: "'a lease_cols_scheme \<Rightarrow> bool" where
  "cols_ok r \<longleftrightarrow> (lease_token r = None \<longleftrightarrow> lease_until r = None) \<and>
     (lease_owner r = None \<longleftrightarrow> lease_token r = None)"

definition repo_ok :: "Repo \<Rightarrow> bool" where
  "repo_ok r \<longleftrightarrow> cols_ok r \<and> (r_status r = RepoListing \<longleftrightarrow> lease_token r \<noteq> None)"

definition file_ok :: "File \<Rightarrow> bool" where
  "file_ok f \<longleftrightarrow> cols_ok f \<and>
     (f_status f = FileDownloading \<or> f_status f = FileVerifying \<longrightarrow> lease_token f \<noteq> None) \<and>
     (lease_token f \<noteq> None \<longrightarrow>
        f_status f = FileDownloading \<or> f_status f = FileVerifying \<or> f_status f = FileSalvaging) \<and>
     0 \<le> f_verify_fails f \<and>
     (f_verify_fails f < maxVerifyFails \<or> f_verify_fails f = maxVerifyFails \<and> f_status f = FileError)"

definition job_file_ok :: "JobFile \<Rightarrow> bool" where
  "job_file_ok x \<longleftrightarrow> cols_ok x \<and> (jf_status x = JobFileInstalling \<longleftrightarrow> lease_token x \<noteq> None)"

definition block_ok :: "Block \<Rightarrow> bool" where
  "block_ok b \<longleftrightarrow> cols_ok b \<and> (b_status b = BlockActive \<longleftrightarrow> lease_token b \<noteq> None)"

definition reference_ok :: "ReferenceFile \<Rightarrow> bool" where
  "reference_ok x \<longleftrightarrow> cols_ok x \<and> (rf_status x = RefHashing \<longleftrightarrow> lease_token x \<noteq> None)"

definition table_ok :: "('r \<Rightarrow> bool) \<Rightarrow> ('r \<Rightarrow> 'k) \<Rightarrow> ('r \<Rightarrow> 'l) \<Rightarrow> 'r list \<Rightarrow> bool" where
  "table_ok ok k l t \<longleftrightarrow> (\<forall>r \<in> set t. ok r) \<and> distinct (map k t) \<and> distinct (map l t)"

definition jf_key :: "JobFile \<Rightarrow> int \<times> int" where
  "jf_key x = (jf_job_id x, jf_file_id x)"

definition file_key :: "File \<Rightarrow> int \<times> string" where
  "file_key f = (f_repo_id f, f_path f)"

definition block_key :: "Block \<Rightarrow> int \<times> int" where
  "block_key b = (b_file_id b, b_idx b)"

abbreviation repos_ok :: "Repo list \<Rightarrow> bool" where
  "repos_ok \<equiv> table_ok repo_ok r_id repo_key"

abbreviation files_ok :: "File list \<Rightarrow> bool" where
  "files_ok \<equiv> table_ok file_ok f_id file_key"

abbreviation jobs_ok :: "Job list \<Rightarrow> bool" where
  "jobs_ok \<equiv> table_ok (\<lambda>_. True) j_id j_id"

abbreviation job_files_ok :: "JobFile list \<Rightarrow> bool" where
  "job_files_ok \<equiv> table_ok job_file_ok jf_key jf_key"

abbreviation blocks_ok :: "Block list \<Rightarrow> bool" where
  "blocks_ok \<equiv> table_ok block_ok b_id block_key"

abbreviation references_ok :: "ReferenceFile list \<Rightarrow> bool" where
  "references_ok \<equiv> table_ok reference_ok rf_id rf_path"

definition store_ok :: "DB \<Rightarrow> bool" where
  "store_ok db \<longleftrightarrow> repos_ok (repos db) \<and> jobs_ok (jobs db) \<and> files_ok (files db) \<and>
     job_files_ok (job_files db) \<and> blocks_ok (blocks db) \<and> references_ok (reference_files db)"

lemmas row_ok_defs = repo_ok_def file_ok_def job_file_ok_def block_ok_def reference_ok_def cols_ok_def
lemmas key_defs = repo_key_def file_key_def jf_key_def block_key_def
lemmas lease_defs = clear_lease_def set_lease_def renew_set_def

section \<open>Steps\<close>

text \<open>
  The edges the scheduler drives through \<^verbatim>\<open>TransitionFile\<close> (\<^verbatim>\<open>leaser.go\<close>, \<^verbatim>\<open>download.go\<close>,
  \<^verbatim>\<open>disk.go\<close>, \<^verbatim>\<open>offline.go\<close>, \<^verbatim>\<open>submit.go\<close>).
\<close>

definition driven_edge :: "FileStatus \<Rightarrow> FileStatus \<Rightarrow> bool" where
  "driven_edge frm to \<longleftrightarrow>
     (frm, to) \<in> {(FileDownloading, FileDownloaded), (FileDownloading, FileError),
       (FileDownloading, FileSalvaging), (FileDownloading, FileQueued), (FileSalvaging, FileQueued),
       (FileSalvaging, FileDownloaded), (FileVerifying, FileDownloaded),
       (FileQueued, FileDownloaded), (FileCached, FileQueued)}"

text \<open>
  A state is the database with the tokens drawn so far; a claim draws a token that was never
  drawn before.
\<close>

type_synonym store_state = "DB \<times> LeaseToken set"

inductive store_step :: "store_state \<Rightarrow> store_state \<Rightarrow> bool" where
  enqueue: "EnqueueJob q now db = Inr (db', j) \<Longrightarrow> store_step (db, u) (db', u)"
| lease_meta: "LeaseMeta ow tok now db = Inr (db', r) \<Longrightarrow> tok \<notin> u \<Longrightarrow> store_step (db, u) (db', insert tok u)"
| set_commit: "SetCommitSHA i tok sha now db = Inr db' \<Longrightarrow> store_step (db, u) (db', u)"
| complete_listing: "CompleteListing i tok es now db = Inr db' \<Longrightarrow> store_step (db, u) (db', u)"
| defer_meta: "DeferMeta i tok av now db = Inr db' \<Longrightarrow> store_step (db, u) (db', u)"
| release_meta: "ReleaseMeta i tok ato c now db = Inr db' \<Longrightarrow> store_step (db, u) (db', u)"
| fail_repo: "FailRepo i tok c now db = Inr db' \<Longrightarrow> store_step (db, u) (db', u)"
| ensure_job_files: "EnsureJobFiles i ids now db = Inr db' \<Longrightarrow> store_step (db, u) (db', u)"
| set_dests: "SetJobFileDests i ds now db = Inr db' \<Longrightarrow> store_step (db, u) (db', u)"
| finish_job: "FinishJob i c now db = Inr db' \<Longrightarrow> store_step (db, u) (db', u)"
| fail_job_files: "store_step (db, u) (FailJobFilesForFile i c now db, u)"
| lease_install: "leaseInstall ow tok now mode db = Inr (db', x) \<Longrightarrow> tok \<notin> u \<Longrightarrow>
    store_step (db, u) (db', insert tok u)"
| complete_install: "CompleteInstall i k tok c now db = Inr db' \<Longrightarrow> store_step (db, u) (db', u)"
| lease_file: "LeaseFileForDownload ow tok i now db = Inr db' \<Longrightarrow> tok \<notin> u \<Longrightarrow>
    store_step (db, u) (db', insert tok u)"
| transition: "TransitionFile i tok frm to c now db = Inr db' \<Longrightarrow> driven_edge frm to \<Longrightarrow>
    store_step (db, u) (db', u)"
| finish_downloaded: "FinishDownloaded i tok now db = Inr db' \<Longrightarrow> store_step (db, u) (db', u)"
| save_progress: "SaveProgress i tok blob now db = Inr db' \<Longrightarrow> store_step (db, u) (db', u)"
| incr_retries: "IncrFileRetries i tok now db = Inr (db', n) \<Longrightarrow> store_step (db, u) (db', u)"
| lease_verify: "LeaseVerify ow tok now db = Inr (db', f) \<Longrightarrow> tok \<notin> u \<Longrightarrow> store_step (db, u) (db', insert tok u)"
| complete_verify: "CompleteVerify i tok path now db = Inr db' \<Longrightarrow> store_step (db, u) (db', u)"
| fail_verify: "FailVerify i tok c now db = Inr db' \<Longrightarrow> store_step (db, u) (db', u)"
| mark_cached: "MarkCachedFromBlob i path now db = Inr db' \<Longrightarrow> store_step (db, u) (db', u)"
| lease_salvage: "LeaseSalvage ow tok now db = Inr (db', f) \<Longrightarrow> tok \<notin> u \<Longrightarrow> store_step (db, u) (db', insert tok u)"
| mark_salvaging: "MarkSalvaging i now db = Inr db' \<Longrightarrow> store_step (db, u) (db', u)"
| replace_blocks: "ReplacePendingBlocks i tok bs now db = Inr db' \<Longrightarrow> store_step (db, u) (db', u)"
| claim_block: "claim_block ow tok now i db = Some (db', b) \<Longrightarrow> tok \<notin> u \<Longrightarrow> store_step (db, u) (db', insert tok u)"
| requeue_block: "RequeueBlock i tok av c now db = Inr (db', n) \<Longrightarrow> store_step (db, u) (db', u)"
| complete_block: "CompleteBlock i tok now db = Inr (db', d) \<Longrightarrow> store_step (db, u) (db', u)"
| add_references: "store_step (db, u) (AddReferenceFiles refs now db, u)"
| invalidate_reference: "InvalidateReference i now db = Inr db' \<Longrightarrow> store_step (db, u) (db', u)"
| lease_reference: "LeaseReferenceHash ow tok now db = Inr (db', x) \<Longrightarrow> tok \<notin> u \<Longrightarrow>
    store_step (db, u) (db', insert tok u)"
| complete_reference: "CompleteReferenceHash i tok sha c now db = Inr db' \<Longrightarrow> store_step (db, u) (db', u)"
| renew: "RenewLease kind i tok till now db = Inr db' \<Longrightarrow> store_step (db, u) (db', u)"
| recover: "Recover now db = (db', st) \<Longrightarrow> store_step (db, u) (db', u)"

section \<open>Tables under the statements\<close>

lemma table_ok_update:
  assumes "table_ok ok k l t"
    and "\<And>r. P r \<Longrightarrow> ok r \<Longrightarrow> ok (g r)" "\<And>r. P r \<Longrightarrow> k (g r) = k r" "\<And>r. P r \<Longrightarrow> l (g r) = l r"
  shows "table_ok ok k l (sql_update P g t)"
  using assms map_sql_update [of P k g t] map_sql_update [of P l g t]
  by (auto simp: table_ok_def in_sql_update)

lemma table_ok_filter: "table_ok ok k l t \<Longrightarrow> table_ok ok k l (filter P t)"
  by (auto simp: table_ok_def distinct_map inj_on_def)

lemma table_ok_snoc:
  "table_ok ok k l (t @ [r]) \<longleftrightarrow> table_ok ok k l t \<and> ok r \<and> k r \<notin> k ` set t \<and> l r \<notin> l ` set t"
  by (auto simp: table_ok_def)

lemma next_id_notin: "next_id (map k t) \<notin> k ` set t"
  using next_id_fresh [of _ "map k t"] by force

lemma table_okD: "table_ok ok k l t \<Longrightarrow> r \<in> set t \<Longrightarrow> ok r"
  by (simp add: table_ok_def)

lemma table_ok_unique: "table_ok ok k l t \<Longrightarrow> r \<in> set t \<Longrightarrow> r' \<in> set t \<Longrightarrow> k r = k r' \<Longrightarrow> r = r'"
  by (auto simp: table_ok_def distinct_map dest: inj_onD)

lemma update_repo_Inr:
  "update_repo P g db = Inr db' \<longleftrightarrow>
     sql_count P (repos db) = 1 \<and> db' = db\<lparr>repos := sql_update P g (repos db)\<rparr>"
  by (auto simp: update_repo_def execGuarded_def)

lemma update_file_Inr:
  "update_file P g db = Inr db' \<longleftrightarrow>
     sql_count P (files db) = 1 \<and> db' = db\<lparr>files := sql_update P g (files db)\<rparr>"
  by (auto simp: update_file_def execGuarded_def)

lemma update_reference_Inr:
  "update_reference P g db = Inr db' \<longleftrightarrow>
     sql_count P (reference_files db) = 1 \<and> db' = db\<lparr>reference_files := sql_update P g (reference_files db)\<rparr>"
  by (auto simp: update_reference_def execGuarded_def)

lemmas update_Inr = update_repo_Inr update_file_Inr update_reference_Inr execGuarded_Inr claimOne_Inr

lemma store_okD:
  assumes "store_ok db"
  shows "repos_ok (repos db)" "jobs_ok (jobs db)" "files_ok (files db)" "job_files_ok (job_files db)"
    "blocks_ok (blocks db)" "references_ok (reference_files db)"
  using assms by (simp_all add: store_ok_def)

lemma store_okI:
  "repos_ok (repos db) \<Longrightarrow> jobs_ok (jobs db) \<Longrightarrow> files_ok (files db) \<Longrightarrow> job_files_ok (job_files db) \<Longrightarrow>
   blocks_ok (blocks db) \<Longrightarrow> references_ok (reference_files db) \<Longrightarrow> store_ok db"
  by (simp add: store_ok_def)

section \<open>Every operation keeps the invariant\<close>

declare not_None_eq [simp del]

lemma repos_ok_EnqueueJob:
  "repos_ok (repos db) \<Longrightarrow> \<not> (\<exists>r \<in> set (repos db). repo_key r = key) \<Longrightarrow>
   repos_ok (repos db @ [new_repo (next_id (map r_id (repos db))) now key])"
  using next_id_notin [of r_id "repos db"]
  by (auto simp: table_ok_snoc new_repo_def row_ok_defs repo_key_def split: prod.splits)

lemma upsert_repo_ok: "store_ok db \<Longrightarrow> store_ok (upsert_repo now key db)"
  using repos_ok_EnqueueJob [of db key now] by (simp add: upsert_repo_def store_ok_def)

lemma jobs_ok_snoc: "jobs_ok t \<Longrightarrow> j_id j = next_id (map j_id t) \<Longrightarrow> jobs_ok (t @ [j])"
  using next_id_notin [of j_id t] by (simp add: table_ok_snoc)

lemma EnqueueJob_Inr:
  assumes "EnqueueJob q now db = Inr (db', j)"
  obtains key where "db' = (upsert_repo now key db)\<lparr>jobs := jobs (upsert_repo now key db) @ [j]\<rparr>"
    "j_id j = next_id (map j_id (jobs (upsert_repo now key db)))" "q_status q = None \<Longrightarrow> j_status j = JobQueued"
  using assms by (auto simp: EnqueueJob_def Let_def split: option.splits if_splits)

lemma EnqueueJob_ok: "store_ok db \<Longrightarrow> EnqueueJob q now db = Inr (db', j) \<Longrightarrow> store_ok db'"
proof (erule EnqueueJob_Inr)
  fix key
  assume ok: "store_ok db"
    and db': "db' = (upsert_repo now key db)\<lparr>jobs := jobs (upsert_repo now key db) @ [j]\<rparr>"
    and j: "j_id j = next_id (map j_id (jobs (upsert_repo now key db)))"
  show "store_ok db'"
    using upsert_repo_ok [OF ok, of now key] jobs_ok_snoc [OF _ j] by (simp add: db' store_ok_def)
qed

lemma update_repo_ok:
  assumes "store_ok db" "update_repo P g db = Inr db'"
    and "\<And>r. P r \<Longrightarrow> repo_ok r \<Longrightarrow> repo_ok (g r)" "\<And>r. r_id (g r) = r_id r" "\<And>r. repo_key (g r) = repo_key r"
  shows "store_ok db'"
  using assms(1,2) table_ok_update [of repo_ok r_id repo_key "repos db" P g, OF _ assms(3-5)]
  by (simp add: update_Inr store_ok_def)

lemma update_file_ok:
  assumes "store_ok db" "update_file P g db = Inr db'"
    and "\<And>f. P f \<Longrightarrow> file_ok f \<Longrightarrow> file_ok (g f)" "\<And>f. f_id (g f) = f_id f" "\<And>f. file_key (g f) = file_key f"
  shows "store_ok db'"
  using assms(1,2) table_ok_update [of file_ok f_id file_key "files db" P g, OF _ assms(3-5)]
  by (simp add: update_Inr store_ok_def)

lemma update_reference_ok:
  assumes "store_ok db" "update_reference P g db = Inr db'"
    and "\<And>x. P x \<Longrightarrow> reference_ok x \<Longrightarrow> reference_ok (g x)" "\<And>x. rf_id (g x) = rf_id x"
    "\<And>x. rf_path (g x) = rf_path x"
  shows "store_ok db'"
  using assms(1,2) table_ok_update [of reference_ok rf_id rf_path "reference_files db" P g, OF _ assms(3-5)]
  by (simp add: update_Inr store_ok_def)

lemma LeaseMeta_ok: "store_ok db \<Longrightarrow> LeaseMeta ow tok now db = Inr (db', r) \<Longrightarrow> store_ok db'"
  by (auto simp: LeaseMeta_def claimOne_Inr store_ok_def row_ok_defs key_defs lease_defs
      intro!: table_ok_update split: sum.splits prod.splits)

lemma repo_updates_ok:
  "store_ok db \<Longrightarrow> SetCommitSHA i tok sha now db = Inr db' \<Longrightarrow> store_ok db'"
  "store_ok db \<Longrightarrow> DeferMeta i tok av now db = Inr db' \<Longrightarrow> store_ok db'"
  "store_ok db \<Longrightarrow> ReleaseMeta i tok ato c now db = Inr db' \<Longrightarrow> store_ok db'"
  unfolding SetCommitSHA_def DeferMeta_def ReleaseMeta_def
  by (erule (1) update_repo_ok; simp add: row_ok_defs key_defs lease_defs listing_guard_def)+

lemma FailRepo_ok: "store_ok db \<Longrightarrow> FailRepo i tok c now db = Inr db' \<Longrightarrow> store_ok db'"
  by (auto simp: FailRepo_def update_Inr store_ok_def row_ok_defs key_defs lease_defs
      intro!: table_ok_update split: sum.splits)

lemma insert_job_file_ok: "job_files_ok t \<Longrightarrow> job_files_ok (insert_job_file now j i t)"
  by (auto simp: insert_job_file_def table_ok_snoc new_job_file_def row_ok_defs jf_key_def)

lemma insert_job_files_ok: "job_files_ok t \<Longrightarrow> job_files_ok (foldl (\<lambda>t j. insert_job_file now j i t) t js)"
  by (induction js arbitrary: t) (auto intro: insert_job_file_ok)

lemma upsert_file_ok: "files_ok t \<Longrightarrow> files_ok (fst (upsert_file repoID now e t))"
proof (cases "find (\<lambda>f. f_repo_id f = repoID \<and> f_path f = fe_path e) t")
  case None
  assume ok: "files_ok t"
  have "(repoID, fe_path e) \<notin> file_key ` set t"
    using None by (auto simp: find_None_iff file_key_def)
  with None ok next_id_notin [of f_id t] show ?thesis
    by (simp add: upsert_file_def Let_def table_ok_snoc new_file_def row_ok_defs file_key_def maxVerifyFails_def)
next
  case (Some f)
  assume "files_ok t"
  with Some show ?thesis
    by (auto simp: upsert_file_def row_ok_defs file_key_def intro!: table_ok_update)
qed

lemma listing_entry_ok: "store_ok db \<Longrightarrow> store_ok (listing_entry repoID now e db)"
  using upsert_file_ok [of "files db" repoID now e]
  by (auto simp: listing_entry_def store_ok_def insert_job_files_ok split: prod.splits)

lemma CompleteListing_ok: "store_ok db \<Longrightarrow> CompleteListing i tok es now db = Inr db' \<Longrightarrow> store_ok db'"
proof -
  assume ok: "store_ok db" and op: "CompleteListing i tok es now db = Inr db'"
  then obtain db1 where 1: "update_repo (listing_guard i tok)
         (\<lambda>r. (clear_lease r)\<lparr>r_status := RepoListed, updated_at := now\<rparr>) db = Inr db1"
    and db': "db' = foldl (\<lambda>d e. listing_entry i now e d) db1 es"
    by (auto simp: CompleteListing_def split: sum.splits)
  have "store_ok db1"
    using ok 1 by (rule update_repo_ok) (simp_all add: row_ok_defs key_defs lease_defs)
  then have "store_ok (foldl (\<lambda>d e. listing_entry i now e d) db1 es)"
    by (induction es arbitrary: db1) (auto intro: listing_entry_ok)
  then show ?thesis by (simp add: db')
qed

lemma ensure_job_files_ok: "store_ok db \<Longrightarrow> ensure_job_files now i ids db = Inr db' \<Longrightarrow> store_ok db'"
  by (induction now i ids db rule: ensure_job_files.induct)
    (auto simp: store_ok_def insert_job_file_ok split: if_splits)

lemma EnsureJobFiles_ok: "store_ok db \<Longrightarrow> EnsureJobFiles i ids now db = Inr db' \<Longrightarrow> store_ok db'"
  by (auto simp: EnsureJobFiles_def ensure_job_files_ok split: if_splits)

lemma job_files_dest_ok:
  "job_files_ok t \<Longrightarrow> job_files_ok (sql_update P (\<lambda>x. x\<lparr>jf_dest_path := d, updated_at := now\<rparr>) t)"
  by (rule table_ok_update) (simp_all add: row_ok_defs jf_key_def)

lemma set_dests_ok: "store_ok db \<Longrightarrow> set_dests now i ds db = Inr db' \<Longrightarrow> store_ok db'"
  by (induction now i ds db rule: set_dests.induct)
    (auto simp: store_ok_def job_files_dest_ok split: if_splits)

lemma SetJobFileDests_ok: "store_ok db \<Longrightarrow> SetJobFileDests i ds now db = Inr db' \<Longrightarrow> store_ok db'"
  by (auto simp: SetJobFileDests_def set_dests_ok split: if_splits)

lemma jobs_ok_update: "jobs_ok t \<Longrightarrow> (\<And>j. j_id (g j) = j_id j) \<Longrightarrow> jobs_ok (sql_update P g t)"
  by (rule table_ok_update) simp_all

lemma FinishJob_ok: "store_ok db \<Longrightarrow> FinishJob i c now db = Inr db' \<Longrightarrow> store_ok db'"
  by (auto simp: FinishJob_def store_ok_def row_ok_defs key_defs
      intro!: table_ok_update split: if_splits)

lemma FailJobFilesForFile_ok: "store_ok db \<Longrightarrow> store_ok (FailJobFilesForFile i c now db)"
proof -
  have jobs: "jobs_ok (foldl (\<lambda>t i. sql_update (\<lambda>j. j_id j = i \<and> job_open j)
      (\<lambda>j. j\<lparr>j_status := JobError, j_last_error := c, j_updated_at := now\<rparr>) t) t is)" if "jobs_ok t" for t "is"
    using that by (induction "is" arbitrary: t) (simp_all add: jobs_ok_update)
  assume "store_ok db"
  then show ?thesis
    by (auto simp: FailJobFilesForFile_def Let_def store_ok_def jobs row_ok_defs key_defs intro!: table_ok_update)
qed

lemma leaseInstall_ok: "store_ok db \<Longrightarrow> leaseInstall ow tok now mode db = Inr (db', x) \<Longrightarrow> store_ok db'"
  by (auto simp: leaseInstall_def claimOne_Inr store_ok_def row_ok_defs key_defs lease_defs
      intro!: table_ok_update split: sum.splits prod.splits option.splits)

lemma CompleteInstall_ok: "store_ok db \<Longrightarrow> CompleteInstall i k tok c now db = Inr db' \<Longrightarrow> store_ok db'"
  by (auto simp: CompleteInstall_def Let_def update_Inr store_ok_def row_ok_defs key_defs lease_defs
      intro!: table_ok_update split: sum.splits if_splits)

lemma file_updates_ok:
  "store_ok db \<Longrightarrow> LeaseFileForDownload ow tok i now db = Inr db' \<Longrightarrow> store_ok db'"
  "store_ok db \<Longrightarrow> SaveProgress i tok blob now db = Inr db' \<Longrightarrow> store_ok db'"
  "store_ok db \<Longrightarrow> CompleteVerify i tok path now db = Inr db' \<Longrightarrow> store_ok db'"
  "store_ok db \<Longrightarrow> MarkCachedFromBlob i path now db = Inr db' \<Longrightarrow> store_ok db'"
  "store_ok db \<Longrightarrow> MarkSalvaging i now db = Inr db' \<Longrightarrow> store_ok db'"
  unfolding LeaseFileForDownload_def SaveProgress_def CompleteVerify_def MarkCachedFromBlob_def MarkSalvaging_def
  by (erule (1) update_file_ok; auto simp: row_ok_defs key_defs lease_defs owned_guard_def)+

lemma TransitionFile_Inr:
  assumes "TransitionFile i tok frm to c now db = Inr db'"
  shows "update_file (file_guard i frm tok)
      (\<lambda>f. (clear_lease f)\<lparr>f_status := to, f_last_error := c, updated_at := now\<rparr>) db = Inr db'"
    and "tok = '''' \<Longrightarrow> tokenlessEdgeAllowed frm to"
    and "frm = FileDownloading \<Longrightarrow> to = FileDownloaded \<Longrightarrow>
      sql_count (\<lambda>b. b_file_id b = i \<and> b_status b \<noteq> BlockDone) (blocks db) = 0"
  using assms unfolding TransitionFile_def by (simp_all split: if_splits)

lemma file_ok_transition:
  "file_ok f \<Longrightarrow> file_guard i frm tok f \<Longrightarrow> driven_edge frm to \<Longrightarrow>
   file_ok ((clear_lease f)\<lparr>f_status := to, f_last_error := c, updated_at := now\<rparr>)"
  by (auto simp: row_ok_defs lease_defs file_guard_def driven_edge_def)

lemma TransitionFile_ok:
  assumes "store_ok db" "TransitionFile i tok frm to c now db = Inr db'" "driven_edge frm to"
  shows "store_ok db'"
  using assms(1) TransitionFile_Inr(1) [OF assms(2)]
  by (rule update_file_ok) (erule (1) file_ok_transition [OF _ _ assms(3)], simp_all add: file_key_def clear_lease_def)

lemma FinishDownloaded_ok: "store_ok db \<Longrightarrow> FinishDownloaded i tok now db = Inr db' \<Longrightarrow> store_ok db'"
  by (auto simp: FinishDownloaded_def update_Inr store_ok_def row_ok_defs key_defs lease_defs owned_guard_def
      intro!: table_ok_update table_ok_filter split: if_splits)

lemma IncrFileRetries_ok: "store_ok db \<Longrightarrow> IncrFileRetries i tok now db = Inr (db', n) \<Longrightarrow> store_ok db'"
  by (auto simp: IncrFileRetries_def Let_def store_ok_def row_ok_defs key_defs
      intro!: table_ok_update split: option.splits)

lemma lease_files_ok:
  "store_ok db \<Longrightarrow> LeaseVerify ow tok now db = Inr (db', f) \<Longrightarrow> store_ok db'"
  "store_ok db \<Longrightarrow> LeaseSalvage ow tok now db = Inr (db', f) \<Longrightarrow> store_ok db'"
  by (auto simp: LeaseVerify_def LeaseSalvage_def claimOne_Inr store_ok_def row_ok_defs key_defs lease_defs
      intro!: table_ok_update split: sum.splits prod.splits)

lemma find_SomeD: "find P t = Some r \<Longrightarrow> r \<in> set t \<and> P r"
  by (metis find_Some_iff nth_mem)

lemma verify_fails_step:
  "file_ok f \<Longrightarrow> f_status f = FileVerifying \<Longrightarrow> 0 \<le> f_verify_fails f \<and> f_verify_fails f + 1 \<le> maxVerifyFails"
  by (auto simp: file_ok_def maxVerifyFails_def)

text \<open>
  \<^verbatim>\<open>FailVerify\<close> as one update: the two UPDATEs on the file compose, since the first leaves the
  guard columns alone.
\<close>

definition strike :: "string option \<Rightarrow> time \<Rightarrow> File \<Rightarrow> File" where
  "strike c now f = f\<lparr>f_verify_fails := f_verify_fails f + 1, f_last_error := c, updated_at := now\<rparr>"

lemma strike_compose:
  "sql_update (owned_guard i FileVerifying tok) h (sql_update (owned_guard i FileVerifying tok) (strike c now) t)
     = sql_update (owned_guard i FileVerifying tok) (\<lambda>f. h (strike c now f)) t"
  by (simp add: sql_update_def owned_guard_def strike_def)

lemma FailVerify_Inr:
  assumes "FailVerify i tok c now db = Inr db'"
  obtains f where "f \<in> set (files db)" "owned_guard i FileVerifying tok f"
    "maxVerifyFails \<le> f_verify_fails f + 1 \<Longrightarrow>
       db' = db\<lparr>files := sql_update (owned_guard i FileVerifying tok)
         (\<lambda>f. (clear_lease (strike c now f))\<lparr>f_status := FileError, updated_at := now\<rparr>) (files db)\<rparr>"
    "\<not> maxVerifyFails \<le> f_verify_fails f + 1 \<Longrightarrow>
       db' = db\<lparr>blocks := sql_update (\<lambda>b. b_file_id b = i)
           (\<lambda>b. (clear_lease b)\<lparr>b_status := BlockPending, b_upstream := '''',
              b_available_at := None, updated_at := now\<rparr>) (blocks db),
         files := sql_update (owned_guard i FileVerifying tok)
         (\<lambda>f. (clear_lease (strike c now f))\<lparr>f_status := FileQueued, f_progress := None,
            f_progress_ver := f_progress_ver (strike c now f) + 1, updated_at := now\<rparr>) (files db)\<rparr>"
proof -
  from assms obtain f where f: "find (owned_guard i FileVerifying tok) (files db) = Some f"
    by (auto simp: FailVerify_def Let_def split: option.splits)
  show thesis
  proof (rule that [of f])
    show "f \<in> set (files db)" "owned_guard i FileVerifying tok f" using find_SomeD [OF f] by auto
  qed (use assms f in \<open>simp_all add: FailVerify_def Let_def update_file_Inr strike_compose flip: strike_def\<close>)
qed

lemma owned_guard_unique:
  assumes "files_ok t" "f \<in> set t" "owned_guard i st tok f" "g \<in> set t" "owned_guard i st tok g"
  shows "g = f"
  using table_ok_unique [OF assms(1,4,2)] assms(3,5) by (simp add: owned_guard_def)

lemma FailVerify_ok: "store_ok db \<Longrightarrow> FailVerify i tok c now db = Inr db' \<Longrightarrow> store_ok db'"
proof (erule FailVerify_Inr)
  fix f
  assume ok: "store_ok db" and f: "f \<in> set (files db)" "owned_guard i FileVerifying tok f"
  note files = store_okD(3) [OF ok]
  have fails: "0 \<le> f_verify_fails f" "f_verify_fails f + 1 \<le> maxVerifyFails"
    using verify_fails_step [OF table_okD [OF files f(1)]] f(2) by (simp_all add: owned_guard_def)
  have upd: "files_ok (sql_update (owned_guard i FileVerifying tok) g (files db))"
    if "file_ok (g f)" "\<And>x. f_id (g x) = f_id x" "\<And>x. file_key (g x) = file_key x" for g
  proof -
    have "\<forall>x \<in> set (sql_update (owned_guard i FileVerifying tok) g (files db)). file_ok x"
      using table_okD [OF files] owned_guard_unique [OF files f] that(1) by (auto simp: in_sql_update)
    then show ?thesis using files that(2,3) by (simp add: table_ok_def map_sql_update)
  qed
  have blocks: "blocks_ok (sql_update (\<lambda>b. b_file_id b = i) (\<lambda>b. (clear_lease b)\<lparr>b_status := BlockPending,
      b_upstream := '''', b_available_at := None, updated_at := now\<rparr>) (blocks db))"
    using store_okD(5) [OF ok] by (rule table_ok_update) (simp_all add: row_ok_defs block_key_def clear_lease_def)
  assume "maxVerifyFails \<le> f_verify_fails f + 1 \<Longrightarrow>
       db' = db\<lparr>files := sql_update (owned_guard i FileVerifying tok)
         (\<lambda>f. (clear_lease (strike c now f))\<lparr>f_status := FileError, updated_at := now\<rparr>) (files db)\<rparr>"
    "\<not> maxVerifyFails \<le> f_verify_fails f + 1 \<Longrightarrow>
       db' = db\<lparr>blocks := sql_update (\<lambda>b. b_file_id b = i)
           (\<lambda>b. (clear_lease b)\<lparr>b_status := BlockPending, b_upstream := '''',
              b_available_at := None, updated_at := now\<rparr>) (blocks db),
         files := sql_update (owned_guard i FileVerifying tok)
         (\<lambda>f. (clear_lease (strike c now f))\<lparr>f_status := FileQueued, f_progress := None,
            f_progress_ver := f_progress_ver (strike c now f) + 1, updated_at := now\<rparr>) (files db)\<rparr>"
  then show "store_ok db'"
    using store_okD [OF ok] blocks fails
    by (cases "maxVerifyFails \<le> f_verify_fails f + 1")
      (simp_all add: store_ok_def upd strike_def row_ok_defs clear_lease_def file_key_def)
qed

lemma new_block_ok: "block_ok (new_block i now fileID b)"
  by (simp add: new_block_def row_ok_defs split: prod.splits)

lemma insert_blocks_ok: "blocks_ok t \<Longrightarrow> insert_blocks now fileID bs t = Inr t' \<Longrightarrow> blocks_ok t'"
proof (induction now fileID bs t rule: insert_blocks.induct)
  case (2 now fileID idx off len bs t)
  have "\<not> (\<exists>b \<in> set t. b_file_id b = fileID \<and> b_idx b = idx)" using "2.prems"(2) by (simp split: if_splits)
  then have "blocks_ok (t @ [new_block (next_id (map b_id t)) now fileID (idx, off, len)])"
    using "2.prems"(1) next_id_notin [of b_id t]
    by (auto simp: table_ok_snoc new_block_ok) (auto simp: new_block_def block_key_def)
  then show ?case using 2 by (simp split: if_splits)
qed simp

lemma ReplacePendingBlocks_Inr:
  assumes "ReplacePendingBlocks i tok bs now db = Inr db'"
  obtains t f where "f \<in> set (files db)" "owned_guard i FileDownloading tok f" "db' = db\<lparr>blocks := t\<rparr>"
    "insert_blocks now i bs (filter (\<lambda>b. \<not> (b_file_id b = i \<and> b_status b = BlockPending)) (blocks db)) = Inr t"
  using assms by (auto simp: ReplacePendingBlocks_def split: if_splits sum.splits)

lemma ReplacePendingBlocks_ok:
  "store_ok db \<Longrightarrow> ReplacePendingBlocks i tok bs now db = Inr db' \<Longrightarrow> store_ok db'"
proof (erule ReplacePendingBlocks_Inr)
  fix t
  assume ok: "store_ok db" and db': "db' = db\<lparr>blocks := t\<rparr>"
    and t: "insert_blocks now i bs (filter (\<lambda>b. \<not> (b_file_id b = i \<and> b_status b = BlockPending)) (blocks db)) = Inr t"
  have "blocks_ok t" using table_ok_filter [OF store_okD(5) [OF ok]] t by (rule insert_blocks_ok)
  then show "store_ok db'" using store_okD [OF ok] by (simp add: db' store_ok_def)
qed

lemma blocks_update_ok:
  assumes "store_ok db" "\<And>b. P b \<Longrightarrow> block_ok b \<Longrightarrow> block_ok (g b)"
    "\<And>b. b_id (g b) = b_id b" "\<And>b. block_key (g b) = block_key b"
  shows "store_ok (db\<lparr>blocks := sql_update P g (blocks db)\<rparr>)"
  using assms(1) table_ok_update [of block_ok b_id block_key "blocks db" P g, OF _ assms(2-4)]
  by (simp add: store_ok_def)

lemma claim_block_ok: "store_ok db \<Longrightarrow> claim_block ow tok now i db = Some (db', b) \<Longrightarrow> store_ok db'"
  by (auto simp: claim_block_def Let_def row_ok_defs block_key_def lease_defs
      intro!: blocks_update_ok split: option.splits)

lemma RequeueBlock_ok: "store_ok db \<Longrightarrow> RequeueBlock i tok av c now db = Inr (db', n) \<Longrightarrow> store_ok db'"
  by (auto simp: RequeueBlock_def row_ok_defs block_key_def lease_defs
      intro!: blocks_update_ok split: option.splits)

lemma CompleteBlock_ok: "store_ok db \<Longrightarrow> CompleteBlock i tok now db = Inr (db', d) \<Longrightarrow> store_ok db'"
  by (auto simp: CompleteBlock_def execGuarded_Inr row_ok_defs block_key_def lease_defs
      intro!: blocks_update_ok split: sum.splits option.splits)

lemma add_reference_ok: "references_ok t \<Longrightarrow> references_ok (add_reference now s t)"
  using next_id_notin [of rf_id t]
  by (auto simp: add_reference_def table_ok_snoc row_ok_defs intro!: table_ok_update)

lemma AddReferenceFiles_ok: "store_ok db \<Longrightarrow> store_ok (AddReferenceFiles refs now db)"
proof -
  have "references_ok (foldl (\<lambda>t s. add_reference now s t) t refs)" if "references_ok t" for t
    using that by (induction refs arbitrary: t) (simp_all add: add_reference_ok)
  then show "store_ok db \<Longrightarrow> ?thesis" by (simp add: AddReferenceFiles_def store_ok_def)
qed

lemma reference_updates_ok:
  "store_ok db \<Longrightarrow> InvalidateReference i now db = Inr db' \<Longrightarrow> store_ok db'"
  "store_ok db \<Longrightarrow> CompleteReferenceHash i tok sha c now db = Inr db' \<Longrightarrow> store_ok db'"
  unfolding InvalidateReference_def CompleteReferenceHash_def
  by (erule (1) update_reference_ok; simp add: row_ok_defs lease_defs)+

lemma LeaseReferenceHash_ok:
  "store_ok db \<Longrightarrow> LeaseReferenceHash ow tok now db = Inr (db', x) \<Longrightarrow> store_ok db'"
  by (auto simp: LeaseReferenceHash_def claimOne_Inr store_ok_def row_ok_defs lease_defs
      intro!: table_ok_update split: sum.splits prod.splits)

lemma cols_ok_renew: "cols_ok r \<Longrightarrow> lease_token r = Some tok \<Longrightarrow> cols_ok (renew_set till now r)"
  by (simp add: cols_ok_def renew_set_def)

lemma RenewLease_ok: "store_ok db \<Longrightarrow> RenewLease kind i tok till now db = Inr db' \<Longrightarrow> store_ok db'"
proof (cases kind)
  case LeaseRepo
  assume "store_ok db" "RenewLease kind i tok till now db = Inr db'"
  then show ?thesis unfolding LeaseRepo RenewLease.simps
    by (rule update_repo_ok) (auto simp: row_ok_defs renew_guard_def renew_set_def repo_key_def)
next
  case LeaseFile
  assume "store_ok db" "RenewLease kind i tok till now db = Inr db'"
  then show ?thesis unfolding LeaseFile RenewLease.simps
    by (rule update_file_ok) (auto simp: row_ok_defs renew_guard_def renew_set_def file_key_def)
next
  case LeaseBlock
  assume "store_ok db" "RenewLease kind i tok till now db = Inr db'"
  then show ?thesis unfolding LeaseBlock RenewLease.simps
    by (auto simp: execGuarded_Inr row_ok_defs renew_guard_def renew_set_def block_key_def
        intro!: blocks_update_ok split: sum.splits)
next
  case LeaseReference
  assume "store_ok db" "RenewLease kind i tok till now db = Inr db'"
  then show ?thesis unfolding LeaseReference RenewLease.simps
    by (rule update_reference_ok) (auto simp: row_ok_defs renew_guard_def renew_set_def)
qed

lemma recover_parts_ok:
  "store_ok db \<Longrightarrow> store_ok (fst (recover_blocks now db))"
  "store_ok db \<Longrightarrow> store_ok (fst (recover_repos now db))"
  "store_ok db \<Longrightarrow> to = FileQueued \<or> to = FileDownloaded \<Longrightarrow> frm \<noteq> FileError \<Longrightarrow>
     store_ok (fst (recover_files frm to now db))"
  "store_ok db \<Longrightarrow> store_ok (fst (recover_job_files now db))"
  "store_ok db \<Longrightarrow> store_ok (fst (recover_references now db))"
  unfolding recover_blocks_def recover_repos_def recover_files_def recover_job_files_def recover_references_def
  by (auto simp: Let_def store_ok_def row_ok_defs key_defs lease_defs intro!: table_ok_update)

lemma Recover_eq:
  "fst (Recover now db) = fst (recover_references now (fst (recover_job_files now
     (fst (recover_files FileSalvaging FileQueued now (fst (recover_files FileVerifying FileDownloaded now
     (fst (recover_files FileDownloading FileQueued now (fst (recover_repos now (fst (recover_blocks now db)))))))))))))"
  by (simp add: Recover_def Let_def split: prod.splits)

lemma Recover_ok: "store_ok db \<Longrightarrow> Recover now db = (db', st) \<Longrightarrow> store_ok db'"
  using Recover_eq [of now db] by (simp add: recover_parts_ok)

lemmas op_ok = EnqueueJob_ok LeaseMeta_ok repo_updates_ok CompleteListing_ok FailRepo_ok EnsureJobFiles_ok
  SetJobFileDests_ok FinishJob_ok leaseInstall_ok CompleteInstall_ok file_updates_ok
  FinishDownloaded_ok IncrFileRetries_ok lease_files_ok FailVerify_ok
  ReplacePendingBlocks_ok claim_block_ok RequeueBlock_ok CompleteBlock_ok
  reference_updates_ok LeaseReferenceHash_ok RenewLease_ok Recover_ok

lemma store_step_ok: "store_step s s' \<Longrightarrow> store_ok (fst s) \<Longrightarrow> store_ok (fst s')"
  by (induction rule: store_step.induct, unfold fst_conv)
    (rule FailJobFilesForFile_ok AddReferenceFiles_ok, assumption
      | rule TransitionFile_ok, assumption, assumption, assumption
      | rule op_ok, assumption, assumption)+

declare not_None_eq [simp]

end
