(* ===== verification/Store_Safety.thy ===== *)
theory Store_Safety
  imports Store_Inv
begin

text \<open>
  Who may still write: the (row, token) pairs of a database. No operation except a claim adds a
  pair, and a claim adds only its fresh token; a token that was drawn and no longer holds a row
  therefore never holds it again, and every guarded operation with it is \<open>ErrFenced\<close>.
\<close>

section \<open>Token holders\<close>

definition tokens_of :: "('a lease_cols_scheme \<Rightarrow> 'k) \<Rightarrow> 'a lease_cols_scheme list \<Rightarrow> ('k \<times> LeaseToken) set" where
  "tokens_of k t = {(k r, tok) | r tok. r \<in> set t \<and> lease_token r = Some tok}"

text \<open>\<open>grants N db db'\<close>: every pair of \<open>db'\<close> is one of \<open>db\<close> or carries a token of \<open>N\<close>.\<close>

definition grants :: "LeaseToken set \<Rightarrow> DB \<Rightarrow> DB \<Rightarrow> bool" where
  "grants N db db' \<longleftrightarrow>
     tokens_of r_id (repos db') \<subseteq> tokens_of r_id (repos db) \<union> UNIV \<times> N \<and>
     tokens_of f_id (files db') \<subseteq> tokens_of f_id (files db) \<union> UNIV \<times> N \<and>
     tokens_of jf_key (job_files db') \<subseteq> tokens_of jf_key (job_files db) \<union> UNIV \<times> N \<and>
     tokens_of b_id (blocks db') \<subseteq> tokens_of b_id (blocks db) \<union> UNIV \<times> N \<and>
     tokens_of rf_id (reference_files db') \<subseteq> tokens_of rf_id (reference_files db) \<union> UNIV \<times> N"

lemma tokens_of_append [simp]: "tokens_of k (t @ t') = tokens_of k t \<union> tokens_of k t'"
  by (auto simp: tokens_of_def)

lemma tokens_of_Nil [simp]: "tokens_of k [] = {}"
  by (simp add: tokens_of_def)

lemma tokens_of_free [simp]: "lease_token r = None \<Longrightarrow> tokens_of k [r] = {}"
  by (simp add: tokens_of_def)

lemma tokens_of_filter: "tokens_of k (filter P t) \<subseteq> tokens_of k t \<union> X"
  by (auto simp: tokens_of_def)

lemma tokens_of_update:
  assumes "\<And>r. P r \<Longrightarrow> k (g r) = k r"
    and "\<And>r tok. P r \<Longrightarrow> lease_token (g r) = Some tok \<Longrightarrow> lease_token r = Some tok \<or> tok \<in> N"
  shows "tokens_of k (sql_update P g t) \<subseteq> tokens_of k t \<union> UNIV \<times> N"
proof
  fix x assume "x \<in> tokens_of k (sql_update P g t)"
  then obtain r tok where "r \<in> set t" and x: "x = (k (if P r then g r else r), tok)"
    and tok: "lease_token (if P r then g r else r) = Some tok"
    by (auto simp: tokens_of_def in_sql_update)
  with assms show "x \<in> tokens_of k t \<union> UNIV \<times> N"
    by (cases "P r") (auto simp: tokens_of_def)
qed

lemma grants_refl: "grants N db db"
  by (auto simp: grants_def)

lemma grants_trans: "grants N a b \<Longrightarrow> grants N b c \<Longrightarrow> grants N a c"
  unfolding grants_def by (intro conjI; blast)

lemma grants_update:
  "\<And>P g. (\<And>r. P r \<Longrightarrow> r_id (g r) = r_id r) \<Longrightarrow>
     (\<And>r tok. P r \<Longrightarrow> lease_token (g r) = Some tok \<Longrightarrow> lease_token r = Some tok \<or> tok \<in> N) \<Longrightarrow>
     grants N db (db\<lparr>repos := sql_update P g (repos db)\<rparr>)"
  "\<And>P g. (\<And>r. P r \<Longrightarrow> f_id (g r) = f_id r) \<Longrightarrow>
     (\<And>r tok. P r \<Longrightarrow> lease_token (g r) = Some tok \<Longrightarrow> lease_token r = Some tok \<or> tok \<in> N) \<Longrightarrow>
     grants N db (db\<lparr>files := sql_update P g (files db)\<rparr>)"
  "\<And>P g. (\<And>r. P r \<Longrightarrow> jf_key (g r) = jf_key r) \<Longrightarrow>
     (\<And>r tok. P r \<Longrightarrow> lease_token (g r) = Some tok \<Longrightarrow> lease_token r = Some tok \<or> tok \<in> N) \<Longrightarrow>
     grants N db (db\<lparr>job_files := sql_update P g (job_files db)\<rparr>)"
  "\<And>P g. (\<And>r. P r \<Longrightarrow> b_id (g r) = b_id r) \<Longrightarrow>
     (\<And>r tok. P r \<Longrightarrow> lease_token (g r) = Some tok \<Longrightarrow> lease_token r = Some tok \<or> tok \<in> N) \<Longrightarrow>
     grants N db (db\<lparr>blocks := sql_update P g (blocks db)\<rparr>)"
  "\<And>P g. (\<And>r. P r \<Longrightarrow> rf_id (g r) = rf_id r) \<Longrightarrow>
     (\<And>r tok. P r \<Longrightarrow> lease_token (g r) = Some tok \<Longrightarrow> lease_token r = Some tok \<or> tok \<in> N) \<Longrightarrow>
     grants N db (db\<lparr>reference_files := sql_update P g (reference_files db)\<rparr>)"
  unfolding grants_def by (simp, rule tokens_of_update; blast)+

lemma grants_frame:
  "grants N db (db'\<lparr>jobs := x\<rparr>) = grants N db db'"
  "grants N (db\<lparr>jobs := x\<rparr>) db' = grants N db db'"
  by (simp_all add: grants_def)

section \<open>Which operation grants what\<close>

lemma repo_ops_grant:
  "update_repo P g db = Inr db' \<Longrightarrow> (\<And>r. r_id (g r) = r_id r) \<Longrightarrow>
     (\<And>r tok. lease_token (g r) = Some tok \<Longrightarrow> lease_token r = Some tok) \<Longrightarrow> grants N db db'"
  by (auto simp: update_repo_Inr intro!: grants_update)

lemma file_ops_grant:
  "update_file P g db = Inr db' \<Longrightarrow> (\<And>r. f_id (g r) = f_id r) \<Longrightarrow>
     (\<And>r tok. lease_token (g r) = Some tok \<Longrightarrow> lease_token r = Some tok \<or> tok \<in> N) \<Longrightarrow> grants N db db'"
  by (auto simp: update_file_Inr intro!: grants_update)

lemma reference_ops_grant:
  "update_reference P g db = Inr db' \<Longrightarrow> (\<And>r. rf_id (g r) = rf_id r) \<Longrightarrow>
     (\<And>r tok. lease_token (g r) = Some tok \<Longrightarrow> lease_token r = Some tok) \<Longrightarrow> grants N db db'"
  by (auto simp: update_reference_Inr intro!: grants_update)

lemma upsert_repo_grants: "grants N db (upsert_repo now key db)"
  by (auto simp: upsert_repo_def grants_def new_repo_def split: prod.splits)

lemma EnqueueJob_grants: "EnqueueJob q now db = Inr (db', j) \<Longrightarrow> grants N db db'"
  by (erule EnqueueJob_Inr) (simp add: grants_frame upsert_repo_grants)

lemma meta_grants:
  "SetCommitSHA i tok sha now db = Inr db' \<Longrightarrow> grants N db db'"
  "DeferMeta i tok av now db = Inr db' \<Longrightarrow> grants N db db'"
  "ReleaseMeta i tok ato c now db = Inr db' \<Longrightarrow> grants N db db'"
  unfolding SetCommitSHA_def DeferMeta_def ReleaseMeta_def
  by (erule repo_ops_grant; simp add: clear_lease_def)+

lemma LeaseMeta_grants: "LeaseMeta ow tok now db = Inr (db', r) \<Longrightarrow> grants {tok} db db'"
  by (auto simp: LeaseMeta_def claimOne_Inr set_lease_def intro!: grants_update split: sum.splits)

lemma FailRepo_grants: "FailRepo i tok c now db = Inr db' \<Longrightarrow> grants N db db'"
  by (auto simp: FailRepo_def update_repo_Inr grants_frame clear_lease_def intro!: grants_update split: sum.splits)

lemma insert_job_file_tokens [simp]: "tokens_of jf_key (insert_job_file now j i t) = tokens_of jf_key t"
  by (simp add: insert_job_file_def new_job_file_def)

lemma insert_job_files_tokens [simp]:
  "tokens_of jf_key (foldl (\<lambda>t j. insert_job_file now j i t) t js) = tokens_of jf_key t"
  by (induction js arbitrary: t) simp_all

lemma upsert_file_tokens: "tokens_of f_id (fst (upsert_file i now e t)) \<subseteq> tokens_of f_id t \<union> UNIV \<times> N"
  by (auto simp: upsert_file_def Let_def new_file_def dest!: subsetD [OF tokens_of_update [of _ _ _ "{}"], rotated 2]
      split: option.splits)

lemma listing_entry_grants: "grants N db (listing_entry i now e db)"
  using upsert_file_tokens [of i now e "files db" N]
  by (auto simp: grants_def listing_entry_def split: prod.splits)

lemma CompleteListing_grants: "CompleteListing i tok es now db = Inr db' \<Longrightarrow> grants N db db'"
proof -
  have fold: "grants N db (foldl (\<lambda>d e. listing_entry i now e d) db es)" for db
    by (induction es arbitrary: db) (auto intro: grants_refl grants_trans listing_entry_grants)
  assume "CompleteListing i tok es now db = Inr db'"
  then obtain db1 where "update_repo (listing_guard i tok)
      (\<lambda>r. (clear_lease r)\<lparr>r_status := RepoListed, updated_at := now\<rparr>) db = Inr db1"
    "db' = foldl (\<lambda>d e. listing_entry i now e d) db1 es"
    by (auto simp: CompleteListing_def split: sum.splits)
  then show ?thesis
    by (auto intro!: grants_trans [OF repo_ops_grant fold] simp: clear_lease_def)
qed

lemma ensure_job_files_grants: "ensure_job_files now i ids db = Inr db' \<Longrightarrow> grants N db db'"
proof (induction now i ids db rule: ensure_job_files.induct)
  case (2 now jobID fileID ids db)
  have "grants N db (db\<lparr>job_files := insert_job_file now jobID fileID (job_files db)\<rparr>)"
    by (auto simp: grants_def)
  then show ?case using 2 grants_trans by (auto split: if_splits)
qed (simp add: grants_refl)

lemma EnsureJobFiles_grants: "EnsureJobFiles i ids now db = Inr db' \<Longrightarrow> grants N db db'"
  by (auto simp: EnsureJobFiles_def grants_refl ensure_job_files_grants split: if_splits)

lemma set_dests_grants: "set_dests now i ds db = Inr db' \<Longrightarrow> grants N db db'"
proof (induction now i ds db rule: set_dests.induct)
  case (2 now jobID fileID dest ds db)
  have "grants N db (db\<lparr>job_files := sql_update (\<lambda>x. jf_job_id x = jobID \<and> jf_file_id x = fileID)
      (\<lambda>x. x\<lparr>jf_dest_path := dest, updated_at := now\<rparr>) (job_files db)\<rparr>)"
    by (rule grants_update) (simp_all add: jf_key_def)
  then show ?case using 2 grants_trans by (auto split: if_splits)
qed (simp add: grants_refl)

lemma SetJobFileDests_grants: "SetJobFileDests i ds now db = Inr db' \<Longrightarrow> grants N db db'"
  by (auto simp: SetJobFileDests_def grants_refl set_dests_grants split: if_splits)

lemma grants_job_files:
  "(\<And>r. P r \<Longrightarrow> jf_key (g r) = jf_key r) \<Longrightarrow>
   (\<And>r tok. P r \<Longrightarrow> lease_token (g r) = Some tok \<Longrightarrow> lease_token r = Some tok \<or> tok \<in> N) \<Longrightarrow>
   grants N db (db\<lparr>jobs := js, job_files := sql_update P g (job_files db)\<rparr>)"
  unfolding grants_def by (simp, rule tokens_of_update; blast)

lemma job_ops_grant:
  "FinishJob i c now db = Inr db' \<Longrightarrow> grants N db db'"
  "grants N db (FailJobFilesForFile i c now db)"
  "leaseInstall ow tok now mode db = Inr (db', x) \<Longrightarrow> grants {tok} db db'"
  "CompleteInstall i k tok c now db = Inr db' \<Longrightarrow> grants N db db'"
proof -
  show "FinishJob i c now db = Inr db' \<Longrightarrow> grants N db db'"
    by (auto simp: FinishJob_def jf_key_def intro!: grants_job_files split: if_splits)
  show "grants N db (FailJobFilesForFile i c now db)"
    by (auto simp: FailJobFilesForFile_def Let_def grants_frame jf_key_def intro!: grants_update)
  show "leaseInstall ow tok now mode db = Inr (db', x) \<Longrightarrow> grants {tok} db db'"
    by (auto simp: leaseInstall_def claimOne_Inr grants_frame jf_key_def set_lease_def
        intro!: grants_update split: sum.splits option.splits)
  show "CompleteInstall i k tok c now db = Inr db' \<Longrightarrow> grants N db db'"
    by (auto simp: CompleteInstall_def Let_def execGuarded_Inr grants_frame jf_key_def clear_lease_def
        intro!: grants_update split: sum.splits if_splits)
qed

lemma file_grants:
  "LeaseFileForDownload ow tok i now db = Inr db' \<Longrightarrow> grants {tok} db db'"
  "SaveProgress i t blob now db = Inr db' \<Longrightarrow> grants N db db'"
  "CompleteVerify i t path now db = Inr db' \<Longrightarrow> grants N db db'"
  "MarkCachedFromBlob i path now db = Inr db' \<Longrightarrow> grants N db db'"
  "MarkSalvaging i now db = Inr db' \<Longrightarrow> grants N db db'"
  unfolding LeaseFileForDownload_def SaveProgress_def CompleteVerify_def MarkCachedFromBlob_def MarkSalvaging_def
  by (erule file_ops_grant; simp add: clear_lease_def set_lease_def)+

lemma TransitionFile_grants: "TransitionFile i tok frm to c now db = Inr db' \<Longrightarrow> grants N db db'"
  by (drule TransitionFile_Inr(1), erule file_ops_grant) (simp_all add: clear_lease_def)

lemma grants_blocks_files:
  "tokens_of b_id bs \<subseteq> tokens_of b_id (blocks db) \<Longrightarrow> (\<And>r. P r \<Longrightarrow> f_id (g r) = f_id r) \<Longrightarrow>
   (\<And>r tok. P r \<Longrightarrow> lease_token (g r) = Some tok \<Longrightarrow> lease_token r = Some tok \<or> tok \<in> N) \<Longrightarrow>
   grants N db (db\<lparr>blocks := bs, files := sql_update P g (files db)\<rparr>)"
  unfolding grants_def by (simp add: le_supI1, rule tokens_of_update; blast)

lemma FinishDownloaded_grants: "FinishDownloaded i tok now db = Inr db' \<Longrightarrow> grants N db db'"
  using tokens_of_filter [of b_id _ "blocks db" "{}"]
  by (auto simp: FinishDownloaded_def update_file_Inr clear_lease_def intro!: grants_blocks_files split: if_splits)

lemma FailVerify_grants: "FailVerify i tok c now db = Inr db' \<Longrightarrow> grants N db db'"
proof (erule FailVerify_Inr)
  fix f
  have blocks: "tokens_of b_id (sql_update (\<lambda>b. b_file_id b = i) (\<lambda>b. (clear_lease b)\<lparr>b_status := BlockPending,
      b_upstream := '''', b_available_at := None, updated_at := now\<rparr>) (blocks db)) \<subseteq> tokens_of b_id (blocks db)"
    using tokens_of_update [of "\<lambda>b. b_file_id b = i" b_id "\<lambda>b. (clear_lease b)\<lparr>b_status := BlockPending,
      b_upstream := '''', b_available_at := None, updated_at := now\<rparr>" "{}" "blocks db"]
    by (simp add: clear_lease_def)
  assume "maxVerifyFails \<le> f_verify_fails f + 1 \<Longrightarrow>
       db' = db\<lparr>files := sql_update (owned_guard i FileVerifying tok)
         (\<lambda>f. (clear_lease (strike c now f))\<lparr>f_status := FileError, updated_at := now\<rparr>) (files db)\<rparr>"
    "\<not> maxVerifyFails \<le> f_verify_fails f + 1 \<Longrightarrow>
       db' = db\<lparr>blocks := sql_update (\<lambda>b. b_file_id b = i)
           (\<lambda>b. (clear_lease b)\<lparr>b_status := BlockPending, b_upstream := '''',
              b_available_at := None, updated_at := now\<rparr>) (blocks db),
         files := sql_update (owned_guard i FileVerifying tok)
         (\<lambda>f. (clear_lease (strike c now f))\<lparr>f_status := FileQueued, f_progress := None,
            f_progress_ver := f_progress_ver (strike c now f) + 1, updated_at := now\<rparr>) (files db)\<rparr>"
  then show "grants N db db'"
    by (cases "maxVerifyFails \<le> f_verify_fails f + 1")
      (auto simp: strike_def clear_lease_def intro!: grants_update grants_blocks_files blocks [unfolded clear_lease_def])
qed

lemma file_claims_grant:
  "IncrFileRetries i t now db = Inr (db', n) \<Longrightarrow> grants N db db'"
  "LeaseVerify ow tok now db = Inr (db', f) \<Longrightarrow> grants {tok} db db'"
  "LeaseSalvage ow tok now db = Inr (db', f) \<Longrightarrow> grants {tok} db db'"
proof -
  show "IncrFileRetries i t now db = Inr (db', n) \<Longrightarrow> grants N db db'"
    by (auto simp: IncrFileRetries_def Let_def intro!: grants_update split: option.splits)
  show "LeaseVerify ow tok now db = Inr (db', f) \<Longrightarrow> grants {tok} db db'"
    by (auto simp: LeaseVerify_def claimOne_Inr set_lease_def intro!: grants_update split: sum.splits)
  show "LeaseSalvage ow tok now db = Inr (db', f) \<Longrightarrow> grants {tok} db db'"
    by (auto simp: LeaseSalvage_def claimOne_Inr set_lease_def intro!: grants_update split: sum.splits)
qed

lemma insert_blocks_tokens: "insert_blocks now i bs t = Inr t' \<Longrightarrow> tokens_of b_id t' = tokens_of b_id t"
  by (induction now i bs t rule: insert_blocks.induct) (auto simp: new_block_def split: if_splits)

lemma ReplacePendingBlocks_grants: "ReplacePendingBlocks i tok bs now db = Inr db' \<Longrightarrow> grants N db db'"
  by (erule ReplacePendingBlocks_Inr)
    (use tokens_of_filter [of b_id _ "blocks db"] in \<open>auto simp: grants_def dest!: insert_blocks_tokens\<close>)

lemma block_grants:
  "claim_block ow tok now i db = Some (db', b) \<Longrightarrow> grants {tok} db db'"
  "RequeueBlock i t av c now db = Inr (db', n) \<Longrightarrow> grants N db db'"
  "CompleteBlock i t now db = Inr (db', d) \<Longrightarrow> grants N db db'"
proof -
  show "claim_block ow tok now i db = Some (db', b) \<Longrightarrow> grants {tok} db db'"
    by (auto simp: claim_block_def Let_def set_lease_def intro!: grants_update split: option.splits)
  show "RequeueBlock i t av c now db = Inr (db', n) \<Longrightarrow> grants N db db'"
    by (auto simp: RequeueBlock_def clear_lease_def intro!: grants_update split: option.splits)
  show "CompleteBlock i t now db = Inr (db', d) \<Longrightarrow> grants N db db'"
    by (auto simp: CompleteBlock_def execGuarded_Inr clear_lease_def intro!: grants_update
        split: sum.splits option.splits)
qed

lemma add_reference_tokens: "tokens_of rf_id (add_reference now s t) \<subseteq> tokens_of rf_id t"
  using tokens_of_update [of "\<lambda>x. rf_path x = s_path s" rf_id "\<lambda>x. x\<lparr>rf_size := s_size s,
      rf_mtime_ns := s_mtime_ns s, rf_dev := s_dev s, rf_ino := s_ino s, updated_at := now\<rparr>" "{}" t]
  by (simp add: add_reference_def)

lemma AddReferenceFiles_grants: "grants N db (AddReferenceFiles refs now db)"
proof -
  have "tokens_of rf_id (foldl (\<lambda>t s. add_reference now s t) t refs) \<subseteq> tokens_of rf_id t" for t
    by (induction refs arbitrary: t) (use add_reference_tokens in \<open>fastforce+\<close>)
  then show ?thesis by (auto simp: grants_def AddReferenceFiles_def)
qed

lemma reference_grants:
  "InvalidateReference i now db = Inr db' \<Longrightarrow> grants N db db'"
  "CompleteReferenceHash i t sha c now db = Inr db' \<Longrightarrow> grants N db db'"
  unfolding InvalidateReference_def CompleteReferenceHash_def
  by (erule reference_ops_grant; simp add: clear_lease_def)+

lemma LeaseReferenceHash_grants: "LeaseReferenceHash ow tok now db = Inr (db', x) \<Longrightarrow> grants {tok} db db'"
  by (auto simp: LeaseReferenceHash_def claimOne_Inr set_lease_def intro!: grants_update split: sum.splits)

lemma RenewLease_grants: "RenewLease kind i tok till now db = Inr db' \<Longrightarrow> grants N db db'"
  by (cases kind) (auto simp: update_Inr renew_set_def intro!: grants_update split: sum.splits)

lemma recover_grants:
  "grants N db (fst (recover_blocks now db))" "grants N db (fst (recover_repos now db))"
  "grants N db (fst (recover_files frm to now db))" "grants N db (fst (recover_job_files now db))"
  "grants N db (fst (recover_references now db))"
  unfolding recover_blocks_def recover_repos_def recover_files_def recover_job_files_def recover_references_def Let_def fst_conv
  by (rule grants_update; simp add: clear_lease_def jf_key_def)+

lemma Recover_grants: "Recover now db = (db', st) \<Longrightarrow> grants N db db'"
  using Recover_eq [of now db] by (simp, intro grants_trans [OF _ recover_grants(5)] grants_trans [OF _ recover_grants(4)]
    grants_trans [OF _ recover_grants(3)] grants_trans [OF _ recover_grants(2)] recover_grants(1))

lemmas quiet_ops = EnqueueJob_grants meta_grants FailRepo_grants CompleteListing_grants EnsureJobFiles_grants
  SetJobFileDests_grants job_ops_grant(1,2,4) file_grants(2-5) TransitionFile_grants FinishDownloaded_grants
  FailVerify_grants file_claims_grant(1) ReplacePendingBlocks_grants block_grants(2,3) AddReferenceFiles_grants
  reference_grants RenewLease_grants Recover_grants

lemmas claim_ops = LeaseMeta_grants job_ops_grant(3) file_grants(1) file_claims_grant(2,3) block_grants(1)
  LeaseReferenceHash_grants

text \<open>A step grants only the token it draws, and that token was never drawn before.\<close>

lemma store_step_grants: "store_step s s' \<Longrightarrow> grants (snd s' - snd s) (fst s) (fst s') \<and> snd s \<subseteq> snd s'"
  by (induction rule: store_step.induct)
    (simp_all add: quiet_ops claim_ops insert_Diff_if subset_insertI)

section \<open>Runs\<close>

text \<open>Whatever a step keeps, a run keeps; the store's invariant and "this token no longer holds this
  row" are both of that kind.\<close>

interpretation ok: step_invariant store_step "\<lambda>s. store_ok (fst s)"
  by unfold_locales (rule store_step_ok)

definition lost_file :: "int \<Rightarrow> LeaseToken \<Rightarrow> store_state \<Rightarrow> bool" where
  "lost_file i tok s \<longleftrightarrow> tok \<in> snd s \<and> (i, tok) \<notin> tokens_of f_id (files (fst s))"

definition lost_block :: "int \<Rightarrow> LeaseToken \<Rightarrow> store_state \<Rightarrow> bool" where
  "lost_block i tok s \<longleftrightarrow> tok \<in> snd s \<and> (i, tok) \<notin> tokens_of b_id (blocks (fst s))"

lemma lost_step:
  "store_step s s' \<Longrightarrow> lost_file i tok s \<Longrightarrow> lost_file i tok s'"
  "store_step s s' \<Longrightarrow> lost_block i tok s \<Longrightarrow> lost_block i tok s'"
  using store_step_grants [of s s']
  by (auto simp: lost_file_def lost_block_def grants_def)

interpretation lost_f: step_invariant store_step "lost_file i tok" for i tok
  by unfold_locales (rule lost_step)

interpretation lost_b: step_invariant store_step "lost_block i tok" for i tok
  by unfold_locales (rule lost_step)

section \<open>A lost token is fenced\<close>

lemma lost_file_guards:
  assumes "lost_file i tok (db, u)" "f \<in> set (files db)"
  shows "\<not> owned_guard i st tok f" "tok \<noteq> '''' \<Longrightarrow> \<not> file_guard i st tok f"
    "\<not> (f_id f = i \<and> P \<and> lease_token f = Some tok)" "\<not> (renew_guard i tok now f_id f \<and> P)"
  using assms by (auto simp: lost_file_def tokens_of_def owned_guard_def file_guard_def renew_guard_def)

lemma update_file_none: "(\<And>f. f \<in> set (files db) \<Longrightarrow> \<not> P f) \<Longrightarrow> update_file P g db = Inl ErrFenced"
  by (simp add: update_file_def execGuarded_none)

lemma find_none: "(\<And>x. x \<in> set t \<Longrightarrow> \<not> P x) \<Longrightarrow> find P t = None"
  by (auto simp: find_None_iff)

lemma lost_file_fenced:
  assumes "lost_file i tok (db, u)"
  shows "SaveProgress i tok blob now db = Inl ErrFenced"
    and "FinishDownloaded i tok now db = Inl ErrFenced"
    and "IncrFileRetries i tok now db = Inl ErrFenced"
    and "CompleteVerify i tok path now db = Inl ErrFenced"
    and "FailVerify i tok c now db = Inl ErrFenced"
    and "ReplacePendingBlocks i tok bs now db = Inl ErrFenced"
    and "RenewLease LeaseFile i tok till now db = Inl ErrFenced"
    and "tok \<noteq> '''' \<Longrightarrow> TransitionFile i tok frm to c now db = Inl ErrFenced"
proof -
  note g = lost_file_guards [OF assms]
  show "SaveProgress i tok blob now db = Inl ErrFenced"
    unfolding SaveProgress_def by (rule update_file_none) (use g(3) in blast)
  show "FinishDownloaded i tok now db = Inl ErrFenced"
    using g(1) by (auto simp: FinishDownloaded_def)
  show "IncrFileRetries i tok now db = Inl ErrFenced"
    using g(1) by (simp add: IncrFileRetries_def find_none)
  show "CompleteVerify i tok path now db = Inl ErrFenced"
    unfolding CompleteVerify_def by (rule update_file_none) (use g(1) in blast)
  show "FailVerify i tok c now db = Inl ErrFenced"
    using g(1) by (simp add: FailVerify_def find_none)
  show "ReplacePendingBlocks i tok bs now db = Inl ErrFenced"
    using g(1) by (auto simp: ReplacePendingBlocks_def)
  show "RenewLease LeaseFile i tok till now db = Inl ErrFenced"
    unfolding RenewLease.simps by (rule update_file_none) (use g(4) in blast)
  show "tok \<noteq> '''' \<Longrightarrow> TransitionFile i tok frm to c now db = Inl ErrFenced"
    using g(2) by (auto simp: TransitionFile_def)
qed

lemma lost_block_fenced:
  assumes "lost_block i tok (db, u)"
  shows "CompleteBlock i tok now db = Inl ErrFenced" "RequeueBlock i tok av c now db = Inl ErrFenced"
    "RenewLease LeaseBlock i tok till now db = Inl ErrFenced"
proof -
  have g: "\<not> block_guard i tok b" "\<not> (renew_guard i tok now b_id b \<and> b_status b = BlockActive)"
    if "b \<in> set (blocks db)" for b
    using assms that by (auto simp: lost_block_def tokens_of_def block_guard_def renew_guard_def)
  show "CompleteBlock i tok now db = Inl ErrFenced"
    using g(1) by (simp add: CompleteBlock_def execGuarded_none)
  show "RequeueBlock i tok av c now db = Inl ErrFenced"
    using g(1) by (simp add: RequeueBlock_def find_none)
  show "RenewLease LeaseBlock i tok till now db = Inl ErrFenced"
    using g(2) by (simp add: execGuarded_none)
qed

end
