(* ===== verification/Store_Props.thy ===== *)
theory Store_Props
  imports Store_Safety
begin

text \<open>
  Properties of the store: the invariant of every reachable database, fencing of reclaimed
  leases, recovery in closed form, the bounded verify ladder, completion of files and jobs,
  and the block claim loop under interference.
\<close>

section \<open>Recovery in closed form\<close>

definition recovered_file :: "time \<Rightarrow> File \<Rightarrow> File" where
  "recovered_file now f =
     (if \<not> expired now f then f
      else if f_status f = FileDownloading \<or> f_status f = FileSalvaging
      then (clear_lease f)\<lparr>f_status := FileQueued, updated_at := now\<rparr>
      else if f_status f = FileVerifying
      then (clear_lease f)\<lparr>f_status := FileDownloaded, updated_at := now\<rparr>
      else f)"

definition reclaims_block :: "time \<Rightarrow> DB \<Rightarrow> Block \<Rightarrow> bool" where
  "reclaims_block now db b \<longleftrightarrow> b_status b = BlockActive \<and>
     (expired now b \<or>
      (\<exists>f \<in> set (files db). f_id f = b_file_id b \<and> f_status f = FileDownloading \<and> expired now f))"

lemma expired_clear [simp]: "\<not> expired now (clear_lease r)"
  by (simp add: expired_def)

lemma expired_file_upd [simp]:
  "expired now (f\<lparr>f_status := st, updated_at := x\<rparr>) = expired now (f :: File)"
  "expired now (b\<lparr>b_status := bs, b_available_at := a, updated_at := x\<rparr>) = expired now (b :: Block)"
  "expired now (r\<lparr>r_status := rs, updated_at := x\<rparr>) = expired now (r :: Repo)"
  "expired now (j\<lparr>jf_status := js, updated_at := x\<rparr>) = expired now (j :: JobFile)"
  "expired now (e\<lparr>rf_status := es, updated_at := x\<rparr>) = expired now (e :: ReferenceFile)"
  by (simp_all add: expired_def)

lemma recovered_file_steps:
  "sql_update (\<lambda>f. f_status f = FileSalvaging \<and> expired now f)
       (\<lambda>f. (clear_lease f)\<lparr>f_status := FileQueued, updated_at := now\<rparr>)
     (sql_update (\<lambda>f. f_status f = FileVerifying \<and> expired now f)
         (\<lambda>f. (clear_lease f)\<lparr>f_status := FileDownloaded, updated_at := now\<rparr>)
       (sql_update (\<lambda>f. f_status f = FileDownloading \<and> expired now f)
           (\<lambda>f. (clear_lease f)\<lparr>f_status := FileQueued, updated_at := now\<rparr>) t))
   = map (recovered_file now) t"
  by (induction t) (auto simp: sql_update_def recovered_file_def)

lemma recover_tables:
  "repos (fst (recover_repos now db)) = sql_update (\<lambda>r. r_status r = RepoListing \<and> expired now r)
     (\<lambda>r. (clear_lease r)\<lparr>r_status := RepoPending, updated_at := now\<rparr>) (repos db)"
  "files (fst (recover_files frm to now db)) = sql_update (\<lambda>f. f_status f = frm \<and> expired now f)
     (\<lambda>f. (clear_lease f)\<lparr>f_status := to, updated_at := now\<rparr>) (files db)"
  "job_files (fst (recover_job_files now db)) = sql_update (\<lambda>x. jf_status x = JobFileInstalling \<and> expired now x)
     (\<lambda>x. (clear_lease x)\<lparr>jf_status := JobFilePending, updated_at := now\<rparr>) (job_files db)"
  "reference_files (fst (recover_references now db)) = sql_update (\<lambda>x. rf_status x = RefHashing \<and> expired now x)
     (\<lambda>x. (clear_lease x)\<lparr>rf_status := RefPending, updated_at := now\<rparr>) (reference_files db)"
  "blocks (fst (recover_blocks now db)) = sql_update (reclaims_block now db)
     (\<lambda>b. (clear_lease b)\<lparr>b_status := BlockPending, b_available_at := None, updated_at := now\<rparr>) (blocks db)"
  by (simp_all add: recover_repos_def recover_files_def recover_job_files_def recover_references_def
      recover_blocks_def Let_def reclaims_block_def [abs_def])

lemma recover_others [simp]:
  "files (fst (recover_blocks now db)) = files db" "files (fst (recover_repos now db)) = files db"
  "files (fst (recover_job_files now db)) = files db" "files (fst (recover_references now db)) = files db"
  "blocks (fst (recover_repos now db)) = blocks db" "blocks (fst (recover_files frm to now db)) = blocks db"
  "blocks (fst (recover_job_files now db)) = blocks db" "blocks (fst (recover_references now db)) = blocks db"
  "repos (fst (recover_blocks now db)) = repos db" "repos (fst (recover_files frm to now db)) = repos db"
  "repos (fst (recover_job_files now db)) = repos db" "repos (fst (recover_references now db)) = repos db"
  "job_files (fst (recover_blocks now db)) = job_files db" "job_files (fst (recover_repos now db)) = job_files db"
  "job_files (fst (recover_files frm to now db)) = job_files db"
  "job_files (fst (recover_references now db)) = job_files db"
  "reference_files (fst (recover_blocks now db)) = reference_files db"
  "reference_files (fst (recover_repos now db)) = reference_files db"
  "reference_files (fst (recover_files frm to now db)) = reference_files db"
  "reference_files (fst (recover_job_files now db)) = reference_files db"
  "jobs (fst (recover_blocks now db)) = jobs db" "jobs (fst (recover_repos now db)) = jobs db"
  "jobs (fst (recover_files frm to now db)) = jobs db" "jobs (fst (recover_job_files now db)) = jobs db"
  "jobs (fst (recover_references now db)) = jobs db"
  "upstreams (fst (recover_blocks now db)) = upstreams db" "upstreams (fst (recover_repos now db)) = upstreams db"
  "upstreams (fst (recover_files frm to now db)) = upstreams db"
  "upstreams (fst (recover_job_files now db)) = upstreams db"
  "upstreams (fst (recover_references now db)) = upstreams db"
  "endpoint_cooldowns (fst (recover_blocks now db)) = endpoint_cooldowns db"
  "endpoint_cooldowns (fst (recover_repos now db)) = endpoint_cooldowns db"
  "endpoint_cooldowns (fst (recover_files frm to now db)) = endpoint_cooldowns db"
  "endpoint_cooldowns (fst (recover_job_files now db)) = endpoint_cooldowns db"
  "endpoint_cooldowns (fst (recover_references now db)) = endpoint_cooldowns db"
  "kv (fst (recover_blocks now db)) = kv db" "kv (fst (recover_repos now db)) = kv db"
  "kv (fst (recover_files frm to now db)) = kv db" "kv (fst (recover_job_files now db)) = kv db"
  "kv (fst (recover_references now db)) = kv db"
  by (simp_all add: recover_repos_def recover_files_def recover_job_files_def recover_references_def
      recover_blocks_def Let_def)

lemma Recover_tables:
  "files (fst (Recover now db)) = map (recovered_file now) (files db)"
  "blocks (fst (Recover now db)) = sql_update (reclaims_block now db)
     (\<lambda>b. (clear_lease b)\<lparr>b_status := BlockPending, b_available_at := None, updated_at := now\<rparr>) (blocks db)"
  "repos (fst (Recover now db)) = sql_update (\<lambda>r. r_status r = RepoListing \<and> expired now r)
     (\<lambda>r. (clear_lease r)\<lparr>r_status := RepoPending, updated_at := now\<rparr>) (repos db)"
  "job_files (fst (Recover now db)) = sql_update (\<lambda>x. jf_status x = JobFileInstalling \<and> expired now x)
     (\<lambda>x. (clear_lease x)\<lparr>jf_status := JobFilePending, updated_at := now\<rparr>) (job_files db)"
  "reference_files (fst (Recover now db)) = sql_update (\<lambda>x. rf_status x = RefHashing \<and> expired now x)
     (\<lambda>x. (clear_lease x)\<lparr>rf_status := RefPending, updated_at := now\<rparr>) (reference_files db)"
  "jobs (fst (Recover now db)) = jobs db" "upstreams (fst (Recover now db)) = upstreams db"
  "endpoint_cooldowns (fst (Recover now db)) = endpoint_cooldowns db" "kv (fst (Recover now db)) = kv db"
  by (simp_all add: Recover_eq recover_tables recovered_file_steps)

text \<open>After a recovery at \<open>now\<close> no claimed row is expired at \<open>now\<close>, and a file that was reclaimed
  from \<^verbatim>\<open>downloading\<close> has no active block left.\<close>

definition no_stale :: "time \<Rightarrow> DB \<Rightarrow> bool" where
  "no_stale now db \<longleftrightarrow>
     (\<forall>f \<in> set (files db). f_status f = FileDownloading \<or> f_status f = FileVerifying \<or> f_status f = FileSalvaging
        \<longrightarrow> \<not> expired now f) \<and>
     (\<forall>b \<in> set (blocks db). b_status b = BlockActive \<longrightarrow> \<not> expired now b) \<and>
     (\<forall>r \<in> set (repos db). r_status r = RepoListing \<longrightarrow> \<not> expired now r) \<and>
     (\<forall>x \<in> set (job_files db). jf_status x = JobFileInstalling \<longrightarrow> \<not> expired now x) \<and>
     (\<forall>x \<in> set (reference_files db). rf_status x = RefHashing \<longrightarrow> \<not> expired now x)"

lemma no_stale_Recover: "no_stale now (fst (Recover now db))"
  unfolding no_stale_def Recover_tables
  by (auto simp: ball_sql_update_iff recovered_file_def reclaims_block_def)

lemma Recover_no_stale:
  assumes stale: "no_stale now db"
  shows "fst (Recover now db) = db"
proof -
  have files: "files (fst (Recover now db)) = files db"
    unfolding Recover_tables using stale by (intro map_idI) (auto simp: no_stale_def recovered_file_def)
  have rest: "repos (fst (Recover now db)) = repos db" "job_files (fst (Recover now db)) = job_files db"
    "reference_files (fst (Recover now db)) = reference_files db"
    unfolding Recover_tables by (rule sql_update_id; use stale in \<open>simp add: no_stale_def\<close>)+
  have blocks: "blocks (fst (Recover now db)) = blocks db"
    unfolding Recover_tables using stale by (intro sql_update_id) (auto simp: no_stale_def reclaims_block_def)
  show ?thesis
    by (rule DB.equality) (simp_all only: files rest blocks Recover_tables(6-9), simp)
qed

section \<open>Terminal rows\<close>

text \<open>A job that is \<^verbatim>\<open>done\<close> or in \<^verbatim>\<open>error\<close> keeps its row; a file in \<^verbatim>\<open>error\<close> stays there.\<close>

definition keeps_terminal :: "DB \<Rightarrow> DB \<Rightarrow> bool" where
  "keeps_terminal db db' \<longleftrightarrow> {j \<in> set (jobs db). \<not> job_open j} \<subseteq> set (jobs db') \<and>
     (\<forall>f \<in> set (files db). f_status f = FileError \<longrightarrow>
        (\<exists>f' \<in> set (files db'). f_id f' = f_id f \<and> f_status f' = FileError))"

lemma keeps_terminal_trans: "keeps_terminal a b \<Longrightarrow> keeps_terminal b c \<Longrightarrow> keeps_terminal a c"
proof -
  assume *: "keeps_terminal a b" "keeps_terminal b c"
  have "\<exists>f' \<in> set (files c). f_id f' = f_id f \<and> f_status f' = FileError"
    if f: "f \<in> set (files a)" "f_status f = FileError" for f
  proof -
    from *(1) f obtain g where g: "g \<in> set (files b)" "f_id g = f_id f" "f_status g = FileError"
      unfolding keeps_terminal_def by blast
    with *(2) obtain h where "h \<in> set (files c)" "f_id h = f_id g" "f_status h = FileError"
      unfolding keeps_terminal_def by blast
    with g show ?thesis by auto
  qed
  moreover have "{j \<in> set (jobs a). \<not> job_open j} \<subseteq> set (jobs c)"
    using * unfolding keeps_terminal_def by blast
  ultimately show ?thesis by (simp add: keeps_terminal_def)
qed

lemma keeps_same: "jobs db' = jobs db \<Longrightarrow> files db' = files db \<Longrightarrow> keeps_terminal db db'"
  by (auto simp: keeps_terminal_def)

lemma keeps_jobs_update:
  "jobs db' = sql_update P g (jobs db) \<Longrightarrow> (\<And>j. P j \<Longrightarrow> job_open j) \<Longrightarrow> files db' = files db \<Longrightarrow> keeps_terminal db db'"
  by (force simp: keeps_terminal_def in_sql_update)

lemma keeps_files_update:
  "files db' = sql_update P g (files db) \<Longrightarrow> (\<And>f. P f \<Longrightarrow> f_status f \<noteq> FileError) \<Longrightarrow> jobs db' = jobs db \<Longrightarrow>
   keeps_terminal db db'"
  by (force simp: keeps_terminal_def in_sql_update)

lemma keeps_update_file:
  "update_file P g db = Inr db' \<Longrightarrow> (\<And>f. P f \<Longrightarrow> f_status f \<noteq> FileError) \<Longrightarrow> keeps_terminal db db'"
  by (rule keeps_files_update [of _ P g]) (auto simp: update_file_Inr)

lemma keeps_update_repo: "update_repo P g db = Inr db' \<Longrightarrow> keeps_terminal db db'"
  by (rule keeps_same) (auto simp: update_repo_Inr)

lemma keeps_update_reference: "update_reference P g db = Inr db' \<Longrightarrow> keeps_terminal db db'"
  by (rule keeps_same) (auto simp: update_reference_Inr)

lemma keeps_EnqueueJob: "EnqueueJob q now db = Inr (db', j) \<Longrightarrow> keeps_terminal db db'"
  by (erule EnqueueJob_Inr) (auto simp: keeps_terminal_def upsert_repo_def)

lemma keeps_meta:
  "LeaseMeta ow tok now db = Inr (db', r) \<Longrightarrow> keeps_terminal db db'"
  "SetCommitSHA i tok sha now db = Inr db' \<Longrightarrow> keeps_terminal db db'"
  "DeferMeta i tok av now db = Inr db' \<Longrightarrow> keeps_terminal db db'"
  "ReleaseMeta i tok ato c now db = Inr db' \<Longrightarrow> keeps_terminal db db'"
  by (auto simp: LeaseMeta_def SetCommitSHA_def DeferMeta_def ReleaseMeta_def update_repo_Inr
      intro!: keeps_same split: sum.splits)

lemma keeps_FailRepo: "FailRepo i tok c now db = Inr db' \<Longrightarrow> keeps_terminal db db'"
  by (rule keeps_jobs_update [where P = "\<lambda>j. j_repo_id j = i \<and> job_open j"])
    (auto simp: FailRepo_def update_repo_Inr split: sum.splits)

lemma upsert_file_status:
  assumes "f \<in> set t"
  shows "\<exists>f' \<in> set (fst (upsert_file i now e t)). f_id f' = f_id f \<and> f_status f' = f_status f"
proof (cases "find (\<lambda>f. f_repo_id f = i \<and> f_path f = fe_path e) t")
  case None
  then show ?thesis using assms by (auto simp: upsert_file_def Let_def)
next
  case (Some g)
  let ?g = "\<lambda>f. f\<lparr>f_size := fe_size e, f_git_oid := fe_git_oid e, f_sha256 := fe_sha256 e,
      f_xet_hash := fe_xet_hash e, f_is_lfs := fe_is_lfs e, updated_at := now\<rparr>"
  have "(if f_repo_id f = i \<and> f_path f = fe_path e then ?g f else f)
      \<in> set (sql_update (\<lambda>f. f_repo_id f = i \<and> f_path f = fe_path e) ?g t)"
    using assms unfolding in_sql_update by blast
  then show ?thesis using Some
    by (intro bexI [of _ "if f_repo_id f = i \<and> f_path f = fe_path e then ?g f else f"])
      (simp_all add: upsert_file_def)
qed

lemma keeps_listing_entry: "keeps_terminal db (listing_entry i now e db)"
  using upsert_file_status [of _ "files db" i now e]
  by (force simp: keeps_terminal_def listing_entry_def split: prod.splits)

lemma keeps_CompleteListing: "CompleteListing i tok es now db = Inr db' \<Longrightarrow> keeps_terminal db db'"
proof -
  have fold: "keeps_terminal db (foldl (\<lambda>d e. listing_entry i now e d) db es)" for db
    by (induction es arbitrary: db) (auto intro: keeps_same keeps_terminal_trans keeps_listing_entry)
  assume "CompleteListing i tok es now db = Inr db'"
  then show ?thesis
    by (auto simp: CompleteListing_def intro: keeps_terminal_trans [OF keeps_update_repo fold] split: sum.splits)
qed

lemma ensure_job_files_frame: "ensure_job_files now i ids db = Inr db' \<Longrightarrow> jobs db' = jobs db \<and> files db' = files db"
  by (induction now i ids db rule: ensure_job_files.induct) (auto split: if_splits)

lemma set_dests_frame: "set_dests now i ds db = Inr db' \<Longrightarrow> jobs db' = jobs db \<and> files db' = files db"
  by (induction now i ds db rule: set_dests.induct) (auto split: if_splits)

lemma keeps_job_files:
  "EnsureJobFiles i ids now db = Inr db' \<Longrightarrow> keeps_terminal db db'"
  "SetJobFileDests i ds now db = Inr db' \<Longrightarrow> keeps_terminal db db'"
  by (auto simp: EnsureJobFiles_def SetJobFileDests_def keeps_same ensure_job_files_frame set_dests_frame
      split: if_splits)

lemma keeps_FailJobFiles: "keeps_terminal db (FailJobFilesForFile i c now db)"
proof -
  have "{j \<in> set t. \<not> job_open j} \<subseteq> set (foldl (\<lambda>t i. sql_update (\<lambda>j. j_id j = i \<and> job_open j)
      (\<lambda>j. j\<lparr>j_status := JobError, j_last_error := c, j_updated_at := now\<rparr>) t) t is)" for t "is"
  proof (induction "is" arbitrary: t)
    case (Cons i "is")
    have "{j \<in> set t. \<not> job_open j} \<subseteq> set (sql_update (\<lambda>j. j_id j = i \<and> job_open j)
      (\<lambda>j. j\<lparr>j_status := JobError, j_last_error := c, j_updated_at := now\<rparr>) t)"
      by (force simp: in_sql_update)
    then show ?case using Cons.IH by fastforce
  qed auto
  then show ?thesis by (auto simp: keeps_terminal_def FailJobFilesForFile_def Let_def)
qed

lemma keeps_jobs:
  "FinishJob i c now db = Inr db' \<Longrightarrow> keeps_terminal db db'"
  "leaseInstall ow tok now mode db = Inr (db', x) \<Longrightarrow> keeps_terminal db db'"
proof -
  show "FinishJob i c now db = Inr db' \<Longrightarrow> keeps_terminal db db'"
    by (rule keeps_jobs_update [where P = "\<lambda>j. j_id j = i \<and> job_open j"
          and g = "\<lambda>j. j\<lparr>j_status := (if c = None then JobDone else JobError),
            j_last_error := coalesce c (j_last_error j), j_updated_at := now\<rparr>"])
      (auto simp: FinishJob_def split: if_splits)
  assume "leaseInstall ow tok now mode db = Inr (db', x)"
  then obtain i where "jobs db' = sql_update (\<lambda>j'. j_id j' = i \<and> j_status j' = JobQueued)
      (\<lambda>j'. j'\<lparr>j_status := JobRunning, j_updated_at := now\<rparr>) (jobs db)" "files db' = files db"
    by (auto simp: leaseInstall_def split: sum.splits option.splits)
  then show "keeps_terminal db db'"
    by (intro keeps_jobs_update [where P = "\<lambda>j'. j_id j' = i \<and> j_status j' = JobQueued"]) (auto simp: job_open_def)
qed

lemma keeps_CompleteInstall: "CompleteInstall i k tok c now db = Inr db' \<Longrightarrow> keeps_terminal db db'"
proof -
  assume "CompleteInstall i k tok c now db = Inr db'"
  then have "files db' = files db \<and> (jobs db' = jobs db \<or> jobs db' = sql_update (\<lambda>j. j_id j = i \<and> job_open j)
      (\<lambda>j. j\<lparr>j_status := JobDone, j_updated_at := now\<rparr>) (jobs db))"
    by (auto simp: CompleteInstall_def Let_def split: sum.splits if_splits)
  then show ?thesis by (auto intro: keeps_same keeps_jobs_update)
qed

lemma keeps_files:
  "LeaseFileForDownload ow tok i now db = Inr db' \<Longrightarrow> keeps_terminal db db'"
  "SaveProgress i tok blob now db = Inr db' \<Longrightarrow> keeps_terminal db db'"
  "CompleteVerify i tok path now db = Inr db' \<Longrightarrow> keeps_terminal db db'"
  "MarkCachedFromBlob i path now db = Inr db' \<Longrightarrow> keeps_terminal db db'"
  "MarkSalvaging i now db = Inr db' \<Longrightarrow> keeps_terminal db db'"
  unfolding LeaseFileForDownload_def SaveProgress_def CompleteVerify_def MarkCachedFromBlob_def MarkSalvaging_def
  by (erule keeps_update_file; auto simp: owned_guard_def)+

lemma keeps_Transition:
  "TransitionFile i tok frm to c now db = Inr db' \<Longrightarrow> driven_edge frm to \<Longrightarrow> keeps_terminal db db'"
  by (drule TransitionFile_Inr(1), erule keeps_update_file) (auto simp: file_guard_def driven_edge_def)

lemma keeps_claim:
  "claimOne k P Q g (files db) = Inr (t, x) \<Longrightarrow> (\<And>f. Q f \<Longrightarrow> f_status f \<noteq> FileError) \<Longrightarrow>
   keeps_terminal db (db\<lparr>files := t\<rparr>)"
proof -
  assume "claimOne k P Q g (files db) = Inr (t, x)" and Q: "\<And>f. Q f \<Longrightarrow> f_status f \<noteq> FileError"
  then obtain r where "t = sql_update (\<lambda>r'. k r' = k r \<and> Q r') g (files db)" by (auto simp: claimOne_Inr)
  then show ?thesis by (intro keeps_files_update [where P = "\<lambda>r'. k r' = k r \<and> Q r'"]) (auto dest: Q)
qed

lemma keeps_file_ops:
  "FinishDownloaded i tok now db = Inr db' \<Longrightarrow> keeps_terminal db db'"
  "IncrFileRetries i tok now db = Inr (db', n) \<Longrightarrow> keeps_terminal db db'"
  "LeaseVerify ow tok now db = Inr (db', f) \<Longrightarrow> keeps_terminal db db'"
  "LeaseSalvage ow tok now db = Inr (db', f) \<Longrightarrow> keeps_terminal db db'"
  "FailVerify i tok c now db = Inr db' \<Longrightarrow> keeps_terminal db db'"
proof -
  show "FinishDownloaded i tok now db = Inr db' \<Longrightarrow> keeps_terminal db db'"
    by (rule keeps_files_update [where P = "owned_guard i FileDownloading tok"])
      (auto simp: FinishDownloaded_def update_file_Inr owned_guard_def split: if_splits)
  show "IncrFileRetries i tok now db = Inr (db', n) \<Longrightarrow> keeps_terminal db db'"
    by (rule keeps_files_update [where P = "owned_guard i FileDownloading tok"])
      (auto simp: IncrFileRetries_def Let_def owned_guard_def split: option.splits)
  show "LeaseVerify ow tok now db = Inr (db', f) \<Longrightarrow> keeps_terminal db db'"
    by (auto simp: LeaseVerify_def elim!: keeps_claim split: sum.splits)
  show "LeaseSalvage ow tok now db = Inr (db', f) \<Longrightarrow> keeps_terminal db db'"
    by (auto simp: LeaseSalvage_def elim!: keeps_claim split: sum.splits)
  assume "FailVerify i tok c now db = Inr db'"
  then show "keeps_terminal db db'"
  proof (rule FailVerify_Inr)
    fix f
    assume "maxVerifyFails \<le> f_verify_fails f + 1 \<Longrightarrow> db' = db\<lparr>files := sql_update (owned_guard i FileVerifying tok)
         (\<lambda>f. (clear_lease (strike c now f))\<lparr>f_status := FileError, updated_at := now\<rparr>) (files db)\<rparr>"
      "\<not> maxVerifyFails \<le> f_verify_fails f + 1 \<Longrightarrow>
       db' = db\<lparr>blocks := sql_update (\<lambda>b. b_file_id b = i)
           (\<lambda>b. (clear_lease b)\<lparr>b_status := BlockPending, b_upstream := [],
              b_available_at := None, updated_at := now\<rparr>) (blocks db),
         files := sql_update (owned_guard i FileVerifying tok)
         (\<lambda>f. (clear_lease (strike c now f))\<lparr>f_status := FileQueued, f_progress := None,
            f_progress_ver := f_progress_ver (strike c now f) + 1, updated_at := now\<rparr>) (files db)\<rparr>"
    then have "jobs db' = jobs db \<and> (\<exists>g. files db' = sql_update (owned_guard i FileVerifying tok) g (files db))"
      by (cases "maxVerifyFails \<le> f_verify_fails f + 1") auto
    then show ?thesis by (auto simp: owned_guard_def elim!: keeps_files_update)
  qed
qed

lemma keeps_block_ops:
  "ReplacePendingBlocks i tok bs now db = Inr db' \<Longrightarrow> keeps_terminal db db'"
  "claim_block ow tok now i db = Some (db', b) \<Longrightarrow> keeps_terminal db db'"
  "RequeueBlock i tok av c now db = Inr (db', n) \<Longrightarrow> keeps_terminal db db'"
  "CompleteBlock i tok now db = Inr (db', d) \<Longrightarrow> keeps_terminal db db'"
  by (auto simp: ReplacePendingBlocks_def claim_block_def Let_def RequeueBlock_def CompleteBlock_def
      intro!: keeps_same split: if_splits sum.splits option.splits)

lemma keeps_reference_ops:
  "keeps_terminal db (AddReferenceFiles refs now db)"
  "InvalidateReference i now db = Inr db' \<Longrightarrow> keeps_terminal db db'"
  "CompleteReferenceHash i tok sha c now db = Inr db' \<Longrightarrow> keeps_terminal db db'"
  "LeaseReferenceHash ow tok now db = Inr (db', x) \<Longrightarrow> keeps_terminal db db'"
  by (auto simp: AddReferenceFiles_def InvalidateReference_def CompleteReferenceHash_def LeaseReferenceHash_def
      update_reference_Inr intro!: keeps_same split: sum.splits)

lemma keeps_RenewLease: "RenewLease kind i tok till now db = Inr db' \<Longrightarrow> keeps_terminal db db'"
proof (cases kind)
  case LeaseFile
  assume "RenewLease kind i tok till now db = Inr db'"
  then show ?thesis unfolding LeaseFile RenewLease.simps by (rule keeps_update_file) auto
qed (auto simp: update_repo_Inr update_reference_Inr intro!: keeps_same split: sum.splits)

lemma keeps_Recover: "Recover now db = (db', st) \<Longrightarrow> keeps_terminal db db'"
proof -
  assume "Recover now db = (db', st)"
  then have "jobs db' = jobs db" "files db' = map (recovered_file now) (files db)"
    using Recover_tables(1,6) [of now db] by simp_all
  moreover have "recovered_file now f = f" if "f_status f = FileError" for f
    using that by (simp add: recovered_file_def)
  ultimately show ?thesis by (force simp: keeps_terminal_def)
qed

lemma store_step_terminal: "store_step s s' \<Longrightarrow> keeps_terminal (fst s) (fst s')"
  by (induction rule: store_step.induct)
    (simp_all add: keeps_EnqueueJob keeps_meta keeps_FailRepo keeps_CompleteListing keeps_job_files
      keeps_FailJobFiles keeps_jobs keeps_CompleteInstall keeps_files keeps_Transition keeps_file_ops
      keeps_block_ops keeps_reference_ops keeps_RenewLease keeps_Recover)

section \<open>The claim loop\<close>

lemma claim_block_Some:
  assumes "claim_block ow tok now i db = Some (db', b)"
  shows "b_status b = BlockActive" "lease_token b = Some tok" "b_id b = i" "b \<in> set (blocks db')"
    "lease_until b = Some (now + leaseDuration)" "file_downloading db (b_file_id b)" "files db' = files db"
proof -
  from assms obtain b0 where
    f: "find (\<lambda>b. b_id b = i \<and> b_status b = BlockPending \<and> file_downloading db (b_file_id b)) (blocks db) = Some b0"
    and b: "b = (set_lease ow tok (now + leaseDuration) b0)\<lparr>b_status := BlockActive, updated_at := now\<rparr>"
    and db': "db' = db\<lparr>blocks := sql_update
      (\<lambda>b. b_id b = i \<and> b_status b = BlockPending \<and> file_downloading db (b_file_id b))
      (\<lambda>b. (set_lease ow tok (now + leaseDuration) b)\<lparr>b_status := BlockActive, updated_at := now\<rparr>) (blocks db)\<rparr>"
    by (auto simp: claim_block_def Let_def split: option.splits)
  have b0: "b0 \<in> set (blocks db)" "b_id b0 = i" "b_status b0 = BlockPending" "file_downloading db (b_file_id b0)"
    using find_SomeD [OF f] by auto
  show "b_status b = BlockActive" "lease_token b = Some tok" "b_id b = i"
    "lease_until b = Some (now + leaseDuration)" "file_downloading db (b_file_id b)" "files db' = files db"
    using b0 by (simp_all add: b db' set_lease_def)
  show "b \<in> set (blocks db')"
    unfolding db' b by (simp add: in_sql_update) (use b0 in force)
qed

text \<open>Whatever the other writers do, at most \<open>n\<close> blocks are claimed and each result carries its own lease.\<close>

lemma lease_loop_bound:
  assumes "lease_loop ow toks race now cap n k cs pf leased db = (db', res)" "length leased \<le> n"
    and "\<forall>(b, t) \<in> set leased. b_status b = BlockActive \<and> lease_token b = Some t \<and>
      lease_until b = Some (now + leaseDuration)"
  shows "length res \<le> n \<and> (\<forall>(b, t) \<in> set res. b_status b = BlockActive \<and> lease_token b = Some t \<and>
      lease_until b = Some (now + leaseDuration))"
  using assms
proof (induction ow toks race now cap n k cs pf leased db rule: lease_loop.induct)
  case (2 ow toks race now cap n k i fid cs pf leased db)
  show ?case
  proof (cases "n \<le> length leased")
    case True
    with "2.prems" show ?thesis by auto
  next
    case nonfull: False
    show ?thesis
    proof (cases "case cap fid of None \<Rightarrow> False | Some c \<Rightarrow> 0 < c \<and> c \<le> int (pf fid)")
      case True
      with nonfull "2.prems" show ?thesis by (intro "2.IH"(1)) auto
    next
      case uncapped: False
      show ?thesis
      proof (cases "claim_block ow (toks k) now i (race k db)")
        case None
        with nonfull uncapped "2.prems" show ?thesis by (intro "2.IH"(2)) auto
      next
        case (Some r)
        obtain db1 b where r: "r = (db1, b)" by force
        note b = claim_block_Some [OF Some [unfolded r]]
        show ?thesis
          using nonfull uncapped "2.prems" Some r b(1,2,5)
          by (intro "2.IH"(3) [OF nonfull uncapped Some r [symmetric]]) (auto simp: fun_upd_def)
      qed
    qed
  qed
qed auto

text \<open>Without interference every candidate can be claimed.\<close>

definition claimable :: "DB \<Rightarrow> (int \<times> int) list \<Rightarrow> bool" where
  "claimable db cs \<longleftrightarrow> distinct (map fst cs) \<and>
     (\<forall>(i, fid) \<in> set cs. \<exists>b \<in> set (blocks db). b_id b = i \<and> b_file_id b = fid \<and> b_status b = BlockPending \<and>
        file_downloading db fid)"

lemma claimable_claim:
  assumes ok: "store_ok db" and c: "claimable db ((i, fid) # cs)"
  obtains db1 b where "claim_block ow tok now i db = Some (db1, b)" "b_file_id b = fid"
    "claimable db1 cs" "store_ok db1" "\<And>b'. b' \<in> set (blocks db) \<Longrightarrow> b_id b' \<noteq> i \<Longrightarrow> b' \<in> set (blocks db1)"
proof -
  let ?P = "\<lambda>b. b_id b = i \<and> b_status b = BlockPending \<and> file_downloading db (b_file_id b)"
  let ?g = "\<lambda>b. (set_lease ow tok (now + leaseDuration) b)\<lparr>b_status := BlockActive, updated_at := now\<rparr>"
  from c obtain b0 where b0: "b0 \<in> set (blocks db)" "?P b0" "b_file_id b0 = fid"
    by (auto simp: claimable_def)
  then have "find ?P (blocks db) \<noteq> None" unfolding find_None_iff by blast
  then obtain b1 where f: "find ?P (blocks db) = Some b1" by blast
  have "b1 = b0"
    using table_ok_unique [OF store_okD(5) [OF ok], of b1 b0] find_SomeD [OF f] b0 by simp
  then have claim: "claim_block ow tok now i db = Some (db\<lparr>blocks := sql_update ?P ?g (blocks db)\<rparr>, ?g b0)"
    using f by (simp add: claim_block_def Let_def)
  have keep: "b' \<in> set (sql_update ?P ?g (blocks db))" if "b' \<in> set (blocks db)" "b_id b' \<noteq> i" for b'
    using that by (force simp: in_sql_update)
  have "claimable (db\<lparr>blocks := sql_update ?P ?g (blocks db)\<rparr>) cs"
    using c keep unfolding claimable_def file_downloading_def by (fastforce simp: image_iff)
  then show thesis
    using that [OF claim] b0 claim_block_ok [OF ok claim] keep by (simp add: set_lease_def)
qed

definition claimed_of :: "int \<Rightarrow> (Block \<times> LeaseToken) list \<Rightarrow> nat" where
  "claimed_of fid res = length (filter (\<lambda>(b, t). b_file_id b = fid) res)"

lemma lease_loop_seq:
  assumes "lease_loop ow toks (\<lambda>_ d. d) now cap n k cs pf leased db = (db', res)"
    and "store_ok db" "claimable db cs" "length leased \<le> n" "\<forall>fid. pf fid = claimed_of fid leased"
    and "\<forall>(b, t) \<in> set leased. b \<in> set (blocks db) \<and> b_id b \<notin> fst ` set cs"
    and "distinct (map (\<lambda>x. b_id (fst x)) leased)"
    and "\<forall>fid c. cap fid = Some c \<longrightarrow> 0 < c \<longrightarrow> int (claimed_of fid leased) \<le> c"
  shows "store_ok db' \<and> distinct (map (\<lambda>x. b_id (fst x)) res) \<and> (\<forall>(b, t) \<in> set res. b \<in> set (blocks db')) \<and>
    set (map (\<lambda>x. b_file_id (fst x)) res) \<subseteq> set (map (\<lambda>x. b_file_id (fst x)) leased) \<union> snd ` set cs \<and>
    (\<forall>fid c. cap fid = Some c \<longrightarrow> 0 < c \<longrightarrow> int (claimed_of fid res) \<le> c) \<and>
    ((\<forall>fid. cap fid = None) \<longrightarrow> length res = min n (length leased + length cs))"
  using assms
proof (induction cs arbitrary: k pf leased db)
  case Nil
  then show ?case by (auto simp: min_def)
next
  case (Cons c cs)
  obtain i fid where c: "c = (i, fid)" by force
  show ?case
  proof (cases "n \<le> length leased")
    case True
    with Cons.prems show ?thesis by (auto simp: c min_def)
  next
    case nonfull: False
    show ?thesis
    proof (cases "case cap fid of None \<Rightarrow> False | Some c \<Rightarrow> 0 < c \<and> c \<le> int (pf fid)")
      case True
      have cl: "claimable db cs" using Cons.prems(3) by (auto simp: claimable_def)
      have capped: "\<not> (\<forall>fid. cap fid = None)" using True by (auto split: option.splits)
      have step: "lease_loop ow toks (\<lambda>_ d. d) now cap n (k + 1) cs pf leased db = (db', res)"
        using Cons.prems(1) nonfull True by (simp add: c)
      have old: "\<forall>(b, t) \<in> set leased. b \<in> set (blocks db) \<and> b_id b \<notin> fst ` set cs"
        using Cons.prems(6) by fastforce
      show ?thesis
        using Cons.IH [OF step Cons.prems(2) cl Cons.prems(4,5) old Cons.prems(7,8)] capped by auto
    next
      case uncapped: False
      obtain db1 b where claim: "claim_block ow (toks k) now i db = Some (db1, b)" and b: "b_file_id b = fid"
        and db1: "claimable db1 cs" "store_ok db1"
        and keep: "\<And>b'. b' \<in> set (blocks db) \<Longrightarrow> b_id b' \<noteq> i \<Longrightarrow> b' \<in> set (blocks db1)"
        using claimable_claim [OF Cons.prems(2), of i fid cs ow "toks k" now] Cons.prems(3) unfolding c by blast
      note cb = claim_block_Some [OF claim]
      have i: "i \<notin> fst ` set cs" using Cons.prems(3) by (auto simp: claimable_def c)
      have step: "lease_loop ow toks (\<lambda>_ d. d) now cap n (k + 1) cs (pf(fid := pf fid + 1))
          (leased @ [(b, toks k)]) db1 = (db', res)"
        using Cons.prems(1) nonfull uncapped claim by (simp add: c)
      have cnt: "claimed_of g (leased @ [(b, toks k)]) = claimed_of g leased + (if g = fid then 1 else 0)" for g
        by (simp add: claimed_of_def b)
      have le: "b' \<in> set (blocks db) \<and> b_id b' \<noteq> i \<and> b_id b' \<notin> fst ` set cs" if "(b', t) \<in> set leased" for b' t
        using Cons.prems(6) that by (auto simp: c)
      have old: "\<forall>(b', t) \<in> set (leased @ [(b, toks k)]). b' \<in> set (blocks db1) \<and> b_id b' \<notin> fst ` set cs"
        using le keep cb(3,4) i by auto
      have "i \<notin> (\<lambda>x. b_id (fst x)) ` set leased" using le by force
      then have dist: "distinct (map (\<lambda>x. b_id (fst x)) (leased @ [(b, toks k)]))"
        using Cons.prems(7) cb(3) by (simp add: o_def)
      have caps: "int (claimed_of g (leased @ [(b, toks k)])) \<le> m" if "cap g = Some m" "0 < m" for g m
        using Cons.prems(5,8) that uncapped by (cases "g = fid") (auto simp: cnt)
      have "store_ok db' \<and> distinct (map (\<lambda>x. b_id (fst x)) res) \<and> (\<forall>(b, t) \<in> set res. b \<in> set (blocks db')) \<and>
        set (map (\<lambda>x. b_file_id (fst x)) res) \<subseteq>
          set (map (\<lambda>x. b_file_id (fst x)) (leased @ [(b, toks k)])) \<union> snd ` set cs \<and>
        (\<forall>fid c. cap fid = Some c \<longrightarrow> 0 < c \<longrightarrow> int (claimed_of fid res) \<le> c) \<and>
        ((\<forall>fid. cap fid = None) \<longrightarrow> length res = min n (length (leased @ [(b, toks k)]) + length cs))"
        using Cons.prems(5) nonfull caps
        by (intro Cons.IH [OF step db1(2,1) _ _ old dist]) (auto simp: cnt)
      then show ?thesis using b by (auto simp: c)
    qed
  qed
qed

lemma claimable_candidates:
  assumes "store_ok db"
  shows "claimable db (lease_candidates flt now db)"
proof -
  have inj: "inj_on b_id (set (blocks db))"
    using store_okD(5) [OF assms] by (simp add: table_ok_def distinct_map)
  have bl: "distinct (blocks db)" using store_okD(5) [OF assms] by (simp add: table_ok_def distinct_map)
  have "distinct (map fst (lease_candidates flt now db))"
    unfolding lease_candidates_def map_map o_def fst_conv
    using bl inj by (auto simp: distinct_map inj_on_def)
  then show ?thesis by (auto simp: claimable_def lease_candidates_def)
qed

lemma sql_count_unique:
  assumes "distinct t" "r \<in> set t" "P r" "\<And>r'. r' \<in> set t \<Longrightarrow> P r' \<Longrightarrow> r' = r"
  shows "sql_count P t = 1"
proof -
  have "set (filter P t) = {r}" using assms(2-4) unfolding set_filter by blast
  then show ?thesis
    using assms(1) distinct_card [of "filter P t"] by (simp add: sql_count_def)
qed

lemma table_ok_distinct: "table_ok i k p t \<Longrightarrow> distinct t"
  by (simp add: table_ok_def distinct_map)

section \<open>A database for the witnesses\<close>

definition demo_file :: "FileStatus \<Rightarrow> LeaseToken option \<Rightarrow> File" where
  "demo_file st tok = (new_file 1 1 0 \<lparr>fe_path = ''w.bin'', fe_size = 20, fe_git_oid = ''o'',
     fe_sha256 = ''s'', fe_xet_hash = '''', fe_is_lfs = True\<rparr>)
     \<lparr>f_status := st, lease_owner := map_option (\<lambda>_. ''me'') tok, lease_token := tok,
      lease_until := map_option (\<lambda>_. 100) tok\<rparr>"

definition demo_block :: "int \<Rightarrow> BlockStatus \<Rightarrow> LeaseToken option \<Rightarrow> Block" where
  "demo_block i st tok = (new_block i 0 1 (i, 10 * (i - 1), 10))
     \<lparr>b_status := st, lease_owner := map_option (\<lambda>_. ''me'') tok, lease_token := tok,
      lease_until := map_option (\<lambda>_. 100) tok\<rparr>"

definition demo_db :: "File \<Rightarrow> Block list \<Rightarrow> DB" where
  "demo_db f bs = empty_db\<lparr>repos := [new_repo 1 0 (''model'', ''a/b'', ''main'', ''ep'')],
     jobs := [\<lparr>j_id = 1, j_repo_id = 1, j_filenames = '''', j_include = '''', j_exclude = '''',
       j_dest_mode = ''cache'', j_dest_dir = ''d'', j_status = JobQueued, j_last_error = None,
       j_created_at = 0, j_updated_at = 0\<rparr>],
     files := [f], job_files := [new_job_file 0 1 1], blocks := bs\<rparr>"

lemmas demo_defs = demo_db_def demo_file_def demo_block_def new_file_def new_block_def new_repo_def
  new_job_file_def empty_db_def

lemma demo_ok:
  "store_ok (demo_db (demo_file FileDownloading (Some ''t'')) [demo_block 1 BlockDone None, demo_block 2 BlockPending None])"
  "store_ok (demo_db (demo_file FileVerifying (Some ''t'')) [demo_block 1 BlockDone None])"
  by (auto simp: store_ok_def table_ok_def demo_defs row_ok_defs key_defs maxVerifyFails_def)

section \<open>Properties\<close>

text \<open>C1: Every database the store can reach from the empty one, by any sequence of its operations with
  fresh claim tokens, is consistent: primary and unique keys hold, a row carries a lease exactly
  when its status is a claimed one (a salvaging file may or may not), and no file has more than
  two verify failures, the second of which leaves it in \<^verbatim>\<open>error\<close>.\<close>

theorem reachable_store_ok: "store_step\<^sup>*\<^sup>* (empty_db, {}) s \<Longrightarrow> store_ok (fst s)"
  by (erule ok.inv_run) (simp add: store_ok_def table_ok_def empty_db_def)

theorem reachable_store_ok_witness:
  "\<exists>db. store_step\<^sup>*\<^sup>* (empty_db, {}) (db, {''t''}) \<and> store_ok db \<and> map lease_token (repos db) = [Some ''t'']"
proof -
  let ?q = "\<lparr>q_filenames = '''', q_include = '''', q_exclude = '''', q_dest_mode = ''cache'', q_dest_dir = ''d'',
    q_status = None, q_repo = Some ('''', ''a/b'', '''', ''ep'')\<rparr>"
  have "case EnqueueJob ?q 5 empty_db of Inl _ \<Rightarrow> False | Inr d \<Rightarrow>
      (case LeaseMeta ''me'' ''t'' 7 (fst d) of Inl _ \<Rightarrow> False
       | Inr e \<Rightarrow> map lease_token (repos (fst e)) = [Some ''t''])" by code_simp
  then obtain db1 j db2 where 1: "EnqueueJob ?q 5 empty_db = Inr (db1, j)"
    and 2: "LeaseMeta ''me'' ''t'' 7 db1 = Inr db2" and t: "map lease_token (repos (fst db2)) = [Some ''t'']"
    by (auto split: sum.splits)
  have run: "store_step\<^sup>*\<^sup>* (empty_db, {}) (fst db2, {''t''})"
  proof -
    have "store_step (empty_db, {}) (db1, {})" by (rule store_step.enqueue [OF 1])
    moreover have "store_step (db1, {}) (fst db2, {''t''})"
      using store_step.lease_meta [of "''me''" "''t''" 7 db1 "fst db2" "snd db2" "{}"] 2 by simp
    ultimately show ?thesis by (meson converse_rtranclp_into_rtranclp r_into_rtranclp)
  qed
  show ?thesis using reachable_store_ok [OF run] run t by auto
qed

text \<open>C2: Fencing. When \<^verbatim>\<open>Recover\<close> reclaims an expired file lease, the old token is dead: whatever
  the store does afterwards, every guarded operation of the old owner on that file fails with
  \<^verbatim>\<open>ErrFenced\<close> and changes nothing.\<close>

theorem reclaimed_lease_is_fenced:
  assumes "store_ok db" "f \<in> set (files db)" "lease_token f = Some tok" "tok \<noteq> ''''" "expired now f" "tok \<in> u"
    and "store_step\<^sup>*\<^sup>* (fst (Recover now db), u) (db', u')"
  shows "SaveProgress (f_id f) tok blob now' db' = Inl ErrFenced \<and>
    FinishDownloaded (f_id f) tok now' db' = Inl ErrFenced \<and>
    TransitionFile (f_id f) tok frm to c now' db' = Inl ErrFenced \<and>
    ReplacePendingBlocks (f_id f) tok bs now' db' = Inl ErrFenced \<and>
    CompleteVerify (f_id f) tok path now' db' = Inl ErrFenced \<and>
    FailVerify (f_id f) tok c now' db' = Inl ErrFenced \<and>
    IncrFileRetries (f_id f) tok now' db' = Inl ErrFenced \<and>
    RenewLease LeaseFile (f_id f) tok till now' db' = Inl ErrFenced"
proof -
  have files: "files_ok (files db)" using assms(1) by (rule store_okD)
  have "lease_token (recovered_file now g) \<noteq> Some tok" if "g \<in> set (files db)" "f_id g = f_id f" for g
  proof -
    have "g = f" using table_ok_unique [OF files that(1) assms(2)] that(2) by simp
    then show ?thesis
      using table_okD [OF files assms(2)] assms(3,5) by (auto simp: recovered_file_def file_ok_def clear_lease_def)
  qed
  moreover have "f_id (recovered_file now g) = f_id g" for g by (simp add: recovered_file_def clear_lease_def)
  ultimately have "lost_file (f_id f) tok (fst (Recover now db), u)"
    using assms(6) by (auto simp: lost_file_def tokens_of_def Recover_tables)
  then have "lost_file (f_id f) tok (db', u')" by (rule lost_f.inv_run [OF assms(7)])
  then show ?thesis using assms(4) by (simp add: lost_file_fenced del: RenewLease.simps)
qed

theorem reclaimed_lease_is_fenced_witness:
  "let db = demo_db (demo_file FileVerifying (Some ''t'')) [demo_block 1 BlockDone None];
       db1 = fst (Recover 200 db)
   in map f_status (files db1) = [FileDownloaded] \<and>
      (\<exists>db2. LeaseVerify ''you'' ''t2'' 200 db1 = Inr db2 \<and> CompleteVerify 1 ''t'' ''p'' 201 (fst db2) = Inl ErrFenced \<and>
         isl (CompleteVerify 1 ''t2'' ''p'' 201 (fst db2)) = False)"
proof -
  let ?f = "demo_file FileVerifying (Some ''t'')"
  let ?db = "demo_db ?f [demo_block 1 BlockDone None]"
  have st: "map f_status (files (fst (Recover 200 ?db))) = [FileDownloaded]" by code_simp
  obtain db2 where l: "LeaseVerify ''you'' ''t2'' 200 (fst (Recover 200 ?db)) = Inr db2"
    and ok: "isl (CompleteVerify 1 ''t2'' ''p'' 201 (fst db2)) = False"
  proof -
    have "case LeaseVerify ''you'' ''t2'' 200 (fst (Recover 200 ?db)) of Inl e \<Rightarrow> False
        | Inr d \<Rightarrow> isl (CompleteVerify 1 ''t2'' ''p'' 201 (fst d)) = False" by code_simp
    then show thesis using that by (auto split: sum.splits)
  qed
  have "store_step\<^sup>*\<^sup>* (fst (Recover 200 ?db), {''t''}) (fst db2, {''t2'', ''t''})"
    using store_step.lease_verify [of "''you''" "''t2''" 200 "fst (Recover 200 ?db)" "fst db2" "snd db2" "{''t''}"] l
    by (intro r_into_rtranclp) simp
  from reclaimed_lease_is_fenced [OF demo_ok(2) _ _ _ _ _ this, of ?f "''t''"]
  have "CompleteVerify 1 ''t'' ''p'' 201 (fst db2) = Inl ErrFenced"
    by (simp add: demo_db_def demo_file_def new_file_def expired_def)
  then show ?thesis unfolding Let_def using st l ok by blast
qed




text \<open>C4: A file leaves \<^verbatim>\<open>downloading\<close> for \<^verbatim>\<open>downloaded\<close> exactly when all its blocks are done. A live
  block lease is reported first, then an unfinished block; on success only that file's row changes
  and its lease is released.\<close>

theorem TransitionFile_downloaded:
  assumes "store_ok db" "f \<in> set (files db)" "f_status f = FileDownloading" "lease_token f = Some tok" "tok \<noteq> ''''"
  shows "TransitionFile (f_id f) tok FileDownloading FileDownloaded c now db =
    (if \<exists>b \<in> set (blocks db). b_file_id b = f_id f \<and> b_status b = BlockActive \<and> live now b
     then Inl ErrLiveBlockLeases
     else if \<exists>b \<in> set (blocks db). b_file_id b = f_id f \<and> b_status b \<noteq> BlockDone then Inl ErrBlocksPending
     else Inr (db\<lparr>files := map (\<lambda>g. if g = f
       then (clear_lease f)\<lparr>f_status := FileDownloaded, f_last_error := c, updated_at := now\<rparr> else g) (files db)\<rparr>))"
proof -
  have g: "file_guard (f_id f) FileDownloading tok f" using assms by (simp add: file_guard_def)
  have uniq: "file_guard (f_id f) FileDownloading tok h \<longleftrightarrow> h = f" if "h \<in> set (files db)" for h
    using table_ok_unique [OF store_okD(3) [OF assms(1)] that assms(2)] g by (auto simp: file_guard_def)
  have ex: "\<exists>h \<in> set (files db). file_guard (f_id f) FileDownloading tok h" using assms(2) g by blast
  have upd: "sql_update (file_guard (f_id f) FileDownloading tok) k (files db)
      = map (\<lambda>h. if h = f then k f else h) (files db)" for k
    by (auto simp: sql_update_def uniq)
  have "update_file (file_guard (f_id f) FileDownloading tok) k db =
      Inr (db\<lparr>files := map (\<lambda>h. if h = f then k f else h) (files db)\<rparr>)" for k
    using sql_count_unique [where P = "file_guard (f_id f) FileDownloading tok",
        OF table_ok_distinct [OF store_okD(3) [OF assms(1)]] assms(2) g] uniq
    by (simp add: update_file_Inr upd)
  then show ?thesis
    using ex assms(5) unfolding TransitionFile_def sql_count_pos by (simp cong: if_cong)
qed

theorem TransitionFile_downloaded_witness:
  "TransitionFile 1 ''t'' FileDownloading FileDownloaded None 50
     (demo_db (demo_file FileDownloading (Some ''t'')) [demo_block 1 BlockDone None, demo_block 2 BlockPending None])
   = Inl ErrBlocksPending"
  using TransitionFile_downloaded [OF demo_ok(1), of "demo_file FileDownloading (Some ''t'')" "''t''" None 50]
  by (simp add: demo_defs)

text \<open>C5: The verify ladder has two rungs. The first failure requeues the file from scratch (progress
  dropped under a new version, every block pending and unleased); the second one ends in
  \<^verbatim>\<open>error\<close>. No third failure is possible.\<close>

theorem FailVerify_ladder:
  assumes "store_ok db" "f \<in> set (files db)" "owned_guard (f_id f) FileVerifying tok f"
    and "FailVerify (f_id f) tok c now db = Inr db'"
  shows "(f_verify_fails f = 0 \<or> f_verify_fails f = 1) \<and>
    (\<exists>f' \<in> set (files db'). f_id f' = f_id f \<and> f_verify_fails f' = f_verify_fails f + 1 \<and> lease_token f' = None \<and>
       f_last_error f' = c \<and>
       (if f_verify_fails f = 0
        then f_status f' = FileQueued \<and> f_progress f' = None \<and> f_progress_ver f' = f_progress_ver f + 1 \<and>
          (\<forall>b \<in> set (blocks db'). b_file_id b = f_id f \<longrightarrow> b_status b = BlockPending \<and> lease_token b = None)
        else f_status f' = FileError \<and> blocks db' = blocks db))"
proof -
  let ?g = "owned_guard (f_id f) FileVerifying tok"
  note files = store_okD(3) [OF assms(1)]
  have "find ?g (files db) \<noteq> None" using assms(2,3) unfolding find_None_iff by blast
  then obtain h where h: "find ?g (files db) = Some h" by blast
  have hf: "h = f" using owned_guard_unique [OF files assms(2,3)] find_SomeD [OF h] by blast
  have r3: "maxVerifyFails \<le> f_verify_fails f + 1 \<Longrightarrow>
      files db' = sql_update ?g (\<lambda>f. (clear_lease (strike c now f))\<lparr>f_status := FileError, updated_at := now\<rparr>) (files db) \<and>
      blocks db' = blocks db"
    and r4: "\<not> maxVerifyFails \<le> f_verify_fails f + 1 \<Longrightarrow>
      files db' = sql_update ?g (\<lambda>f. (clear_lease (strike c now f))\<lparr>f_status := FileQueued, f_progress := None,
          f_progress_ver := f_progress_ver (strike c now f) + 1, updated_at := now\<rparr>) (files db) \<and>
      blocks db' = sql_update (\<lambda>b. b_file_id b = f_id f) (\<lambda>b. (clear_lease b)\<lparr>b_status := BlockPending,
          b_upstream := '''', b_available_at := None, updated_at := now\<rparr>) (blocks db)"
    using assms(4) by (simp_all add: FailVerify_def Let_def h hf update_file_Inr strike_compose flip: strike_def)
  have fails: "f_verify_fails f = 0 \<or> f_verify_fails f = 1"
    using verify_fails_step [OF table_okD [OF files assms(2)]] assms(3)
    by (auto simp: owned_guard_def maxVerifyFails_def)
  have mem: "k f \<in> set (sql_update (owned_guard (f_id f) FileVerifying tok) k (files db))" for k
    using assms(2,3) by (force simp: in_sql_update)
  show ?thesis
  proof (cases "f_verify_fails f = 0")
    case True
    show ?thesis
      using True fails r4 mem
      by (auto simp: maxVerifyFails_def strike_def clear_lease_def ball_sql_update_iff intro!: bexI [OF _ mem])
  next
    case False
    then show ?thesis
      using fails r3
      by (auto simp: maxVerifyFails_def strike_def clear_lease_def intro!: bexI [OF _ mem])
  qed
qed

theorem FailVerify_ladder_witness:
  "let db = demo_db (demo_file FileVerifying (Some ''t'')) [demo_block 1 BlockDone None]
   in \<exists>db'. FailVerify 1 ''t'' (Some ''sha'') 50 db = Inr db' \<and>
     (\<exists>f \<in> set (files db'). f_status f = FileQueued \<and> f_verify_fails f = 1)"
proof -
  let ?f = "demo_file FileVerifying (Some ''t'')"
  let ?db = "demo_db ?f [demo_block 1 BlockDone None]"
  have "\<not> isl (FailVerify 1 ''t'' (Some ''sha'') 50 ?db)" by code_simp
  then obtain db' where r: "FailVerify 1 ''t'' (Some ''sha'') 50 ?db = Inr db'"
    by (cases "FailVerify 1 ''t'' (Some ''sha'') 50 ?db") auto
  have f: "f_id ?f = 1" "f_verify_fails ?f = 0" by code_simp+
  have "owned_guard 1 FileVerifying ''t'' ?f" "?f \<in> set (files ?db)" by code_simp+
  with FailVerify_ladder [OF demo_ok(2), of ?f "''t''" "Some ''sha''" 50 db'] r f
  show ?thesis unfolding Let_def by auto
qed

text \<open>C7: Terminal rows are final. Over any run of the store, a finished or failed job keeps its row
  byte for byte, and a file in \<^verbatim>\<open>error\<close> never leaves it.\<close>

theorem terminal_rows_are_final:
  assumes "store_step\<^sup>*\<^sup>* s s'"
  shows "(\<forall>j \<in> set (jobs (fst s)). \<not> job_open j \<longrightarrow> j \<in> set (jobs (fst s'))) \<and>
    (\<forall>f \<in> set (files (fst s)). f_status f = FileError \<longrightarrow>
       (\<exists>f' \<in> set (files (fst s')). f_id f' = f_id f \<and> f_status f' = FileError))"
proof -
  have "keeps_terminal (fst s) (fst s')"
    using assms
    by (induction rule: rtranclp_induct)
      (auto intro: keeps_terminal_trans store_step_terminal simp: keeps_same)
  then show ?thesis by (auto simp: keeps_terminal_def)
qed

theorem terminal_rows_are_final_witness:
  "let db = demo_db ((demo_file FileVerifying (Some ''t''))\<lparr>f_verify_fails := 1\<rparr>) [demo_block 1 BlockDone None]
   in \<exists>db1 db2. FailVerify 1 ''t'' (Some ''sha'') 50 db = Inr db1 \<and> Recover 999 db1 = db2 \<and>
     (\<exists>f \<in> set (files (fst db2)). f_id f = 1 \<and> f_status f = FileError)"
proof -
  let ?db = "demo_db ((demo_file FileVerifying (Some ''t''))\<lparr>f_verify_fails := 1\<rparr>) [demo_block 1 BlockDone None]"
  have "case FailVerify 1 ''t'' (Some ''sha'') 50 ?db of Inl _ \<Rightarrow> False
      | Inr d \<Rightarrow> \<exists>f \<in> set (files d). f_id f = 1 \<and> f_status f = FileError" by code_simp
  then obtain db1 f where r: "FailVerify 1 ''t'' (Some ''sha'') 50 ?db = Inr db1"
    and f: "f \<in> set (files db1)" "f_id f = 1" "f_status f = FileError"
    by (auto split: sum.splits)
  have "store_step (db1, {}) (fst (Recover 999 db1), {})"
    by (rule store_step.recover [where st = "snd (Recover 999 db1)"]) simp
  then have "store_step\<^sup>*\<^sup>* (db1, {}) (fst (Recover 999 db1), {})" ..
  from terminal_rows_are_final [OF this] f
  have "\<exists>f' \<in> set (files (fst (Recover 999 db1))). f_id f' = 1 \<and> f_status f' = FileError" by fastforce
  then show ?thesis unfolding Let_def using r by blast
qed

text \<open>C8: Completing a block reports the file as finished exactly when it was the last open block of
  its file: the block's own row turns \<^verbatim>\<open>done\<close>, every other row is untouched, and the flag is the
  conjunction over the file's blocks.\<close>

theorem CompleteBlock_last:
  assumes "store_ok db" "b \<in> set (blocks db)" "b_status b = BlockActive" "lease_token b = Some tok"
  shows "CompleteBlock (b_id b) tok now db =
    Inr (db\<lparr>blocks := map (\<lambda>x. if x = b then (clear_lease b)\<lparr>b_status := BlockDone, updated_at := now\<rparr> else x) (blocks db)\<rparr>,
         \<forall>x \<in> set (blocks db). b_file_id x = b_file_id b \<and> x \<noteq> b \<longrightarrow> b_status x = BlockDone)"
proof -
  let ?g = "\<lambda>b. (clear_lease b)\<lparr>b_status := BlockDone, updated_at := now\<rparr>"
  note ok = store_okD(5) [OF assms(1)]
  have id: "x = b" if "x \<in> set (blocks db)" "b_id x = b_id b" for x
    using table_ok_unique [OF ok that(1) assms(2)] that(2) by simp
  have guard: "block_guard (b_id b) tok x \<longleftrightarrow> x = b" if "x \<in> set (blocks db)" for x
    using id [OF that] assms(3,4) by (auto simp: block_guard_def)
  have upd: "sql_update (block_guard (b_id b) tok) ?g (blocks db) = map (\<lambda>x. if x = b then ?g b else x) (blocks db)"
    by (auto simp: sql_update_def guard)
  have "sql_count (block_guard (b_id b) tok) (blocks db) = 1"
    by (rule sql_count_unique [OF table_ok_distinct [OF ok] assms(2)]) (use guard assms(2) in auto)
  then have exec: "execGuarded (block_guard (b_id b) tok) ?g (blocks db) = Inr (map (\<lambda>x. if x = b then ?g b else x) (blocks db))"
    by (simp add: execGuarded_def upd)
  let ?t = "map (\<lambda>x. if x = b then ?g b else x) (blocks db)"
  have ids: "b_id (?g b) = b_id b" "b_file_id (?g b) = b_file_id b" by (simp_all add: clear_lease_def)
  have "find (\<lambda>x. b_id x = b_id b) ?t \<noteq> None"
    using assms(2) ids unfolding find_None_iff by force
  then obtain y where y: "find (\<lambda>x. b_id x = b_id b) ?t = Some y" by blast
  have "y = ?g b"
    using find_SomeD [OF y] id by (auto split: if_splits)
  moreover have "sql_count (\<lambda>x. b_file_id x = b_file_id b \<and> b_status x \<noteq> BlockDone) ?t = 0 \<longleftrightarrow>
      (\<forall>x \<in> set (blocks db). b_file_id x = b_file_id b \<and> x \<noteq> b \<longrightarrow> b_status x = BlockDone)"
    by (auto simp: sql_count_0)
  ultimately show ?thesis
    using y exec ids(2) by (simp add: CompleteBlock_def)
qed

theorem CompleteBlock_last_witness:
  "let b = demo_block 2 BlockActive (Some ''b'');
       db = demo_db (demo_file FileDownloading (Some ''t'')) [demo_block 1 BlockDone None, b]
   in \<exists>db'. CompleteBlock 2 ''b'' 60 db = Inr (db', True) \<and> map b_status (blocks db') = [BlockDone, BlockDone]"
proof -
  let ?b = "demo_block 2 BlockActive (Some ''b'')"
  let ?db = "demo_db (demo_file FileDownloading (Some ''t'')) [demo_block 1 BlockDone None, ?b]"
  have "store_ok ?db"
    by (auto simp: store_ok_def table_ok_def demo_defs row_ok_defs key_defs maxVerifyFails_def)
  from CompleteBlock_last [OF this, of ?b "''b''" 60] show ?thesis
    by (simp add: demo_defs clear_lease_def)
qed

text \<open>Completing an install finishes its job exactly when it was the last one. With no error the
  job becomes \<^verbatim>\<open>done\<close> if and only if every other file of the job is done; with an error the jobs are
  untouched.\<close>

lemma CompleteInstall_job:
  assumes "store_ok db" "x \<in> set (job_files db)" "jf_status x = JobFileInstalling" "lease_token x = Some tok"
  shows "\<exists>db'. CompleteInstall (jf_job_id x) (jf_file_id x) tok err now db = Inr db' \<and>
    job_files db' = map (\<lambda>y. if y = x then (clear_lease x)\<lparr>jf_status := if err = None then JobFileDone else JobFileError,
      jf_last_error := err, updated_at := now\<rparr> else y) (job_files db) \<and>
    jobs db' = (if err = None \<and> (\<forall>y \<in> set (job_files db). jf_job_id y = jf_job_id x \<and> y \<noteq> x \<longrightarrow> jf_status y = JobFileDone)
      then sql_update (\<lambda>j. j_id j = jf_job_id x \<and> job_open j) (\<lambda>j. j\<lparr>j_status := JobDone, j_updated_at := now\<rparr>) (jobs db)
      else jobs db)"
proof -
  let ?P = "\<lambda>y. jf_job_id y = jf_job_id x \<and> jf_file_id y = jf_file_id x \<and> jf_status y = JobFileInstalling \<and>
      lease_token y = Some tok"
  let ?st = "if err = None then JobFileDone else JobFileError"
  let ?g = "\<lambda>y. (clear_lease y)\<lparr>jf_status := ?st, jf_last_error := err, updated_at := now\<rparr>"
  note ok = store_okD(4) [OF assms(1)]
  have P: "?P y \<longleftrightarrow> y = x" if "y \<in> set (job_files db)" for y
    using ok that assms(2-4) by (auto simp: table_ok_def distinct_map inj_on_def key_defs)
  have "sql_count ?P (job_files db) = 1"
    by (rule sql_count_unique [where P = ?P, OF table_ok_distinct [OF ok] assms(2)]) (use P assms(2-4) in auto)
  moreover have upd: "sql_update ?P ?g (job_files db) = map (\<lambda>y. if y = x then ?g x else y) (job_files db)"
    by (auto simp: sql_update_def P)
  ultimately have exec: "execGuarded ?P ?g (job_files db) = Inr (map (\<lambda>y. if y = x then ?g x else y) (job_files db))"
    by (simp add: execGuarded_def)
  have all: "sql_count (\<lambda>y. jf_job_id y = jf_job_id x \<and> jf_status y \<noteq> JobFileDone)
        (map (\<lambda>y. if y = x then ?g x else y) (job_files db)) = 0 \<longleftrightarrow>
      (\<forall>y \<in> set (job_files db). jf_job_id y = jf_job_id x \<and> y \<noteq> x \<longrightarrow> jf_status y = JobFileDone)"
    if "err = None"
    using that assms(2) by (auto simp: sql_count_0 clear_lease_def)
  show ?thesis
    unfolding CompleteInstall_def Let_def exec sum.case
    using all by (cases err) auto
qed

lemma CompleteInstall_job_example:
  "let db = (demo_db (demo_file FileCached None) [])\<lparr>job_files :=
        [(new_job_file 0 1 1)\<lparr>jf_status := JobFileInstalling, lease_owner := Some ''me'', lease_token := Some ''i'', lease_until := Some 90\<rparr>]\<rparr>
   in \<exists>db'. CompleteInstall 1 1 ''i'' None 60 db = Inr db' \<and> map j_status (jobs db') = [JobDone]"
proof -
  let ?x = "(new_job_file 0 1 1)\<lparr>jf_status := JobFileInstalling, lease_owner := Some ''me'', lease_token := Some ''i'', lease_until := Some 90\<rparr>"
  let ?db = "(demo_db (demo_file FileCached None) [])\<lparr>job_files := [?x]\<rparr>"
  have "store_ok ?db"
    by (auto simp: store_ok_def table_ok_def demo_defs row_ok_defs key_defs maxVerifyFails_def)
  from CompleteInstall_job [OF this, of ?x "''i''" None 60] show ?thesis
    by (auto simp: demo_defs clear_lease_def job_open_def sql_update_def)
qed



text \<open>Alone in the database, the claim loop does what its filter asks: the leased blocks are
  distinct rows of the table, belong to downloading files of the filter, respect every per-file cap, and
  without caps their number is exactly the smaller of \<open>n\<close> and the number of eligible blocks.\<close>

lemma LeaseBlocks_alone:
  assumes "store_ok db" "LeaseBlocks owner toks (\<lambda>_ d. d) n flt now db = (db', res)"
  shows "store_ok db' \<and> distinct (map (\<lambda>x. b_id (fst x)) res) \<and> (\<forall>(b, t) \<in> set res. b \<in> set (blocks db') \<and>
      file_downloading db (b_file_id b) \<and> (FileIDs flt \<noteq> [] \<longrightarrow> b_file_id b \<in> set (FileIDs flt))) \<and>
    (\<forall>fid c. MaxPerFile flt fid = Some c \<longrightarrow> 0 < c \<longrightarrow> int (claimed_of fid res) \<le> c) \<and>
    ((\<forall>fid. MaxPerFile flt fid = None) \<longrightarrow> length res = min (nat n) (length (lease_candidates flt now db)))"
proof (cases "n \<le> 0")
  case True
  with assms show ?thesis by (auto simp: LeaseBlocks_def claimed_of_def)
next
  case False
  then have loop: "lease_loop owner toks (\<lambda>_ d. d) now (MaxPerFile flt) (nat n) 0 (lease_candidates flt now db)
      (\<lambda>_. 0) [] db = (db', res)" using assms(2) by (simp add: LeaseBlocks_def)
  note seq = lease_loop_seq [OF loop assms(1) claimable_candidates [OF assms(1)]]
  have cand: "file_downloading db fid \<and> (FileIDs flt \<noteq> [] \<longrightarrow> fid \<in> set (FileIDs flt))"
    if "fid \<in> snd ` set (lease_candidates flt now db)" for fid
    using that by (auto simp: lease_candidates_def)
  have sub: "b_file_id b \<in> snd ` set (lease_candidates flt now db)" if "(b, t) \<in> set res" for b t
    using seq that by (force simp: claimed_of_def)
  show ?thesis
    using seq sub cand by (fastforce simp: claimed_of_def)
qed

lemma LeaseBlocks_alone_example:
  "let db = demo_db (demo_file FileDownloading (Some ''t''))
         [demo_block 1 BlockPending None, demo_block 2 BlockPending None, demo_block 3 BlockPending None];
       flt = \<lparr>FileIDs = [1], MaxPerFile = (\<lambda>_. None)\<rparr>;
       r = LeaseBlocks ''me'' (\<lambda>k. if k = 0 then ''b0'' else ''b1'') (\<lambda>_ d. d) 2 flt 10 db
   in store_ok (fst r) \<and> length (snd r) = 2"
proof -
  let ?db = "demo_db (demo_file FileDownloading (Some ''t''))
         [demo_block 1 BlockPending None, demo_block 2 BlockPending None, demo_block 3 BlockPending None]"
  let ?flt = "\<lparr>FileIDs = [1], MaxPerFile = (\<lambda>_. None)\<rparr>"
  let ?r = "LeaseBlocks ''me'' (\<lambda>k. if k = 0 then ''b0'' else ''b1'') (\<lambda>_ d. d) 2 ?flt 10 ?db"
  have ok: "store_ok ?db"
    by (auto simp: store_ok_def table_ok_def demo_defs row_ok_defs key_defs maxVerifyFails_def)
  have "length (lease_candidates ?flt 10 ?db) = 3" by code_simp
  with LeaseBlocks_alone [OF ok, of "''me''" "\<lambda>k. if k = 0 then ''b0'' else ''b1''" 2 ?flt 10 "fst ?r" "snd ?r"]
  show ?thesis by (simp add: Let_def)
qed

end
