(* ===== verification/Go_Strings.thy ===== *)
theory Go_Strings
  imports Prelude
begin

text \<open>
  The string functions of the Go standard library the modelled code calls (\<^verbatim>\<open>strings\<close>,
  \<^verbatim>\<open>strconv\<close>). A Go string is a sequence of bytes, here a \<open>string\<close>; case folding and
  white space are the ASCII part of Go's tables, which is all HTTP header values contain.
\<close>

section \<open>Definitions\<close>

definition HasPrefix :: "string \<Rightarrow> string \<Rightarrow> bool" where
  "HasPrefix s p \<longleftrightarrow> take (length p) s = p"

definition HasSuffix :: "string \<Rightarrow> string \<Rightarrow> bool" where
  "HasSuffix s p \<longleftrightarrow> length p \<le> length s \<and> drop (length s - length p) s = p"

definition TrimPrefix :: "string \<Rightarrow> string \<Rightarrow> string" where
  "TrimPrefix s p = (if HasPrefix s p then drop (length p) s else s)"

definition TrimSuffix :: "string \<Rightarrow> string \<Rightarrow> string" where
  "TrimSuffix s p = (if HasSuffix s p then take (length s - length p) s else s)"

definition TrimLeft :: "(char \<Rightarrow> bool) \<Rightarrow> string \<Rightarrow> string" where
  "TrimLeft f s = dropWhile f s"

definition TrimRight :: "(char \<Rightarrow> bool) \<Rightarrow> string \<Rightarrow> string" where
  "TrimRight f s = rev (dropWhile f (rev s))"

definition TrimFunc :: "(char \<Rightarrow> bool) \<Rightarrow> string \<Rightarrow> string" where
  "TrimFunc f s = TrimRight f (TrimLeft f s)"

definition is_space :: "char \<Rightarrow> bool" where
  "is_space c \<longleftrightarrow> of_char c \<in> {9, 10, 11, 12, 13, 32 :: nat}"

definition TrimSpace :: "string \<Rightarrow> string" where
  "TrimSpace s = TrimFunc is_space s"

text \<open>\<^verbatim>\<open>strings.IndexByte\<close> and \<^verbatim>\<open>LastIndexByte\<close>: \<open>-1\<close> when absent.\<close>

fun IndexByte :: "string \<Rightarrow> char \<Rightarrow> int" where
  "IndexByte [] c = - 1"
| "IndexByte (x # xs) c = (if x = c then 0 else let i = IndexByte xs c in if i < 0 then - 1 else i + 1)"

definition LastIndexByte :: "string \<Rightarrow> char \<Rightarrow> int" where
  "LastIndexByte s c = (let i = IndexByte (rev s) c in if i < 0 then - 1 else int (length s) - 1 - i)"

definition to_lower :: "char \<Rightarrow> char" where
  "to_lower c = (if 65 \<le> (of_char c :: nat) \<and> (of_char c :: nat) \<le> 90 then char_of (of_char c + 32 :: nat) else c)"

definition ToLower :: "string \<Rightarrow> string" where
  "ToLower s = map to_lower s"

definition EqualFold :: "string \<Rightarrow> string \<Rightarrow> bool" where
  "EqualFold a b \<longleftrightarrow> ToLower a = ToLower b"

fun Split :: "string \<Rightarrow> char \<Rightarrow> string list" where
  "Split [] c = [[]]"
| "Split (x # xs) c =
     (if x = c then [] # Split xs c
      else case Split xs c of [] \<Rightarrow> [[x]] | p # ps \<Rightarrow> (x # p) # ps)"

fun Join :: "string list \<Rightarrow> string \<Rightarrow> string" where
  "Join [] sep = []"
| "Join [p] sep = p"
| "Join (p # q # ps) sep = p @ sep @ Join (q # ps) sep"

section \<open>Decimal numbers\<close>

definition is_digit :: "char \<Rightarrow> bool" where
  "is_digit c \<longleftrightarrow> 48 \<le> (of_char c :: nat) \<and> (of_char c :: nat) \<le> 57"

definition digit_val :: "char \<Rightarrow> int" where
  "digit_val c = int (of_char c) - 48"

definition digits_val :: "string \<Rightarrow> int" where
  "digits_val s = foldl (\<lambda>n c. n * 10 + digit_val c) 0 s"

definition ParseUint :: "string \<Rightarrow> int option" where
  "ParseUint s = (if s = [] \<or> \<not> list_all is_digit s then None
     else if 2 ^ 64 \<le> digits_val s then None else Some (digits_val s))"

text \<open>\<^verbatim>\<open>strconv.ParseInt(s, 10, 64)\<close>; every error is \<open>None\<close>.\<close>

definition ParseInt :: "string \<Rightarrow> int option" where
  "ParseInt s =
     (case s of [] \<Rightarrow> None
      | c # r \<Rightarrow>
          (let neg = (c = CHR ''-'');
               body = (if c = CHR ''-'' \<or> c = CHR ''+'' then r else s)
           in case ParseUint body of
                None \<Rightarrow> None
              | Some n \<Rightarrow>
                  if \<not> neg \<and> 2 ^ 63 \<le> n then None
                  else if neg \<and> 2 ^ 63 < n then None
                  else Some (if neg then - n else n)))"

fun digits_of :: "nat \<Rightarrow> string" where
  "digits_of n = (if n < 10 then [char_of (48 + n)] else digits_of (n div 10) @ [char_of (48 + n mod 10)])"

declare digits_of.simps [simp del]

text \<open>The \<^verbatim>\<open>%d\<close> verb.\<close>

definition format_d :: "int \<Rightarrow> string" where
  "format_d i = (if i < 0 then CHR ''-'' # digits_of (nat (- i)) else digits_of (nat i))"

section \<open>Lemmas\<close>

lemma of_char_of_nat [simp]: "n < 256 \<Longrightarrow> of_char (char_of n :: char) = (n :: nat)"
  by (simp add: of_char_of)

lemma is_digit_char_of [simp]: "n < 10 \<Longrightarrow> is_digit (char_of (48 + n :: nat))"
  by (simp add: is_digit_def)

lemma digit_val_char_of [simp]: "n < 10 \<Longrightarrow> digit_val (char_of (48 + n :: nat)) = int n"
  by (simp add: digit_val_def)

lemma digits_val_snoc [simp]: "digits_val (s @ [c]) = digits_val s * 10 + digit_val c"
  by (simp add: digits_val_def)

lemma digits_of_ok: "digits_of n \<noteq> [] \<and> list_all is_digit (digits_of n) \<and> digits_val (digits_of n) = int n"
proof (induction n rule: digits_of.induct)
  case (1 n)
  show ?case
  proof (cases "n < 10")
    case True
    then show ?thesis by (subst (1 2 3) digits_of.simps) (simp add: digits_val_def)
  next
    case False
    have "int (n div 10) * 10 + int (n mod 10) = int n" by (simp add: zdiv_int zmod_int)
    with 1 False show ?thesis by (subst (1 2 3) digits_of.simps) simp
  qed
qed

lemma not_digit [simp]: "\<not> is_digit CHR ''-''" "\<not> is_digit CHR ''+''" "\<not> is_digit CHR ''/''" "\<not> is_digit CHR '' ''"
  by (simp_all add: is_digit_def)

lemma ParseInt_format_d:
  assumes "0 \<le> n" "n \<le> MaxInt64"
  shows "ParseInt (format_d n) = Some n"
proof -
  note d = digits_of_ok [of "nat n"]
  obtain c r where cr: "digits_of (nat n) = c # r" using d by (cases "digits_of (nat n)") auto
  then have "is_digit c" using d by simp
  then have c: "c \<noteq> CHR ''-''" "c \<noteq> CHR ''+''" by auto
  have "ParseUint (c # r) = Some n"
    using d assms by (simp add: ParseUint_def flip: cr) (simp add: MaxInt64_def)
  then show ?thesis using c assms by (simp add: ParseInt_def format_d_def cr MaxInt64_def)
qed

lemma digits_val_nonneg: "list_all is_digit t \<Longrightarrow> 0 \<le> digits_val t"
proof (induction t rule: rev_induct)
  case (snoc c t)
  have "0 \<le> digit_val c"
    using snoc.prems by (simp add: is_digit_def digit_val_def)
  with snoc show ?case by simp
qed (simp add: digits_val_def)

lemma ParseUint_nonneg: "ParseUint t = Some k \<Longrightarrow> 0 \<le> k"
  by (auto simp: ParseUint_def digits_val_nonneg split: if_splits)

lemma ParseInt_bounds:
  "ParseInt s = Some n \<Longrightarrow> - (2 ^ 63) \<le> n"
  "ParseInt s = Some n \<Longrightarrow> n \<le> MaxInt64"
  by (auto simp: ParseInt_def Let_def MaxInt64_def split: list.splits option.splits if_splits
      dest!: ParseUint_nonneg)

lemma format_d_chars: "0 \<le> n \<Longrightarrow> c \<in> set (format_d n) \<Longrightarrow> is_digit c"
  using digits_of_ok [of "nat n"] by (simp add: format_d_def list_all_iff)

lemma format_d_notin: "0 \<le> n \<Longrightarrow> \<not> is_digit c \<Longrightarrow> c \<notin> set (format_d n)"
  using format_d_chars by blast

lemma format_d_nonempty: "format_d n \<noteq> []"
  using digits_of_ok by (simp add: format_d_def)

lemma IndexByte_append_notin: "c \<notin> set xs \<Longrightarrow> IndexByte (xs @ c # ys) c = int (length xs)"
  by (induction xs) auto

lemma LastIndexByte_append_notin: "c \<notin> set ys \<Longrightarrow> LastIndexByte (xs @ c # ys) c = int (length xs)"
  by (simp add: LastIndexByte_def IndexByte_append_notin)

lemma HasPrefix_append [simp]: "HasPrefix (p @ s) p"
  by (simp add: HasPrefix_def)

lemma TrimPrefix_append [simp]: "TrimPrefix (p @ s) p = s"
  by (simp add: TrimPrefix_def)

lemma EqualFold_refl [simp]: "EqualFold a a"
  by (simp add: EqualFold_def)

lemma EqualFold_sym: "EqualFold a b \<Longrightarrow> EqualFold b a"
  by (simp add: EqualFold_def)

lemma EqualFold_trans: "EqualFold a b \<Longrightarrow> EqualFold b c \<Longrightarrow> EqualFold a c"
  by (simp add: EqualFold_def)

end
