(* ===== verification/Config.thy ===== *)
theory Config
  imports Go_Strings
begin

text \<open>
  \<^verbatim>\<open>pkg/config\<close>: the operator limits and their validation, the mode enumerations with their
  parsers, sizes and rates, the shared \<^verbatim>\<open>Retry-After\<close> policy, and the transport that decides
  which requests carry the Hub token.
\<close>

section \<open>Modes\<close>

datatype IOMode = IOBuffered | IODirect | IOSequential

fun IOMode_String :: "IOMode \<Rightarrow> string" where
  "IOMode_String IOBuffered = ''buffered''"
| "IOMode_String IODirect = ''direct''"
| "IOMode_String IOSequential = ''sequential''"

definition ParseIOMode :: "string \<Rightarrow> string + IOMode" where
  "ParseIOMode s =
     (if s = ''buffered'' then Inr IOBuffered
      else if s = ''direct'' then Inr IODirect
      else if s = ''sequential'' then Inr IOSequential
      else Inl ''invalid io-mode'')"

datatype UpstreamPolicy = BestSpeed | Random | RoundRobin

fun UpstreamPolicy_String :: "UpstreamPolicy \<Rightarrow> string" where
  "UpstreamPolicy_String BestSpeed = ''best-speed''"
| "UpstreamPolicy_String Random = ''random''"
| "UpstreamPolicy_String RoundRobin = ''round-robin''"

definition ParseUpstreamPolicy :: "string \<Rightarrow> string + UpstreamPolicy" where
  "ParseUpstreamPolicy s =
     (if s = ''best-speed'' then Inr BestSpeed
      else if s = ''random'' then Inr Random
      else if s = ''round-robin'' then Inr RoundRobin
      else Inl ''invalid upstream-policy'')"

datatype SourcePriority = PreferXet | PreferCDN

fun SourcePriority_String :: "SourcePriority \<Rightarrow> string" where
  "SourcePriority_String PreferXet = ''xet''"
| "SourcePriority_String PreferCDN = ''cdn''"

definition ParseSourcePriority :: "string \<Rightarrow> string + SourcePriority" where
  "ParseSourcePriority s =
     (if s = ''xet'' then Inr PreferXet
      else if s = ''cdn'' then Inr PreferCDN
      else Inl ''invalid source-priority'')"

section \<open>Limits\<close>

record Limits =
  MaxBandwidthBps :: int
  APIIOPS :: int
  APIBurst :: int
  DiskActivePct :: int
  DiskWorkers :: int
  MaxWorkers :: int
  l_BlockSize :: int
  StallTimeout :: duration
  l_StallMinBytes :: int
  IOBuffer :: int
  CheckpointInterval :: duration
  l_IOMode :: IOMode
  l_UpstreamPolicy :: UpstreamPolicy
  l_SourcePriority :: SourcePriority

definition bandwidthMinBurst :: int where
  "bandwidthMinBurst = 1048576"

definition BandwidthBurst :: "int \<Rightarrow> int" where
  "BandwidthBurst limit =
     (if limit \<le> 0 then 0
      else if bandwidthMinBurst < limit div 8 then limit div 8
      else bandwidthMinBurst)"

definition DefaultLimits :: Limits where
  "DefaultLimits =
     \<lparr>MaxBandwidthBps = 0, APIIOPS = 5, APIBurst = 1, DiskActivePct = 100, DiskWorkers = 0,
      MaxWorkers = 16, l_BlockSize = 0, StallTimeout = 15 * second, l_StallMinBytes = 32 * 1024,
      IOBuffer = 0, CheckpointInterval = 30 * second, l_IOMode = IOBuffered,
      l_UpstreamPolicy = BestSpeed, l_SourcePriority = PreferXet\<rparr>"

text \<open>The error is the message up to its formatted value.\<close>

definition Validate :: "Limits \<Rightarrow> string option" where
  "Validate l =
     (if APIIOPS l < 1 then Some ''api-iops must be >= 1''
      else if DiskActivePct l < 1 \<or> 100 < DiskActivePct l then Some ''disk-active must be 1-100''
      else if DiskWorkers l < 0 then Some ''disk-workers must be >= 0''
      else if MaxWorkers l < 1 then Some ''max-workers must be >= 1''
      else if StallTimeout l \<le> 0 then Some ''stall-timeout must be positive''
      else if CheckpointInterval l \<le> 0 then Some ''checkpoint-interval must be positive''
      else None)"

section \<open>Sizes and Retry-After\<close>

text \<open>\<open>parseBytes\<close> is \<^verbatim>\<open>humanize.ParseBytes\<close>, \<open>parseTime\<close> is \<^verbatim>\<open>http.ParseTime\<close>; \<open>None\<close> is an error.\<close>

definition ParseSize :: "(string \<Rightarrow> u64 option) \<Rightarrow> string \<Rightarrow> string + int" where
  "ParseSize parseBytes s =
     (let v = TrimSpace s
      in if v = '''' then Inl ''empty size''
         else case parseBytes v of
                None \<Rightarrow> Inl ''invalid size''
              | Some n \<Rightarrow>
                  if word_of_int MaxInt64 < n then Inl ''size overflows int64'' else Inr (sint n))"

definition ParseRate :: "(string \<Rightarrow> u64 option) \<Rightarrow> string \<Rightarrow> string + int" where
  "ParseRate parseBytes s = ParseSize parseBytes (TrimSuffix (TrimSpace s) ''/s'')"

definition MaxRetryAfter :: duration where
  "MaxRetryAfter = 24 * 60 * minute"

definition ParseRetryAfter :: "(string \<Rightarrow> time option) \<Rightarrow> time \<Rightarrow> string \<Rightarrow> duration" where
  "ParseRetryAfter parseTime now h0 =
     (let h = TrimSpace h0
      in if h = '''' then 0
         else case ParseInt h of
                Some n \<Rightarrow>
                  (if n \<le> 0 then 0
                   else if MaxRetryAfter div second < n then MaxRetryAfter
                   else n * second)
              | None \<Rightarrow>
                  (case parseTime h of
                     Some t \<Rightarrow> min (max (t - now) 0) MaxRetryAfter
                   | None \<Rightarrow> 0))"

section \<open>The authenticating transport\<close>

text \<open>A parsed URL as the code reads it: \<^verbatim>\<open>Scheme\<close>, \<^verbatim>\<open>Host\<close>, \<^verbatim>\<open>Hostname()\<close>, \<^verbatim>\<open>Port()\<close>.\<close>

record URL =
  Scheme :: string
  Host :: string
  Hostname :: string
  Port :: string

type_synonym Header = "string \<Rightarrow> string option"

definition Header_Get :: "Header \<Rightarrow> string \<Rightarrow> string" where
  "Header_Get h k = (case h k of None \<Rightarrow> '''' | Some v \<Rightarrow> v)"

record authTransport =
  hubScheme :: string
  hubHost :: string
  hubPort :: string
  at_token :: string
  ua :: string

definition effectivePort :: "URL \<Rightarrow> string" where
  "effectivePort u =
     (if Port u \<noteq> '''' then Port u
      else if ToLower (Scheme u) = ''https'' then ''443''
      else if ToLower (Scheme u) = ''http'' then ''80''
      else '''')"

text \<open>\<open>parsed\<close> is \<^verbatim>\<open>url.Parse(hubEndpoint)\<close>, \<open>None\<close> on an error.\<close>

definition NewAuthTransport :: "URL option \<Rightarrow> string \<Rightarrow> string \<Rightarrow> authTransport" where
  "NewAuthTransport parsed token agent =
     (let t = \<lparr>hubScheme = '''', hubHost = '''', hubPort = '''', at_token = token, ua = agent\<rparr>
      in case parsed of
           Some u \<Rightarrow>
             (if Scheme u \<noteq> '''' \<and> Host u \<noteq> ''''
              then t\<lparr>hubScheme := ToLower (Scheme u), hubHost := ToLower (Hostname u), hubPort := effectivePort u\<rparr>
              else t)
         | None \<Rightarrow> t)"

definition sameHubOrigin :: "authTransport \<Rightarrow> URL \<Rightarrow> bool" where
  "sameHubOrigin t u \<longleftrightarrow>
     (if hubHost t = '''' then False
      else ToLower (Scheme u) = hubScheme t \<and> ToLower (Hostname u) = hubHost t \<and> effectivePort u = hubPort t)"

text \<open>The headers the wrapped transport is called with.\<close>

definition RoundTrip :: "authTransport \<Rightarrow> URL \<Rightarrow> Header \<Rightarrow> Header" where
  "RoundTrip t u h =
     (let r = (if Header_Get h ''User-Agent'' = '''' then h(''User-Agent'' \<mapsto> ua t) else h)
      in if at_token t \<noteq> '''' \<and> sameHubOrigin t u
         then r(''Authorization'' \<mapsto> ''Bearer '' @ at_token t)
         else r(''Authorization'' := None))"

section \<open>Properties\<close>

text \<open>The mode names round-trip: what \<^verbatim>\<open>String\<close> prints, the parser reads back, and the parsers
  accept nothing else.\<close>

lemma modes_roundtrip:
  "(ParseIOMode s = Inr m \<longleftrightarrow> s = IOMode_String m) \<and>
   (ParseUpstreamPolicy s = Inr p \<longleftrightarrow> s = UpstreamPolicy_String p) \<and>
   (ParseSourcePriority s = Inr q \<longleftrightarrow> s = SourcePriority_String q)"
  by (cases m; cases p; cases q) (auto simp: ParseIOMode_def ParseUpstreamPolicy_def ParseSourcePriority_def)

text \<open>C40: The token goes to the Hub origin and nowhere else. Whatever headers the caller or a redirect
  hop set, a request leaves with an \<^verbatim>\<open>Authorization\<close> header exactly when a token is configured and
  scheme, host and effective port are those of the Hub endpoint; a transport built without an
  endpoint never sends one.\<close>

theorem token_only_to_hub:
  "RoundTrip (NewAuthTransport parsed token agent) u h ''Authorization'' =
     (case parsed of
        Some hub \<Rightarrow>
          if token \<noteq> '''' \<and> Scheme hub \<noteq> '''' \<and> Host hub \<noteq> '''' \<and> Hostname hub \<noteq> '''' \<and>
             EqualFold (Scheme u) (Scheme hub) \<and> EqualFold (Hostname u) (Hostname hub) \<and>
             effectivePort u = effectivePort hub
          then Some (''Bearer '' @ token) else None
      | None \<Rightarrow> None)"
  by (auto simp: RoundTrip_def NewAuthTransport_def sameHubOrigin_def EqualFold_def ToLower_def Let_def
      split: option.splits)

text \<open>\<^verbatim>\<open>Retry-After\<close> is honoured within bounds: the result lies in \<open>[0, 24h]\<close> whatever the server
  sends, a number of seconds in range is taken as it is, and the conversion to nanoseconds never
  leaves the range of \<^verbatim>\<open>time.Duration\<close>.\<close>

lemma ParseRetryAfter_bounds:
  "0 \<le> ParseRetryAfter parseTime now h \<and> ParseRetryAfter parseTime now h \<le> MaxRetryAfter \<and>
   MaxRetryAfter \<le> MaxInt64 \<and>
   (0 < n \<and> n * second \<le> MaxRetryAfter \<longrightarrow> ParseRetryAfter parseTime now (format_d n) = n * second)"
proof -
  have trim: "TrimSpace (format_d n) = format_d n" if "0 < n"
  proof -
    have sp: "\<not> is_space c" if "is_digit c" for c using that by (auto simp: is_space_def is_digit_def)
    have d: "dropWhile is_space xs = xs" if "\<forall>c \<in> set xs. \<not> is_space c" for xs using that by (cases xs) auto
    have "\<forall>c \<in> set (format_d n). \<not> is_space c" using format_d_chars [of n] that sp by simp
    then show ?thesis by (simp add: TrimSpace_def TrimFunc_def TrimLeft_def TrimRight_def d)
  qed
  have "n \<le> MaxInt64" if "n * second \<le> MaxRetryAfter"
    using that by (simp add: MaxRetryAfter_def time_units MaxInt64_def)
  then have "0 < n \<and> n * second \<le> MaxRetryAfter \<Longrightarrow> ParseRetryAfter parseTime now (format_d n) = n * second"
    using trim format_d_nonempty [of n]
    by (auto simp: ParseRetryAfter_def ParseInt_format_d Let_def MaxRetryAfter_def time_units)
  moreover have "0 \<le> ParseRetryAfter parseTime now h \<and> ParseRetryAfter parseTime now h \<le> MaxRetryAfter"
    by (auto simp: ParseRetryAfter_def Let_def MaxRetryAfter_def time_units split: option.splits)
  ultimately show ?thesis by (simp add: MaxRetryAfter_def time_units MaxInt64_def)
qed

lemma ParseRetryAfter_bounds_example:
  "ParseRetryAfter (\<lambda>_. None) 0 (format_d 120) = 120 * second"
  using ParseRetryAfter_bounds [of "\<lambda>_. None" 0 "''''" 120] by (simp add: MaxRetryAfter_def time_units)

text \<open>A size or rate that parses is a non-negative \<^verbatim>\<open>int64\<close> equal to what the size parser returned,
  and the burst paired with a limit is at least one megabyte and an eighth of the limit, never
  the one token an unlimited bucket's burst would clamp to.\<close>

lemma sizes_and_bursts:
  "(ParseRate parseBytes s = Inr n \<longrightarrow> 0 \<le> n \<and> n \<le> MaxInt64 \<and>
      (\<exists>w. parseBytes (TrimSpace (TrimSuffix (TrimSpace s) ''/s'')) = Some w \<and> n = uint w)) \<and>
   (0 < l \<longrightarrow> bandwidthMinBurst \<le> BandwidthBurst l \<and> l div 8 \<le> BandwidthBurst l) \<and>
   (l \<le> 0 \<longrightarrow> BandwidthBurst l = 0) \<and> Validate DefaultLimits = None"
proof -
  have word: "uint w \<le> MaxInt64 \<and> sint w = uint w" if "\<not> word_of_int MaxInt64 < w" for w :: u64
  proof -
    have "uint w \<le> uint (word_of_int MaxInt64 :: u64)" using that by (simp add: word_less_alt not_less)
    then have le: "uint w \<le> 9223372036854775807" by (simp add: MaxInt64_def)
    have "sint w = signed_take_bit 63 (uint w)" by (simp add: sint_uint)
    also have "\<dots> = uint w"
      by (rule signed_take_bit_int_eq_self, rule order_trans [OF _ uint_ge_0]) (use le in \<open>simp_all\<close>)
    finally show ?thesis using le by (simp add: MaxInt64_def)
  qed
  have "ParseRate parseBytes s = Inr n \<Longrightarrow> 0 \<le> n \<and> n \<le> MaxInt64 \<and>
      (\<exists>w. parseBytes (TrimSpace (TrimSuffix (TrimSpace s) ''/s'')) = Some w \<and> n = uint w)"
    using word by (auto simp: ParseRate_def ParseSize_def Let_def split: if_splits option.splits)
  then show ?thesis
    by (auto simp: BandwidthBurst_def bandwidthMinBurst_def Validate_def DefaultLimits_def time_units)
qed

lemma ParseRate_example:
  "ParseRate (\<lambda>s. if s = ''8MiB'' then Some 8388608 else None) '' 8MiB/s '' = Inr 8388608 \<and> (0 :: int) \<le> 8388608 \<and>
   bandwidthMinBurst \<le> BandwidthBurst 8388608"
proof -
  have p: "ParseRate (\<lambda>s. if s = ''8MiB'' then Some 8388608 else None) '' 8MiB/s '' = Inr 8388608" by code_simp
  then show ?thesis
    using sizes_and_bursts [of "\<lambda>s. if s = ''8MiB'' then Some 8388608 else None" "'' 8MiB/s ''" 8388608 8388608] by simp
qed

end
