(* ===== verification/Http_Source.thy ===== *)
theory Http_Source
  imports Config
begin

text \<open>
  \<^verbatim>\<open>pkg/transfer/source.go\<close> and \<^verbatim>\<open>policy.go\<close>: the multi-upstream ranged-GET source. The state of
  an \<^verbatim>\<open>httpSource\<close> is a record; every method takes it and returns it updated. The response of the
  HTTP client, the random draws and the clock are arguments. An error value keeps what the code
  looks at (its type, kind, upstream and status), not its message.
\<close>

section \<open>Types\<close>

text \<open>A zero \<^verbatim>\<open>time.Time\<close> of a gate is \<open>None\<close>: no instant is before it.\<close>

record Upstream =
  Endpoint :: string
  EMABps :: real
  CooldownUntil :: "time option"
  BlacklistUntil :: "time option"

datatype FailKind = FailNet | FailHeaderTimeout | FailValidation | FailRangeless | FailStatus
  | FailStall | FailShortBody | FailNoHealthy

record AttemptError =
  ae_Upstream :: string
  ae_Kind :: FailKind
  ae_StatusCode :: int
  ae_RetryAfter :: duration

datatype transfer_error =
    Attempt AttemptError
  | ResetFileError
  | TerminalHTTPError string int
  | ErrAllRangeless
  | RangeNotSatisfiable string
  | CtxErr
  | OtherError string

definition attempt_error :: "string \<Rightarrow> FailKind \<Rightarrow> transfer_error" where
  "attempt_error up k = Attempt \<lparr>ae_Upstream = up, ae_Kind = k, ae_StatusCode = 0, ae_RetryAfter = 0\<rparr>"

record httpSource =
  hs_repo :: string
  hs_sha :: string
  hs_path :: string
  hs_size :: int
  hs_blobID :: string
  hs_upstreams :: "Upstream list"
  hs_policy :: UpstreamPolicy
  headerTimeout :: duration
  blacklistTTL :: duration
  rr :: u64
  ema :: "string \<Rightarrow> real"
  pins :: "string \<Rightarrow> string option"
  excluded :: "string \<Rightarrow> bool"
  rangeless :: "string \<Rightarrow> bool"
  cooldown :: "string \<Rightarrow> time option"

text \<open>The draws one call of the generator may make: \<^verbatim>\<open>Float64()\<close> and \<^verbatim>\<open>IntN(n)\<close>.\<close>

record rng =
  draw_float :: real
  draw_int :: "nat \<Rightarrow> nat"

text \<open>What the code reads of a response.\<close>

record Response =
  StatusCode :: int
  resp_Header :: Header
  ContentLength :: int

section \<open>Constants of the policy\<close>

definition epsilonGreedy :: real where "epsilonGreedy = 1 / 10"
definition emaAlpha :: real where "emaAlpha = 1 / 5"
definition emaPenaltyFactor :: real where "emaPenaltyFactor = 1 / 2"
definition upstreamCooldownTTL :: duration where "upstreamCooldownTTL = 30 * second"
definition defaultUpstreamBlacklistTTL :: duration where "defaultUpstreamBlacklistTTL = 5 * second"

section \<open>Construction\<close>

definition newHTTPSource ::
  "string \<Rightarrow> string \<Rightarrow> string \<Rightarrow> int \<Rightarrow> string \<Rightarrow> Upstream list \<Rightarrow> UpstreamPolicy \<Rightarrow> duration \<Rightarrow> duration
     \<Rightarrow> httpSource" where
  "newHTTPSource repo sha path sz blobID ups policy hdr ttl =
     \<lparr>hs_repo = repo, hs_sha = sha, hs_path = path, hs_size = sz, hs_blobID = blobID,
      hs_upstreams = ups, hs_policy = policy, headerTimeout = hdr, blacklistTTL = ttl, rr = 0,
      ema = foldl (\<lambda>m u. m(Endpoint u := EMABps u)) (\<lambda>_. 0) ups,
      pins = (\<lambda>_. None), excluded = (\<lambda>_. False), rangeless = (\<lambda>_. False), cooldown = (\<lambda>_. None)\<rparr>"

text \<open>\<open>pathEscape\<close> is \<^verbatim>\<open>url.PathEscape\<close>.\<close>

definition esc :: "(string \<Rightarrow> string) \<Rightarrow> string \<Rightarrow> string" where
  "esc pathEscape p = Join (map pathEscape (Split p CHR ''/'')) ''/''"

definition resolveURL :: "(string \<Rightarrow> string) \<Rightarrow> httpSource \<Rightarrow> string \<Rightarrow> string" where
  "resolveURL pathEscape s endpoint =
     TrimRight (\<lambda>c. c = CHR ''/'') endpoint @ ''/'' @ esc pathEscape (hs_repo s) @ ''/resolve/'' @
     esc pathEscape (hs_sha s) @ ''/'' @ esc pathEscape (hs_path s)"

section \<open>Selection\<close>

definition before :: "time \<Rightarrow> time option \<Rightarrow> bool" where
  "before now t = (case t of None \<Rightarrow> False | Some u \<Rightarrow> now < u)"

definition healthyLocked :: "httpSource \<Rightarrow> time \<Rightarrow> bool \<Rightarrow> Upstream list" where
  "healthyLocked s now ignoreRangeless =
     filter (\<lambda>u.
       \<not> excluded s (Endpoint u) \<and>
       \<not> (\<not> ignoreRangeless \<and> rangeless s (Endpoint u)) \<and>
       \<not> before now (cooldown s (Endpoint u)) \<and>
       \<not> (before now (CooldownUntil u) \<or> before now (BlacklistUntil u))) (hs_upstreams s)"

definition best_ema :: "httpSource \<Rightarrow> Upstream list \<Rightarrow> Upstream" where
  "best_ema s healthy =
     foldl (\<lambda>best u. if ema s (Endpoint best) < ema s (Endpoint u) then u else best) (hd healthy) (tl healthy)"

definition pickLocked :: "rng \<Rightarrow> Upstream list \<Rightarrow> httpSource \<Rightarrow> httpSource \<times> Upstream" where
  "pickLocked r healthy s =
     (case hs_policy s of
        Random \<Rightarrow> (s, healthy ! draw_int r (length healthy))
      | RoundRobin \<Rightarrow>
          (let s' = s\<lparr>rr := rr s + 1\<rparr>
           in (s', healthy ! unat ((rr s' - 1) mod word_of_nat (length healthy))))
      | BestSpeed \<Rightarrow>
          (if draw_float r < epsilonGreedy
           then (s, healthy ! draw_int r (length healthy))
           else (s, best_ema s healthy)))"

definition pick :: "rng \<Rightarrow> time \<Rightarrow> httpSource \<Rightarrow> httpSource \<times> (transfer_error + Upstream)" where
  "pick r now s =
     (let healthy = healthyLocked s now False
      in if healthy = []
         then (let allRangeless = (hs_upstreams s \<noteq> [] \<and> list_all (\<lambda>u. rangeless s (Endpoint u)) (hs_upstreams s))
               in if allRangeless then (s, Inl ErrAllRangeless)
                  else (s, Inl (attempt_error '''' FailNoHealthy)))
         else (case pickLocked r healthy s of (s', u) \<Rightarrow> (s', Inr u)))"

definition pickWhole :: "rng \<Rightarrow> time \<Rightarrow> httpSource \<Rightarrow> httpSource \<times> Upstream option" where
  "pickWhole r now s =
     (let healthy = healthyLocked s now True
      in if healthy \<noteq> [] then (case pickLocked r healthy s of (s', u) \<Rightarrow> (s', Some u))
         else (s, find (\<lambda>u. \<not> excluded s (Endpoint u)) (hs_upstreams s)))"

section \<open>Marks, cooldowns and rates\<close>

definition markRangeless :: "string \<Rightarrow> httpSource \<Rightarrow> httpSource" where
  "markRangeless ep s = s\<lparr>rangeless := (rangeless s)(ep := True)\<rparr>"

definition allRangeless :: "httpSource \<Rightarrow> bool" where
  "allRangeless s \<longleftrightarrow> hs_upstreams s \<noteq> [] \<and> list_all (\<lambda>u. rangeless s (Endpoint u)) (hs_upstreams s)"

definition setCooldown :: "string \<Rightarrow> time \<Rightarrow> httpSource \<Rightarrow> httpSource" where
  "setCooldown ep until s = s\<lparr>cooldown := (cooldown s)(ep \<mapsto> until)\<rparr>"

definition blacklist :: "time \<Rightarrow> string \<Rightarrow> httpSource \<Rightarrow> httpSource" where
  "blacklist now ep s =
     (let until = now + blacklistTTL s
      in case cooldown s ep of
           None \<Rightarrow> s\<lparr>cooldown := (cooldown s)(ep \<mapsto> until)\<rparr>
         | Some cur \<Rightarrow> if cur < until then s\<lparr>cooldown := (cooldown s)(ep \<mapsto> until)\<rparr> else s)"

definition reportRate :: "string \<Rightarrow> real \<Rightarrow> httpSource \<Rightarrow> httpSource" where
  "reportRate ep bps s = s\<lparr>ema := (ema s)(ep := emaAlpha * bps + (1 - emaAlpha) * ema s ep)\<rparr>"

definition penalize :: "string \<Rightarrow> httpSource \<Rightarrow> httpSource" where
  "penalize ep s = s\<lparr>ema := (ema s)(ep := ema s ep * emaPenaltyFactor)\<rparr>"

section \<open>Validation\<close>

definition parseContentRange :: "string \<Rightarrow> (int \<times> int \<times> int) option" where
  "parseContentRange v =
     (if \<not> HasPrefix v ''bytes '' then None
      else
        (let spec = TrimPrefix v ''bytes '';
             dash = IndexByte spec CHR ''-'';
             slash = LastIndexByte spec CHR ''/''
         in if dash \<le> 0 \<or> slash \<le> dash + 1 \<or> slash = int (length spec) - 1 then None
            else
              (case (ParseInt (take (nat dash) spec),
                     ParseInt (slice spec (nat (dash + 1)) (nat slash)),
                     ParseInt (drop (nat (slash + 1)) spec)) of
                 (Some a, Some b, Some c) \<Rightarrow> Some (a, b, c)
               | _ \<Rightarrow> None)))"

definition etagOf :: "Response \<Rightarrow> string" where
  "etagOf resp =
     (let v = Header_Get (resp_Header resp) ''X-Linked-Etag'';
          v = (if v = '''' then Header_Get (resp_Header resp) ''ETag'' else v);
          v = TrimPrefix v ''W/''
      in TrimFunc (\<lambda>c. c = CHR 0x22) v)"

definition checkIdentity :: "string \<Rightarrow> string \<Rightarrow> bool \<Rightarrow> httpSource \<Rightarrow> httpSource \<times> transfer_error option" where
  "checkIdentity up etag requireValidator s =
     (let excl = s\<lparr>excluded := (excluded s)(up := True)\<rparr>;
          fail = Some (attempt_error up FailValidation);
          pin = (case pins s up of None \<Rightarrow> '''' | Some p \<Rightarrow> p)
      in if pin \<noteq> ''''
         then (if etag = '''' then (if requireValidator then (excl, fail) else (s, None))
               else if \<not> EqualFold etag pin then (excl, fail)
               else (s, None))
         else if etag = '''' then (if requireValidator then (s, fail) else (s, None))
         else if hs_blobID s \<noteq> '''' \<and> \<not> EqualFold etag (hs_blobID s) then (excl, fail)
         else (s\<lparr>pins := (pins s)(up \<mapsto> etag)\<rparr>, None))"

definition validate206 ::
  "Response \<Rightarrow> string \<Rightarrow> int \<Rightarrow> int \<Rightarrow> httpSource \<Rightarrow> httpSource \<times> transfer_error option" where
  "validate206 resp up off len s =
     (let fail = (s, Some (attempt_error up FailValidation))
      in case parseContentRange (Header_Get (resp_Header resp) ''Content-Range'') of
           None \<Rightarrow> fail
         | Some (a, b, c) \<Rightarrow>
             (if a \<noteq> off \<or> b \<noteq> off + len - 1 \<or> c \<noteq> hs_size s then fail
              else
                (let ce = Header_Get (resp_Header resp) ''Content-Encoding''
                 in if ce \<noteq> '''' \<and> \<not> EqualFold ce ''identity'' then fail
                    else if 0 \<le> ContentLength resp \<and> ContentLength resp \<noteq> len then fail
                    else checkIdentity up (etagOf resp) True s)))"

section \<open>Requests\<close>

text \<open>
  \<^verbatim>\<open>do\<close>: \<open>outcome\<close> is what the HTTP client returned (\<open>None\<close> an error), \<open>ctxErr\<close> whether the
  caller's context was done by then, \<open>fired\<close> whether the header timer had cancelled the request
  context. On an error the code first calls \<^verbatim>\<open>cancel()\<close>, so the request context it inspects
  next is done.
\<close>

definition do_request :: "bool \<Rightarrow> bool \<Rightarrow> Response option \<Rightarrow> string \<Rightarrow> transfer_error + Response" where
  "do_request ctxErr fired outcome up =
     (let reqErr = (ctxErr \<or> fired)
      in case outcome of
           None \<Rightarrow>
             (let reqErr = True
              in if \<not> ctxErr \<and> reqErr then Inl (attempt_error up FailHeaderTimeout)
                 else if ctxErr then Inl CtxErr
                 else Inl (attempt_error up FailNet))
         | Some resp \<Rightarrow> Inr resp)"

text \<open>
  The HTTP exchange of one call: what the client answers at each endpoint, and the context. The
  \<^verbatim>\<open>Range\<close> header of the request is in \<open>range_header\<close>.
\<close>

record exchange =
  answer :: "string \<Rightarrow> Response option"
  x_ctxErr :: bool
  x_fired :: bool
  x_parseTime :: "string \<Rightarrow> time option"

definition range_header :: "int \<Rightarrow> int \<Rightarrow> string" where
  "range_header off len = ''bytes='' @ format_d off @ ''-'' @ format_d (off + len - 1)"

text \<open>The result of \<^verbatim>\<open>Open\<close> is the upstream whose body is handed out.\<close>

definition Open :: "exchange \<Rightarrow> rng \<Rightarrow> time \<Rightarrow> int \<Rightarrow> int \<Rightarrow> httpSource \<Rightarrow> httpSource \<times> (transfer_error + string)" where
  "Open x r now off len s =
     (if allRangeless s then (s, Inl ErrAllRangeless)
      else case pick r now s of
        (s, Inl e) \<Rightarrow> (s, Inl e)
      | (s, Inr up) \<Rightarrow>
          (case do_request (x_ctxErr x) (x_fired x) (answer x (Endpoint up)) (Endpoint up) of
             Inl e \<Rightarrow> (s, Inl e)
           | Inr resp \<Rightarrow>
               (let st = StatusCode resp; ep = Endpoint up
                in if st = 206 then
                     (case validate206 resp ep off len s of
                        (s, Some e) \<Rightarrow> (s, Inl e)
                      | (s, None) \<Rightarrow> (s, Inr ep))
                   else if st = 200 then
                     (let s = markRangeless ep s
                      in if allRangeless s then (s, Inl ErrAllRangeless)
                         else (s, Inl (attempt_error ep FailRangeless)))
                   else if st = 416 then (s, Inl (RangeNotSatisfiable ep))
                   else if st = 429 \<or> st = 503 then
                     (let ra = ParseRetryAfter (x_parseTime x) now (Header_Get (resp_Header resp) ''Retry-After'')
                      in (setCooldown ep (now + upstreamCooldownTTL) s,
                          Inl (Attempt \<lparr>ae_Upstream = ep, ae_Kind = FailStatus, ae_StatusCode = st, ae_RetryAfter = ra\<rparr>)))
                   else if st = 401 \<or> st = 403 \<or> st = 404 then (s, Inl (TerminalHTTPError ep st))
                   else if 500 \<le> st then
                     (s, Inl (Attempt \<lparr>ae_Upstream = ep, ae_Kind = FailStatus, ae_StatusCode = st, ae_RetryAfter = 0\<rparr>))
                   else (s, Inl (TerminalHTTPError ep st)))))"

definition openWhole :: "exchange \<Rightarrow> rng \<Rightarrow> time \<Rightarrow> httpSource \<Rightarrow> httpSource \<times> (transfer_error + string)" where
  "openWhole x r now s =
     (case pickWhole r now s of
        (s, None) \<Rightarrow> (s, Inl (attempt_error '''' FailNoHealthy))
      | (s, Some up) \<Rightarrow>
          (case do_request (x_ctxErr x) (x_fired x) (answer x (Endpoint up)) (Endpoint up) of
             Inl e \<Rightarrow> (s, Inl e)
           | Inr resp \<Rightarrow>
               (let st = StatusCode resp; ep = Endpoint up;
                    bad = (if st = 200 then
                             (if 0 \<le> ContentLength resp \<and> ContentLength resp \<noteq> hs_size s
                              then Some (attempt_error ep FailValidation) else None)
                           else if st = 206 then
                             (case parseContentRange (Header_Get (resp_Header resp) ''Content-Range'') of
                                Some (a, b, c) \<Rightarrow>
                                  if a \<noteq> 0 \<or> b \<noteq> hs_size s - 1 \<or> c \<noteq> hs_size s
                                  then Some (attempt_error ep FailValidation) else None
                              | None \<Rightarrow> Some (attempt_error ep FailValidation))
                           else if st = 429 \<or> st = 503 \<or> 500 \<le> st then Some (attempt_error ep FailStatus)
                           else Some (TerminalHTTPError ep st))
                in case bad of
                     Some e \<Rightarrow> (s, Inl e)
                   | None \<Rightarrow>
                       (case checkIdentity ep (etagOf resp) False s of
                          (s, Some e) \<Rightarrow> (s, Inl e)
                        | (s, None) \<Rightarrow> (s, Inr ep)))))"

section \<open>Selection: lemmas\<close>

definition rng_ok :: "rng \<Rightarrow> bool" where
  "rng_ok r \<longleftrightarrow> (\<forall>n > 0. draw_int r n < n) \<and> 0 \<le> draw_float r \<and> draw_float r < 1"

definition usable :: "httpSource \<Rightarrow> time \<Rightarrow> Upstream \<Rightarrow> bool" where
  "usable s now u \<longleftrightarrow> u \<in> set (hs_upstreams s) \<and> \<not> excluded s (Endpoint u) \<and> \<not> before now (cooldown s (Endpoint u)) \<and>
     \<not> before now (CooldownUntil u) \<and> \<not> before now (BlacklistUntil u)"

lemma set_healthyLocked: "set (healthyLocked s now ig) = {u. usable s now u \<and> (ig \<or> \<not> rangeless s (Endpoint u))}"
  by (auto simp: healthyLocked_def usable_def)

lemma best_ema_max:
  assumes "healthy \<noteq> []"
  shows "best_ema s healthy \<in> set healthy \<and> (\<forall>u \<in> set healthy. ema s (Endpoint u) \<le> ema s (Endpoint (best_ema s healthy)))"
proof -
  have "let b = foldl (\<lambda>best u. if ema s (Endpoint best) < ema s (Endpoint u) then u else best) b0 us
      in b \<in> insert b0 (set us) \<and> (\<forall>u \<in> insert b0 (set us). ema s (Endpoint u) \<le> ema s (Endpoint b))" for b0 us
  proof (induction us arbitrary: b0)
    case (Cons u us)
    show ?case
      using Cons.IH [of u] Cons.IH [of b0] by (auto simp: Let_def)
  qed simp
  from this [of "hd healthy" "tl healthy"] assms show ?thesis
    by (cases healthy) (auto simp: best_ema_def Let_def)
qed

lemma pickLocked_in:
  assumes "pickLocked r healthy s = (s', u)" "healthy \<noteq> []" "rng_ok r" "length healthy < 2 ^ 64"
  shows "u \<in> set healthy" "s' = s\<lparr>rr := rr s'\<rparr>"
proof -
  have "unat (w mod word_of_nat (length healthy)) < length healthy" for w :: u64
    using assms(2,4) by (simp add: unat_mod_distrib unat_of_nat take_bit_nat_eq_self)
  then show "u \<in> set healthy" "s' = s\<lparr>rr := rr s'\<rparr>"
    using assms best_ema_max [OF assms(2), of s]
    by (auto simp: pickLocked_def rng_ok_def Let_def split: UpstreamPolicy.splits if_splits intro!: nth_mem)
qed

lemma hs_rr_simps [simp]:
  "excluded (s\<lparr>rr := n\<rparr>) = excluded s" "pins (s\<lparr>rr := n\<rparr>) = pins s" "hs_blobID (s\<lparr>rr := n\<rparr>) = hs_blobID s"
  "hs_size (s\<lparr>rr := n\<rparr>) = hs_size s"
  by simp_all

lemma pick_cases:
  assumes "pick r now s = (s', Inr u)" "rng_ok r" "length (hs_upstreams s) < 2 ^ 64"
  shows "usable s now u \<and> \<not> rangeless s (Endpoint u)" "s' = s\<lparr>rr := rr s'\<rparr>"
proof -
  have len: "length (healthyLocked s now False) < 2 ^ 64"
    using assms(3) le_less_trans [OF length_filter_le] by (simp add: healthyLocked_def)
  from assms(1) have ne: "healthyLocked s now False \<noteq> []"
    and p: "pickLocked r (healthyLocked s now False) s = (s', u)"
    by (auto simp: pick_def Let_def split: if_splits prod.splits)
  note pl = pickLocked_in [OF p ne assms(2) len]
  show "usable s now u \<and> \<not> rangeless s (Endpoint u)" using pl(1) by (simp add: set_healthyLocked)
  show "s' = s\<lparr>rr := rr s'\<rparr>" by (rule pl(2))
qed

lemma pick_state: "fst (pick r now s) = s\<lparr>rr := rr (fst (pick r now s))\<rparr>"
  by (auto simp: pick_def pickLocked_def Let_def split: UpstreamPolicy.splits if_splits)

lemma pickWhole_state: "fst (pickWhole r now s) = s\<lparr>rr := rr (fst (pickWhole r now s))\<rparr>"
  by (auto simp: pickWhole_def pickLocked_def Let_def split: UpstreamPolicy.splits if_splits)

section \<open>Identity: lemmas\<close>

text \<open>Every pin is non-empty and agrees with the blob id.\<close>

definition identity_ok :: "httpSource \<Rightarrow> bool" where
  "identity_ok s \<longleftrightarrow> (\<forall>ep p. pins s ep = Some p \<longrightarrow> p \<noteq> '''' \<and> (hs_blobID s \<noteq> '''' \<longrightarrow> EqualFold p (hs_blobID s)))"

text \<open>\<open>extends s s'\<close>: the file is the same, and no pin or exclusion is undone.\<close>

definition extends :: "httpSource \<Rightarrow> httpSource \<Rightarrow> bool" where
  "extends s s' \<longleftrightarrow> hs_blobID s' = hs_blobID s \<and> hs_size s' = hs_size s \<and> hs_upstreams s' = hs_upstreams s \<and>
     (\<forall>ep p. pins s ep = Some p \<longrightarrow> pins s' ep = Some p) \<and> (\<forall>ep. excluded s ep \<longrightarrow> excluded s' ep) \<and>
     (\<forall>ep. rangeless s ep \<longrightarrow> rangeless s' ep)"

lemma extends_refl [simp]: "extends s s"
  by (simp add: extends_def)

lemma extends_trans: "extends a b \<Longrightarrow> extends b c \<Longrightarrow> extends a c"
  by (simp add: extends_def)

lemma checkIdentity_extends:
  "identity_ok s \<Longrightarrow> identity_ok (fst (checkIdentity up etag req s)) \<and> extends s (fst (checkIdentity up etag req s))"
  by (auto simp: checkIdentity_def identity_ok_def extends_def Let_def)

lemma checkIdentity_None:
  assumes "identity_ok s" "checkIdentity up etag req s = (s', None)"
  shows "req \<Longrightarrow> etag \<noteq> ''''" "etag \<noteq> '''' \<Longrightarrow> hs_blobID s \<noteq> '''' \<Longrightarrow> EqualFold etag (hs_blobID s)"
    "etag \<noteq> '''' \<Longrightarrow> \<exists>p. pins s' up = Some p \<and> EqualFold etag p"
proof -
  let ?pin = "case pins s up of None \<Rightarrow> '''' | Some p \<Rightarrow> p"
  have pin: "?pin \<noteq> '''' \<Longrightarrow> pins s up = Some ?pin" by (auto split: option.splits)
  show "req \<Longrightarrow> etag \<noteq> ''''" using assms(2) by (auto simp: checkIdentity_def Let_def split: if_splits)
  show "etag \<noteq> '''' \<Longrightarrow> hs_blobID s \<noteq> '''' \<Longrightarrow> EqualFold etag (hs_blobID s)"
    using assms pin unfolding checkIdentity_def identity_ok_def Let_def
    by (auto split: if_splits intro: EqualFold_trans)
  show "etag \<noteq> '''' \<Longrightarrow> \<exists>p. pins s' up = Some p \<and> EqualFold etag p"
    using assms pin unfolding checkIdentity_def Let_def by (auto split: if_splits)
qed

lemma validate206_extends:
  "identity_ok s \<Longrightarrow> identity_ok (fst (validate206 resp up off len s)) \<and> extends s (fst (validate206 resp up off len s))"
  by (auto simp: validate206_def Let_def checkIdentity_extends split: option.splits prod.splits)

lemma marks_extend:
  "identity_ok s \<Longrightarrow> identity_ok (markRangeless ep s) \<and> extends s (markRangeless ep s)"
  "identity_ok s \<Longrightarrow> identity_ok (setCooldown ep t s) \<and> extends s (setCooldown ep t s)"
  "identity_ok s \<Longrightarrow> identity_ok (blacklist now ep s) \<and> extends s (blacklist now ep s)"
  "identity_ok s \<Longrightarrow> identity_ok (reportRate ep b s) \<and> extends s (reportRate ep b s)"
  "identity_ok s \<Longrightarrow> identity_ok (penalize ep s) \<and> extends s (penalize ep s)"
  by (auto simp: identity_ok_def extends_def markRangeless_def setCooldown_def blacklist_def reportRate_def
      penalize_def Let_def split: option.splits)

lemma rr_extends: "identity_ok (s\<lparr>rr := n\<rparr>) = identity_ok s" "extends s (s\<lparr>rr := n\<rparr>)"
  by (simp_all add: identity_ok_def extends_def)

lemma Open_extends:
  assumes "identity_ok s"
  shows "identity_ok (fst (Open x r now off len s)) \<and> extends s (fst (Open x r now off len s))"
proof -
  obtain s1 res where p: "pick r now s = (s1, res)" by force
  have s1: "s1 = s\<lparr>rr := rr s1\<rparr>" using pick_state [of r now s] p by simp
  have ok: "identity_ok s1" "extends s s1" using assms rr_extends [where s = s and n = "rr s1"] s1 by simp_all
  have step: "identity_ok t \<and> extends s t" if "identity_ok t \<and> extends s1 t" for t
    using that ok extends_trans by blast
  have val: "identity_ok t \<and> extends s t" if "validate206 resp ep off len s1 = (t, e)" for resp ep t e
    using step validate206_extends [OF ok(1), of resp ep off len] that by simp
  have "identity_ok (markRangeless ep s1) \<and> extends s (markRangeless ep s1)"
    "identity_ok (setCooldown ep t s1) \<and> extends s (setCooldown ep t s1)" for ep t
    by (rule step, rule marks_extend [OF ok(1)])+
  then show ?thesis
    unfolding Open_def p Let_def
    using assms ok val by (auto split: sum.split prod.split option.split)
qed

lemma openWhole_extends:
  assumes "identity_ok s"
  shows "identity_ok (fst (openWhole x r now s)) \<and> extends s (fst (openWhole x r now s))"
proof -
  obtain s1 res where p: "pickWhole r now s = (s1, res)" by force
  have s1: "s1 = s\<lparr>rr := rr s1\<rparr>" using pickWhole_state [of r now s] p by simp
  have ok: "identity_ok s1" "extends s s1" using assms rr_extends [where s = s and n = "rr s1"] s1 by simp_all
  have step: "identity_ok t \<and> extends s t" if "identity_ok t \<and> extends s1 t" for t
    using that ok extends_trans by blast
  have chk: "identity_ok t \<and> extends s t" if "checkIdentity ep etag req s1 = (t, e)" for ep etag req t e
    using step checkIdentity_extends [OF ok(1), of ep etag req] that by simp
  show ?thesis
    unfolding openWhole_def p Let_def
    using ok chk by (auto split: sum.split prod.split option.split)
qed

section \<open>Runs of a source\<close>

text \<open>Whatever the workers call, in any order and with any answers.\<close>

inductive src_step :: "httpSource \<Rightarrow> httpSource \<Rightarrow> bool" where
  open_range: "src_step s (fst (Open x r now off len s))"
| open_whole: "src_step s (fst (openWhole x r now s))"
| blacklisted: "src_step s (blacklist now ep s)"
| rated: "src_step s (reportRate ep bps s)"
| penalized: "src_step s (penalize ep s)"

lemma src_step_extends: "src_step s t \<Longrightarrow> identity_ok s \<Longrightarrow> identity_ok t \<and> extends s t"
  by (induction rule: src_step.induct) (simp_all add: Open_extends openWhole_extends marks_extend)

interpretation ident: step_invariant src_step identity_ok
  by unfold_locales (blast dest: src_step_extends)

lemma src_run_extends: "src_step\<^sup>*\<^sup>* s t \<Longrightarrow> identity_ok s \<Longrightarrow> identity_ok t \<and> extends s t"
proof (induction rule: rtranclp_induct)
  case (step t u)
  then show ?case using src_step_extends extends_trans by blast
qed simp

lemma identity_ok_new: "identity_ok (newHTTPSource repo sha path sz blob ups pol hdr ttl)"
  by (simp add: identity_ok_def newHTTPSource_def)

lemma Open_InrD:
  assumes "Open x r now off len s = (s', Inr ep)"
  obtains s1 u resp where "pick r now s = (s1, Inr u)" "ep = Endpoint u" "answer x ep = Some resp"
    "StatusCode resp = 206" "validate206 resp ep off len s1 = (s', None)"
proof -
  from assms obtain s1 u where p: "pick r now s = (s1, Inr u)"
    by (auto simp: Open_def split: if_splits prod.splits sum.splits)
  from assms obtain resp where a: "answer x (Endpoint u) = Some resp"
    by (auto simp: Open_def p do_request_def Let_def split: if_splits option.splits)
  have d: "StatusCode resp = 206 \<and> validate206 resp (Endpoint u) off len s1 = (s', None) \<and> ep = Endpoint u"
    using assms a by (auto simp: Open_def p do_request_def Let_def split: if_splits option.splits prod.splits)
  show thesis using p d a by (intro that [of s1 u resp]) simp_all
qed

lemma validate206_None:
  assumes "validate206 resp up off len s = (s', None)"
  shows "parseContentRange (Header_Get (resp_Header resp) ''Content-Range'') = Some (off, off + len - 1, hs_size s)"
    "Header_Get (resp_Header resp) ''Content-Encoding'' = '''' \<or> EqualFold (Header_Get (resp_Header resp) ''Content-Encoding'') ''identity''"
    "ContentLength resp < 0 \<or> ContentLength resp = len"
    "checkIdentity up (etagOf resp) True s = (s', None)"
  using assms by (auto simp: validate206_def Let_def split: option.splits prod.splits if_splits)

section \<open>A source for the witnesses\<close>

definition demo_up :: "string \<Rightarrow> Upstream" where
  "demo_up ep = \<lparr>Endpoint = ep, EMABps = 0, CooldownUntil = None, BlacklistUntil = None\<rparr>"

definition demo_src :: "UpstreamPolicy \<Rightarrow> string list \<Rightarrow> httpSource" where
  "demo_src pol eps = newHTTPSource ''a/b'' ''sha'' ''f'' 100 ''AB'' (map demo_up eps) pol (10 * second) (5 * second)"

definition demo_rng :: rng where
  "demo_rng = \<lparr>draw_float = 1 / 2, draw_int = (\<lambda>_. 0)\<rparr>"

definition demo_resp :: "string \<Rightarrow> Response" where
  "demo_resp etag = \<lparr>StatusCode = 206, resp_Header = [''Content-Range'' \<mapsto> ''bytes 10-29/100'', ''ETag'' \<mapsto> etag],
     ContentLength = 20\<rparr>"

definition demo_x :: "string \<Rightarrow> exchange" where
  "demo_x etag = \<lparr>answer = (\<lambda>_. Some (demo_resp etag)), x_ctxErr = False, x_fired = False, x_parseTime = (\<lambda>_. None)\<rparr>"

lemma demo_rng_ok: "rng_ok demo_rng"
  by (simp add: rng_ok_def demo_rng_def)

lemma demo_open: "snd (Open (demo_x ''ab'') demo_rng 0 10 20 (demo_src BestSpeed [''m''])) = Inr ''m''"
  by code_simp

section \<open>Properties\<close>

text \<open>C14: A body is handed out only for a validated response. In every state a source can reach,
  \<^verbatim>\<open>Open\<close> succeeds only through an upstream that is usable and ranged at that moment, with a 206
  for exactly the requested range of a file of the expected size, no content coding, a consistent length
  and a validator equal (up to case) to the blob id.\<close>

theorem Open_validated:
  assumes "src_step\<^sup>*\<^sup>* (newHTTPSource repo sha path sz blob ups pol hdr ttl) s" "rng_ok r"
    "length ups < 2 ^ 64" "Open x r now off len s = (s', Inr ep)"
  shows "\<exists>u resp. usable s now u \<and> \<not> rangeless s (Endpoint u) \<and> ep = Endpoint u \<and> answer x ep = Some resp \<and>
    StatusCode resp = 206 \<and>
    parseContentRange (Header_Get (resp_Header resp) ''Content-Range'') = Some (off, off + len - 1, sz) \<and>
    (Header_Get (resp_Header resp) ''Content-Encoding'' = '''' \<or>
     EqualFold (Header_Get (resp_Header resp) ''Content-Encoding'') ''identity'') \<and>
    (ContentLength resp < 0 \<or> ContentLength resp = len) \<and>
    etagOf resp \<noteq> '''' \<and> (blob \<noteq> '''' \<longrightarrow> EqualFold (etagOf resp) blob)"
proof -
  let ?s0 = "newHTTPSource repo sha path sz blob ups pol hdr ttl"
  have run: "identity_ok s" "extends ?s0 s"
    using src_run_extends [OF assms(1) identity_ok_new] by simp_all
  then have s: "hs_blobID s = blob" "hs_size s = sz" "hs_upstreams s = ups"
    by (simp_all add: extends_def newHTTPSource_def)
  from assms(4) obtain s1 u resp where o: "pick r now s = (s1, Inr u)" "ep = Endpoint u"
    "answer x ep = Some resp" "StatusCode resp = 206" "validate206 resp ep off len s1 = (s', None)"
    by (rule Open_InrD)
  have u: "usable s now u \<and> \<not> rangeless s (Endpoint u)" and s1: "s1 = s\<lparr>rr := rr s1\<rparr>"
    using pick_cases [OF o(1) assms(2)] assms(3) s(3) by simp_all
  have s1': "hs_size s1 = sz" "hs_blobID s1 = blob" "identity_ok s1"
    using s run(1) by (subst s1, simp add: rr_extends)+
  note v = validate206_None [OF o(5), unfolded s1']
  note c = checkIdentity_None [OF s1'(3) v(4), unfolded s1']
  show ?thesis using u o v(1-3) c by blast
qed

theorem Open_validated_witness:
  "parseContentRange (Header_Get (resp_Header (demo_resp ''ab'')) ''Content-Range'') = Some (10, 29, 100) \<and>
   EqualFold (etagOf (demo_resp ''ab'')) ''AB''"
proof -
  let ?s = "demo_src BestSpeed [''m'']"
  obtain s' where o: "Open (demo_x ''ab'') demo_rng 0 10 20 ?s = (s', Inr ''m'')"
    using demo_open by (metis prod.collapse)
  have run: "src_step\<^sup>*\<^sup>* (newHTTPSource ''a/b'' ''sha'' ''f'' 100 ''AB'' (map demo_up [''m'']) BestSpeed (10 * second) (5 * second)) ?s"
    by (simp add: demo_src_def)
  have len: "length (map demo_up [''m'']) < 2 ^ 64" by simp
  from Open_validated [OF run demo_rng_ok len o] obtain resp where
    r: "answer (demo_x ''ab'') ''m'' = Some resp"
    and c: "parseContentRange (Header_Get (resp_Header resp) ''Content-Range'') = Some (10, 10 + 20 - 1, 100)"
    and e: "EqualFold (etagOf resp) ''AB''" by blast
  have "resp = demo_resp ''ab''" using r by (simp add: demo_x_def)
  then show ?thesis using c e by simp
qed

text \<open>C15: An upstream's identity is pinned by its first validated response: every later response that
  \<^verbatim>\<open>Open\<close> accepts from it carries the same validator up to case, whatever happened in between.\<close>

theorem pinned_identity:
  assumes "identity_ok s" "Open x r now off len s = (s1, Inr ep)" "answer x ep = Some resp"
    and "src_step\<^sup>*\<^sup>* s1 s2" "Open x' r' now' off' len' s2 = (s3, Inr ep)" "answer x' ep = Some resp'"
  shows "EqualFold (etagOf resp) (etagOf resp')"
proof -
  have pin: "\<exists>p. pins t' ep = Some p \<and> EqualFold (etagOf q) p"
    if "identity_ok t" "Open y q' n k l t = (t', Inr ep)" "answer y ep = Some q" for t t' y q' n k l q
  proof -
    from that(2) obtain t1 u resp where d: "pick q' n t = (t1, Inr u)" "ep = Endpoint u" "answer y ep = Some resp"
      "StatusCode resp = 206" "validate206 resp ep k l t1 = (t', None)" by (rule Open_InrD)
    have "t1 = t\<lparr>rr := rr t1\<rparr>" using pick_state [of q' n t] d(1) by simp
    then have "identity_ok t1" using that(1) rr_extends [where s = t and n = "rr t1"] by simp
    note c = checkIdentity_None [OF this validate206_None(4) [OF d(5)]]
    have "q = resp" using that(3) d(3) by simp
    with c(3) [OF c(1) [OF TrueI]] show ?thesis by simp
  qed
  obtain p where p: "pins s1 ep = Some p" "EqualFold (etagOf resp) p" using pin [OF assms(1-3)] by blast
  have ok1: "identity_ok s1" using Open_extends [OF assms(1), of x r now off len] assms(2) by simp
  have ok2: "identity_ok s2" "extends s1 s2" using src_run_extends [OF assms(4) ok1] by simp_all
  have "pins s2 ep = Some p" using ok2(2) p(1) by (simp add: extends_def)
  moreover have "extends s2 s3" using Open_extends [OF ok2(1), of x' r' now' off' len'] assms(5) by simp
  ultimately have p3: "pins s3 ep = Some p" by (simp add: extends_def)
  obtain p' where p': "pins s3 ep = Some p'" "EqualFold (etagOf resp') p'"
    using pin [OF ok2(1) assms(5,6)] by blast
  have "p' = p" using p3 p'(1) by simp
  then have "EqualFold p (etagOf resp')" using EqualFold_sym [OF p'(2)] by simp
  with p(2) show ?thesis by (rule EqualFold_trans)
qed

theorem pinned_identity_witness:
  "EqualFold (etagOf (demo_resp ''ab'')) (etagOf (demo_resp ''AB''))"
proof -
  let ?s = "demo_src BestSpeed [''m'']"
  have "case Open (demo_x ''ab'') demo_rng 0 10 20 ?s of (s1, a) \<Rightarrow>
      a = Inr ''m'' \<and> snd (Open (demo_x ''AB'') demo_rng 1 10 20 (penalize ''m'' s1)) = Inr ''m''" by code_simp
  then obtain s1 where 1: "Open (demo_x ''ab'') demo_rng 0 10 20 ?s = (s1, Inr ''m'')"
    and "snd (Open (demo_x ''AB'') demo_rng 1 10 20 (penalize ''m'' s1)) = Inr ''m''" by (auto split: prod.splits)
  then obtain s3 where 2: "Open (demo_x ''AB'') demo_rng 1 10 20 (penalize ''m'' s1) = (s3, Inr ''m'')"
    by (metis prod.collapse)
  have ok: "identity_ok ?s" unfolding demo_src_def by (rule identity_ok_new)
  have "src_step\<^sup>*\<^sup>* s1 (penalize ''m'' s1)" by (rule r_into_rtranclp) (rule penalized)
  from pinned_identity [OF ok 1 _ this 2] show ?thesis by (simp add: demo_x_def)
qed

text \<open>C37: \<^verbatim>\<open>pick\<close> chooses well. It returns an upstream that is configured, not excluded, not rangeless and
  past every gate; under the best-speed policy, unless it explores, one of maximal EMA; it changes
  nothing but the round-robin counter; and it fails only when no such upstream exists.\<close>

theorem pick_sound:
  assumes "rng_ok r" "length (hs_upstreams s) < 2 ^ 64"
  shows "case pick r now s of
      (s', Inr u) \<Rightarrow> usable s now u \<and> \<not> rangeless s (Endpoint u) \<and> s' = s\<lparr>rr := rr s'\<rparr> \<and>
        (hs_policy s = BestSpeed \<and> epsilonGreedy \<le> draw_float r \<longrightarrow>
          (\<forall>v. usable s now v \<and> \<not> rangeless s (Endpoint v) \<longrightarrow> ema s (Endpoint v) \<le> ema s (Endpoint u)))
    | (s', Inl e) \<Rightarrow> s' = s \<and> (\<forall>u. usable s now u \<longrightarrow> rangeless s (Endpoint u)) \<and>
        e = (if allRangeless s then ErrAllRangeless else attempt_error '''' FailNoHealthy)"
proof (cases "healthyLocked s now False = []")
  case True
  then have "\<not> (usable s now u \<and> \<not> rangeless s (Endpoint u))" for u
    using set_healthyLocked [of s now False] by auto
  with True show ?thesis by (auto simp: pick_def allRangeless_def Let_def)
next
  case False
  obtain s' u where pl: "pickLocked r (healthyLocked s now False) s = (s', u)" by force
  then have p: "pick r now s = (s', Inr u)" using False by (simp add: pick_def)
  have "ema s (Endpoint v) \<le> ema s (Endpoint u)"
    if "hs_policy s = BestSpeed" "epsilonGreedy \<le> draw_float r" "usable s now v" "\<not> rangeless s (Endpoint v)" for v
    using best_ema_max [OF False, of s] pl that by (auto simp: pickLocked_def set_healthyLocked)
  then show ?thesis using pick_cases [OF p assms] p by auto
qed

theorem pick_sound_witness:
  "snd (pick demo_rng 0 (demo_src BestSpeed [''m'', ''n''])) = Inr (demo_up ''m'') \<and>
   usable (demo_src BestSpeed [''m'', ''n'']) 0 (demo_up ''m'')"
proof -
  have len: "length (hs_upstreams (demo_src BestSpeed [''m'', ''n''])) < 2 ^ 64" by (simp add: demo_src_def newHTTPSource_def)
  have p: "snd (pick demo_rng 0 (demo_src BestSpeed [''m'', ''n''])) = Inr (demo_up ''m'')" by code_simp
  then show ?thesis
    using pick_sound [OF demo_rng_ok len, of 0] by (cases "pick demo_rng 0 (demo_src BestSpeed [''m'', ''n''])") auto
qed

fun rr_picks :: "nat \<Rightarrow> rng \<Rightarrow> Upstream list \<Rightarrow> httpSource \<Rightarrow> Upstream list" where
  "rr_picks 0 r healthy s = []"
| "rr_picks (Suc n) r healthy s = (case pickLocked r healthy s of (s', u) \<Rightarrow> u # rr_picks n r healthy s')"

text \<open>Round robin is fair: over an unchanged healthy set of \<open>n\<close> upstreams, \<open>n\<close> picks in a row serve
  each of them exactly once, in order, as long as the counter does not wrap in between.\<close>

lemma round_robin_fair:
  assumes "hs_policy s = RoundRobin" "healthy \<noteq> []" "unat (rr s) + length healthy \<le> 2 ^ 64"
  shows "rr_picks (length healthy) r healthy s = rotate (unat (rr s)) healthy"
proof -
  let ?n = "length healthy"
  have small: "?n < 2 ^ 64 \<or> ?n = 2 ^ 64" using assms(3) by linarith
  have idx: "unat ((w :: u64) mod word_of_nat ?n) = unat w mod ?n" if "?n < 2 ^ 64" for w
    using that by (simp add: unat_mod_distrib unat_of_nat take_bit_nat_eq_self)
  have big: "unat ((w :: u64) mod word_of_nat ?n) = unat w mod ?n" if "?n = 2 ^ 64" for w
  proof -
    have "(word_of_nat ?n :: u64) = 0" using that by simp
    moreover have "unat w < 2 ^ 64" using unsigned_less [of w, where ?'a = nat] by simp
    ultimately show ?thesis using that by (simp add: unat_mod_distrib)
  qed
  have gen: "rr_picks k r healthy t = map (\<lambda>i. healthy ! ((unat (rr t) + i) mod ?n)) [0 ..< k]"
    if "hs_policy t = RoundRobin" "unat (rr t) + k \<le> 2 ^ 64" for k t
    using that
  proof (induction k arbitrary: t)
    case (Suc k)
    have u: "unat (rr t + 1) = unat (rr t) + 1" if "k > 0"
    proof -
      have "unat (rr t) + 1 < 2 ^ 64" using Suc.prems(2) that by simp
      then have "unat (rr t) + unat (1 :: u64) < 2 ^ LENGTH(64)" by simp
      from unat_add_lem [THEN iffD1, OF this] show ?thesis by simp
    qed
    have rest: "rr_picks k r healthy (t\<lparr>rr := rr t + 1\<rparr>) =
        map (\<lambda>i. healthy ! ((unat (rr t) + i) mod ?n)) [1 ..< Suc k]"
    proof (cases "k = 0")
      case False
      have "rr_picks k r healthy (t\<lparr>rr := rr t + 1\<rparr>) =
          map (\<lambda>i. healthy ! ((unat (rr t + 1) + i) mod ?n)) [0 ..< k]"
        using Suc.IH [of "t\<lparr>rr := rr t + 1\<rparr>"] Suc.prems u False by simp
      also have "\<dots> = map (\<lambda>i. healthy ! ((unat (rr t) + i) mod ?n)) (map Suc [0 ..< k])"
        using u False by simp
      also have "map Suc [0 ..< k] = [1 ..< Suc k]" by (simp add: map_Suc_upt del: upt_Suc)
      finally show ?thesis .
    qed simp
    have "pickLocked r healthy t = (t\<lparr>rr := rr t + 1\<rparr>, healthy ! (unat (rr t) mod ?n))"
      using Suc.prems(1) small idx big by (auto simp: pickLocked_def Let_def)
    then show ?case using rest by (simp add: upt_conv_Cons del: upt_Suc)
  qed simp
  have "rotate (unat (rr s)) healthy = map (\<lambda>i. healthy ! ((unat (rr s) + i) mod ?n)) [0 ..< ?n]"
    by (rule nth_equalityI) (simp_all add: nth_rotate)
  then show ?thesis using gen [OF assms(1,3)] by simp
qed

lemma round_robin_fair_example:
  "rr_picks 3 demo_rng (map demo_up [''a'', ''b'', ''c'']) ((demo_src RoundRobin [])\<lparr>rr := 4\<rparr>)
     = map demo_up [''b'', ''c'', ''a'']"
proof -
  let ?s = "(demo_src RoundRobin [])\<lparr>rr := 4\<rparr>"
  have pol: "hs_policy ?s = RoundRobin" and u: "unat (rr ?s) = 4"
    by (simp_all add: demo_src_def newHTTPSource_def)
  have rot: "rotate 4 (map demo_up [''a'', ''b'', ''c'']) = map demo_up [''b'', ''c'', ''a'']" by code_simp
  have len: "unat (rr ?s) + length (map demo_up [''a'', ''b'', ''c'']) \<le> 2 ^ 64" unfolding u by simp
  have n: "length (map demo_up [''a'', ''b'', ''c'']) = 3" by simp
  show ?thesis
    using round_robin_fair [OF pol _ len, of demo_rng] unfolding u n rot by simp
qed

text \<open>The \<^verbatim>\<open>Content-Range\<close> parser reads back what a server prints for any range of \<^verbatim>\<open>int64\<close> offsets,
  and what it accepts is within \<^verbatim>\<open>int64\<close>.\<close>

lemma parseContentRange_roundtrip:
  "(0 \<le> a \<and> a \<le> MaxInt64 \<and> 0 \<le> b \<and> b \<le> MaxInt64 \<and> 0 \<le> c \<and> c \<le> MaxInt64 \<longrightarrow>
     parseContentRange (''bytes '' @ format_d a @ ''-'' @ format_d b @ ''/'' @ format_d c) = Some (a, b, c)) \<and>
   (parseContentRange v = Some (a', b', c') \<longrightarrow> a' \<le> MaxInt64 \<and> b' \<le> MaxInt64 \<and> c' \<le> MaxInt64)"
proof -
  have "parseContentRange (''bytes '' @ format_d a @ ''-'' @ format_d b @ ''/'' @ format_d c) = Some (a, b, c)"
    if h: "0 \<le> a" "a \<le> MaxInt64" "0 \<le> b" "b \<le> MaxInt64" "0 \<le> c" "c \<le> MaxInt64"
  proof -
    let ?spec = "format_d a @ CHR ''-'' # format_d b @ CHR ''/'' # format_d c"
    have dash: "IndexByte ?spec CHR ''-'' = int (length (format_d a))"
      by (rule IndexByte_append_notin) (simp add: format_d_notin h)
    have "LastIndexByte ((format_d a @ CHR ''-'' # format_d b) @ CHR ''/'' # format_d c) CHR ''/''
        = int (length (format_d a @ CHR ''-'' # format_d b))"
      by (rule LastIndexByte_append_notin) (simp add: format_d_notin h)
    then have slash: "LastIndexByte ?spec CHR ''/'' = int (length (format_d a) + 1 + length (format_d b))" by simp
    have ne: "format_d a \<noteq> []" "format_d b \<noteq> []" "format_d c \<noteq> []" by (rule format_d_nonempty)+
    have nat: "nat (1 + int k) = Suc k" "nat (int k + (1 + int m)) = Suc (k + m)" "nat (2 + (int k + int m)) = Suc (Suc (k + m))"
      for k m by simp_all
    have tr: "TrimPrefix (''bytes '' @ ?spec) ''bytes '' = ?spec" by (rule TrimPrefix_append)
    show ?thesis
      using ne ParseInt_format_d h dash slash tr
      by (simp add: parseContentRange_def HasPrefix_def TrimPrefix_def Let_def slice_def nat algebra_simps)
  qed
  moreover have "a' \<le> MaxInt64 \<and> b' \<le> MaxInt64 \<and> c' \<le> MaxInt64" if "parseContentRange v = Some (a', b', c')"
    using that ParseInt_bounds(2) by (auto simp: parseContentRange_def Let_def split: if_splits option.splits)
  ultimately show ?thesis by blast
qed

lemma parseContentRange_roundtrip_example:
  "parseContentRange (''bytes '' @ format_d 10 @ ''-'' @ format_d 29 @ ''/'' @ format_d 100) = Some (10, 29, 100)"
  using parseContentRange_roundtrip [of 10 29 100] by (simp add: MaxInt64_def)




end
