(* ===== verification/Checkpoint.thy ===== *)
theory Checkpoint
  imports Serde
begin

text \<open>
  \<^verbatim>\<open>pkg/transfer/checkpoint.go\<close>: the tracker of flushed ranges and the checkpoint that fsyncs the
  file and persists the tracker's snapshot, with the seeding of the tracker at the start of a run
  (\<^verbatim>\<open>downloader.go\<close>). The state around them is what the sink holds: the bytes written, and those a
  crash cannot take back.
\<close>

section \<open>The tracker\<close>

record intervalTracker =
  tset :: IntervalSet
  changes :: u64

definition tracker_add :: "int \<Rightarrow> int \<Rightarrow> intervalTracker \<Rightarrow> intervalTracker" where
  "tracker_add start e t = t\<lparr>tset := Add (tset t) start e, changes := changes t + 1\<rparr>"

definition tracker_reset :: "int \<Rightarrow> intervalTracker \<Rightarrow> intervalTracker" where
  "tracker_reset sz t = t\<lparr>tset := empty_set sz, changes := changes t + 1\<rparr>"

definition snapshot :: "intervalTracker \<Rightarrow> IntervalSet \<times> u64" where
  "snapshot t = (clone (tset t), changes t)"

definition coversAll :: "intervalTracker \<Rightarrow> int \<Rightarrow> bool" where
  "coversAll t tot = contains (tset t) 0 tot"

fun prefix_loop :: "Interval list \<Rightarrow> int \<Rightarrow> int \<Rightarrow> int" where
  "prefix_loop [] pos e = pos"
| "prefix_loop (v # vs) pos e =
     (if End v \<le> pos then prefix_loop vs pos e
      else if pos < Start v then pos
      else if e \<le> End v then End v
      else prefix_loop vs (End v) e)"

definition prefixCovered :: "intervalTracker \<Rightarrow> int \<Rightarrow> int \<Rightarrow> int" where
  "prefixCovered t start e = prefix_loop (iv (tset t)) start e - start"

section \<open>Seeding\<close>

datatype seed_error = SeedCorrupt CorruptProgressError | SeedSize int int

definition seed_intervals :: "byte list \<Rightarrow> int \<Rightarrow> seed_error + intervalTracker" where
  "seed_intervals progress sz =
     (let t = \<lparr>tset = empty_set sz, changes = 0\<rparr>
      in if 0 < length progress
         then (case UnmarshalBinary progress of
                 Inl e \<Rightarrow> Inl (SeedCorrupt e)
               | Inr seed \<Rightarrow>
                   if isize seed \<noteq> sz then Inl (SeedSize (isize seed) sz) else Inr (t\<lparr>tset := seed\<rparr>))
         else Inr t)"

section \<open>The checkpointer\<close>

text \<open>
  \<open>written\<close> are the bytes handed to the sink, \<open>durable\<close> those the last successful fsync covered,
  \<open>blob\<close> what the progress sink stored last.
\<close>

record checkpointer =
  tracker :: intervalTracker
  lastChanges :: u64
  haveLast :: bool
  written :: "int set"
  durable :: "int set"
  blob :: "byte list option"

datatype checkpoint_error = FsyncFailed | MarshalFailed CorruptProgressError | PersistFailed

text \<open>A flushed range: the write reaches the sink, then \<^verbatim>\<open>committed\<close> records it.\<close>

definition commit :: "int \<times> int \<Rightarrow> checkpointer \<Rightarrow> checkpointer" where
  "commit r c = c\<lparr>written := written c \<union> {fst r..<snd r}, tracker := tracker_add (fst r) (snd r) (tracker c)\<rparr>"

definition commits :: "(int \<times> int) list \<Rightarrow> checkpointer \<Rightarrow> checkpointer" where
  "commits rs c = foldl (\<lambda>c r. commit r c) c rs"

text \<open>
  One checkpoint. The tracker's mutex is not held across it: \<open>during\<close> and \<open>after\<close> are the ranges
  other workers flush between the snapshot and the fsync, and between the fsync and the persist.
\<close>

definition checkpoint ::
  "bool \<Rightarrow> (int \<times> int) list \<Rightarrow> bool \<Rightarrow> (int \<times> int) list \<Rightarrow> bool \<Rightarrow> checkpointer
     \<Rightarrow> checkpointer \<times> checkpoint_error option" where
  "checkpoint force during fsyncOk after persistOk c =
     (let (snap, ch) = snapshot (tracker c)
      in if \<not> force \<and> haveLast c \<and> ch = lastChanges c then (c, None)
         else
           (let c = commits during c
            in if \<not> fsyncOk then (c, Some FsyncFailed)
               else
                 (let c = commits after (c\<lparr>durable := written c\<rparr>)
                  in case MarshalBinary snap of
                       Inl e \<Rightarrow> (c, Some (MarshalFailed e))
                     | Inr b \<Rightarrow>
                         if \<not> persistOk then (c, Some PersistFailed)
                         else (c\<lparr>blob := Some b, lastChanges := ch, haveLast := True\<rparr>, None))))"

section \<open>Lemmas\<close>

lemma prefix_loop_exact:
  assumes "wf_ivs vs" "pos < e"
  shows "pos \<le> prefix_loop vs pos e \<and> {pos..<prefix_loop vs pos e} \<subseteq> covered vs \<and>
    prefix_loop vs pos e \<notin> covered vs"
  using assms
proof (induction vs pos e rule: prefix_loop.induct)
  case (2 v vs pos e)
  have wf: "wf_ivs vs" "Start v < End v" and gap: "\<forall>w \<in> set vs. End v < Start w"
    using "2.prems"(1) by (simp_all add: wf_ivs_Cons)
  have above: "x \<notin> covered vs" if "x \<le> End v" for x
    using gap that by (force simp: covered_def)
  show ?case
  proof (cases "End v \<le> pos")
    case True
    with "2.IH"(1) [OF True wf(1) "2.prems"(2)] show ?thesis by auto
  next
    case False
    show ?thesis
    proof (cases "pos < Start v")
      case True
      with False show ?thesis using above [of pos] by auto
    next
      case inside: False
      show ?thesis
      proof (cases "e \<le> End v")
        case True
        with False inside show ?thesis using above [of "End v"] by auto
      next
        case more: False
        have "prefix_loop vs (End v) e = End v"
          using gap wf(1) by (cases vs) (force simp: wf_ivs_Cons)+
        with False inside more above [of "End v"] show ?thesis by auto
      qed
    qed
  qed
qed simp

lemma tracker_simps [simp]:
  "wf_ivs (iv (tset t)) \<Longrightarrow> wf_ivs (iv (tset (tracker_add a b t)))"
  "wf_ivs (iv (tset t)) \<Longrightarrow> bytes (tset (tracker_add a b t)) = bytes (tset t) \<union> {a..<b}"
  "wf_ivs (iv (tset t)) \<Longrightarrow> isize (tset (tracker_add a b t)) = isize (tset t)"
  "changes (tracker_add a b t) = changes t + 1"
  by (simp_all add: tracker_add_def wf_Add bytes_Add)

lemma clone_id [simp]: "clone s = s"
  by (simp add: clone_def)

section \<open>Durability\<close>

text \<open>
  The tracker claims only written bytes, and the stored blob encodes a set of durable ones.
\<close>

definition ckpt_ok :: "int \<Rightarrow> checkpointer \<Rightarrow> bool" where
  "ckpt_ok sz c \<longleftrightarrow> wf_ivs (iv (tset (tracker c))) \<and> isize (tset (tracker c)) = sz \<and>
     bytes (tset (tracker c)) \<subseteq> written c \<and> durable c \<subseteq> written c \<and>
     (\<forall>b. blob c = Some b \<longrightarrow>
        (\<exists>s. MarshalBinary s = Inr b \<and> isize s = sz \<and> bytes s \<subseteq> durable c))"

lemma commit_ok: "ckpt_ok sz c \<Longrightarrow> ckpt_ok sz (commit r c)"
  by (auto simp: ckpt_ok_def commit_def)

lemma commits_ok: "ckpt_ok sz c \<Longrightarrow> ckpt_ok sz (commits rs c)"
  unfolding commits_def by (induction rs arbitrary: c) (simp_all add: commit_ok)

lemma commits_Cons [simp]: "commits [] c = c" "commits (r # rs) c = commits rs (commit r c)"
  by (simp_all add: commits_def)

lemma commit_frame [simp]:
  "written (commit r c) = written c \<union> {fst r..<snd r}" "durable (commit r c) = durable c" "blob (commit r c) = blob c"
  "changes (tracker (commit r c)) = changes (tracker c) + 1"
  "lastChanges (commit r c) = lastChanges c" "haveLast (commit r c) = haveLast c"
  by (simp_all add: commit_def)

lemma commits_frame:
  "durable (commits rs c) = durable c" "blob (commits rs c) = blob c"
  "changes (tracker (commits rs c)) = changes (tracker c) + of_nat (length rs)"
  "lastChanges (commits rs c) = lastChanges c" "haveLast (commits rs c) = haveLast c"
  by (induction rs arbitrary: c) (simp_all add: algebra_simps)

lemma written_commits: "written c \<subseteq> written (commits rs c)"
  by (induction rs arbitrary: c) (simp, fastforce)

lemma fsync_ok: "ckpt_ok sz c \<Longrightarrow> ckpt_ok sz (c\<lparr>durable := written c\<rparr>)"
  by (fastforce simp: ckpt_ok_def)

lemma checkpoint_ok:
  assumes "ckpt_ok sz c"
  shows "ckpt_ok sz (fst (checkpoint force during fsyncOk after persistOk c))"
proof -
  let ?d = "commits during c"
  let ?a = "commits after (?d\<lparr>durable := written ?d\<rparr>)"
  have d: "ckpt_ok sz ?d" by (rule commits_ok [OF assms])
  have a: "ckpt_ok sz ?a" by (rule commits_ok [OF fsync_ok [OF d]])
  have "bytes (tset (tracker c)) \<subseteq> durable ?a"
    using assms order_trans [OF _ written_commits [of c during]] by (simp add: ckpt_ok_def commits_frame)
  then have "ckpt_ok sz (?a\<lparr>blob := Some b, lastChanges := ch, haveLast := True\<rparr>)"
    if "MarshalBinary (tset (tracker c)) = Inr b" for b ch
    using that a assms by (auto simp: ckpt_ok_def)
  with assms d a show ?thesis
    by (simp add: checkpoint_def snapshot_def Let_def split: sum.split)
qed

text \<open>
  A run of the file's download: flushed ranges, fallback resets, checkpoints (failed ones included)
  and crashes. A crash keeps the durable bytes and possibly more of the written ones; the next
  run starts from the stored blob.
\<close>

inductive ckpt_step :: "int \<Rightarrow> checkpointer \<Rightarrow> checkpointer \<Rightarrow> bool" for sz where
  flush: "ckpt_step sz c (commit r c)"
| fallback: "ckpt_step sz c (c\<lparr>tracker := tracker_reset sz (tracker c)\<rparr>)"
| checkpointed: "ckpt_step sz c (fst (checkpoint force during fsyncOk after persistOk c))"
| crash: "durable c \<subseteq> W \<Longrightarrow> W \<subseteq> written c \<Longrightarrow>
     seed_intervals (case blob c of None \<Rightarrow> [] | Some b \<Rightarrow> b) sz = Inr t \<Longrightarrow>
     (\<And>b. blob c = Some b \<Longrightarrow> int (length b) \<le> MaxInt64) \<Longrightarrow>
     ckpt_step sz c \<lparr>tracker = t, lastChanges = 0, haveLast = False, written = W, durable = W, blob = blob c\<rparr>"

lemma seed_covers:
  assumes "ckpt_ok sz c" "sz \<le> MaxInt64" "blob c = Some b" "int (length b) \<le> MaxInt64"
    "seed_intervals b sz = Inr t"
  shows "wf_ivs (iv (tset t))" "isize (tset t) = sz" "bytes (tset t) \<subseteq> durable c"
proof -
  from assms(1,3) obtain s where s: "MarshalBinary s = Inr b" "isize s = sz" "bytes s \<subseteq> durable c"
    by (auto simp: ckpt_ok_def)
  have u: "UnmarshalBinary b = Inr (foldl (\<lambda>t v. Add t (Start v) (End v)) (empty_set sz) (iv s))"
    using roundtrip [OF s(1)] s(2) assms(2,4) by simp
  have "0 < length b" using MarshalBinary_Inr(3) [OF s(1)] by (simp add: serdeMagic_def)
  then have "tset t = foldl (\<lambda>t v. Add t (Start v) (End v)) (empty_set sz) (iv s)"
    using assms(5) u by (auto simp: seed_intervals_def Let_def split: if_splits)
  then show "wf_ivs (iv (tset t))" "isize (tset t) = sz" "bytes (tset t) \<subseteq> durable c"
    using merged_facts(1,3) [of sz "iv s"] merged_facts(2) [of sz "iv s"] s(3)
    by (simp_all add: bytes_def [of s])
qed

lemma ckpt_step_ok:
  assumes "ckpt_step sz c c'" "sz \<le> MaxInt64" "ckpt_ok sz c"
  shows "ckpt_ok sz c'"
  using assms
proof (induction rule: ckpt_step.induct)
  case (fallback c)
  then show ?case by (auto simp: ckpt_ok_def tracker_reset_def)
next
  case (crash c W t)
  have t: "wf_ivs (iv (tset t)) \<and> isize (tset t) = sz \<and> bytes (tset t) \<subseteq> durable c"
  proof (cases "blob c")
    case None
    then show ?thesis using crash(3) by (auto simp: seed_intervals_def)
  next
    case (Some b)
    then show ?thesis using seed_covers [OF crash.prems(2,1) Some] crash(3,4) by simp
  qed
  show ?case
    using t crash(1,2) crash.prems(2) by (fastforce simp: ckpt_ok_def)
qed (simp_all add: commit_ok checkpoint_ok)

definition fresh_checkpointer :: "int \<Rightarrow> checkpointer" where
  "fresh_checkpointer sz = \<lparr>tracker = \<lparr>tset = empty_set sz, changes = 0\<rparr>, lastChanges = 0, haveLast = False,
     written = {}, durable = {}, blob = None\<rparr>"

interpretation ckpt: step_invariant "\<lambda>c c'. ckpt_step sz c c' \<and> sz \<le> MaxInt64" "ckpt_ok sz" for sz
  by unfold_locales (blast intro: ckpt_step_ok)

section \<open>Properties\<close>

text \<open>C23: The durable record can only under-report. Over any run of a file's download with checkpoints,
  failed fsyncs and persists, fallback resets, crashes and restarts, whatever the stored progress
  blob decodes to is a set of bytes a completed fsync has made durable, and the tracker never claims a
  byte that was not written.\<close>

theorem progress_under_reports:
  assumes "(ckpt_step sz)\<^sup>*\<^sup>* (fresh_checkpointer sz) c" "sz \<le> MaxInt64" "blob c = Some b" "int (length b) \<le> MaxInt64"
  shows "(\<forall>t. seed_intervals b sz = Inr t \<longrightarrow> bytes (tset t) \<subseteq> durable c) \<and>
    bytes (tset (tracker c)) \<subseteq> written c \<and> durable c \<subseteq> written c"
proof -
  have "(\<lambda>c c'. ckpt_step sz c c' \<and> sz \<le> MaxInt64)\<^sup>*\<^sup>* (fresh_checkpointer sz) c"
    using assms(1,2) by (simp add: rtranclp_mono [THEN predicate2D, rotated])
  moreover have "ckpt_ok sz (fresh_checkpointer sz)" by (simp add: ckpt_ok_def fresh_checkpointer_def)
  ultimately have ok: "ckpt_ok sz c" by (rule ckpt.inv_run)
  then show ?thesis
    using seed_covers(3) [OF ok assms(2-4)] by (auto simp: ckpt_ok_def)
qed

theorem progress_under_reports_witness:
  "let c = fst (checkpoint True [(4, 8)] True [(8, 12)] True (commit (0, 4) (fresh_checkpointer 12)));
       b = the (blob c)
   in \<exists>t. seed_intervals b 12 = Inr t \<and> iv (tset t) = [Iv 0 4] \<and> bytes (tset t) \<subseteq> durable c"
proof -
  let ?c = "fst (checkpoint True [(4, 8)] True [(8, 12)] True (commit (0, 4) (fresh_checkpointer 12)))"
  let ?b = "[0x48, 0x46, 0x44, 0x50, 1, 12, 1, 0, 4] :: byte list"
  have m: "MarshalBinary (tset (tracker (commit (0, 4) (fresh_checkpointer 12)))) = Inr ?b"
  proof -
    have "tset (tracker (commit (0, 4) (fresh_checkpointer 12))) = Add (empty_set 12) 0 4"
      by (simp add: commit_def fresh_checkpointer_def tracker_add_def)
    moreover have "MarshalBinary (Add (empty_set 12) 0 4) = Inr ?b" by code_simp
    ultimately show ?thesis by simp
  qed
  have blob: "blob ?c = Some ?b"
    using m by (simp add: checkpoint_def snapshot_def Let_def)
  have "(ckpt_step 12)\<^sup>*\<^sup>* (fresh_checkpointer 12) ?c"
    by (rule converse_rtranclp_into_rtranclp, rule flush [where r = "(0, 4)"], rule r_into_rtranclp, rule checkpointed)
  from progress_under_reports [OF this _ blob] have
    "\<forall>t. seed_intervals ?b 12 = Inr t \<longrightarrow> bytes (tset t) \<subseteq> durable ?c" by (simp add: MaxInt64_def)
  moreover have "seed_intervals ?b 12 = Inr \<lparr>tset = \<lparr>iv = [Iv 0 4], isize = 12\<rparr>, changes = 0\<rparr>" by code_simp
  ultimately show ?thesis unfolding Let_def blob by simp
qed

text \<open>An idle checkpoint is skipped exactly when there is nothing to save. After a checkpoint that
  persisted, a further unforced one is skipped if and only if no range was flushed since the
  persisted snapshot was taken (fewer than \<open>2 ^ 64\<close> of them); the stored blob is then the encoding
  of the current set.\<close>

lemma checkpoint_skip_exact:
  assumes "checkpoint force during True after True c = (c1, None)" "force \<or> \<not> haveLast c"
    and "length (during @ after @ rs) < 2 ^ 64"
  defines "c2 \<equiv> commits rs c1"
  shows "if during @ after @ rs = []
    then checkpoint False d f a p c2 = (c2, None) \<and> map_option Inr (blob c2) = Some (MarshalBinary (tset (tracker c2)))
    else checkpoint False [] False a p c2 = (c2, Some FsyncFailed)"
proof -
  from assms(1,2) obtain b where b: "MarshalBinary (tset (tracker c)) = Inr b"
    and c1: "c1 = (commits after ((commits during c)\<lparr>durable := written (commits during c)\<rparr>))
      \<lparr>blob := Some b, lastChanges := changes (tracker c), haveLast := True\<rparr>"
    by (auto simp: checkpoint_def snapshot_def Let_def split: sum.splits)
  let ?n = "length (during @ after @ rs)"
  have "unat (of_nat ?n :: u64) = ?n"
    using assms(3) by (simp add: unat_of_nat take_bit_nat_eq_self del: length_append)
  then have "?n = 0" if "(of_nat ?n :: u64) = 0" using that by (simp del: length_append)
  then have "(of_nat ?n :: u64) = 0 \<longleftrightarrow> during @ after @ rs = []" by auto
  moreover have "changes (tracker c2) = lastChanges c2 + of_nat ?n" and h: "haveLast c2"
    by (simp_all add: c2_def commits_frame c1 add.assoc)
  ultimately have ch: "changes (tracker c2) = lastChanges c2 \<longleftrightarrow> during @ after @ rs = []" by simp
  show ?thesis
  proof (cases "during @ after @ rs = []")
    case True
    then have "checkpoint False d f a p c2 = (c2, None)"
      using ch h by (simp add: checkpoint_def snapshot_def)
    moreover have "map_option Inr (blob c2) = Some (MarshalBinary (tset (tracker c2)))"
      using True b by (simp add: c2_def c1)
    ultimately show ?thesis using True by simp
  next
    case False
    then have "changes (tracker c2) \<noteq> lastChanges c2" using ch by blast
    then have "checkpoint False [] False a p c2 = (c2, Some FsyncFailed)"
      by (simp add: checkpoint_def snapshot_def)
    then show ?thesis unfolding if_not_P [OF False] .
  qed
qed

lemma checkpoint_skip_exact_example:
  "let c1 = fst (checkpoint True [] True [] True (fresh_checkpointer 12))
   in checkpoint False [] True [] True c1 = (c1, None) \<and>
      snd (checkpoint False [] False [] True (commits [(0, 4)] c1)) = Some FsyncFailed"
proof -
  have "MarshalBinary (empty_set 12) = Inr [0x48, 0x46, 0x44, 0x50, 1, 12, 0]" by code_simp
  then obtain c1 where c1: "checkpoint True [] True [] True (fresh_checkpointer 12) = (c1, None)"
    by (simp add: checkpoint_def snapshot_def Let_def fresh_checkpointer_def)
  show ?thesis
    using checkpoint_skip_exact [OF c1, of "[]" "[]" True "[]" True]
      checkpoint_skip_exact [OF c1, of "[(0, 4)]" "[]" True "[]" True] c1
    by (simp add: Let_def)
qed

text \<open>\<^verbatim>\<open>prefixCovered\<close> is the exact length of the flushed prefix: every byte it counts is flushed and
  the next one is not, so a re-attempt that skips it loses nothing and re-reads no more than needed;
  \<^verbatim>\<open>coversAll\<close> holds exactly when no byte of the file is missing.\<close>

lemma prefixCovered_exact:
  assumes "wf_ivs (iv (tset t))" "start < e"
  shows "0 \<le> prefixCovered t start e \<and> {start..<start + prefixCovered t start e} \<subseteq> bytes (tset t) \<and>
    start + prefixCovered t start e \<notin> bytes (tset t) \<and>
    (coversAll t tot \<longleftrightarrow> covered (Missing (tset t) tot) = {})"
  using prefix_loop_exact [OF assms] ivs.nothing_missing [OF assms(1), of tot]
  by (simp add: prefixCovered_def bytes_def coversAll_def)

lemma prefixCovered_exact_example:
  "let t = \<lparr>tset = \<lparr>iv = [Iv 0 4, Iv 8 20], isize = 30\<rparr>, changes = 0\<rparr>
   in prefixCovered t 10 16 = 10 \<and> {10..<20} \<subseteq> bytes (tset t)"
proof -
  let ?t = "\<lparr>tset = \<lparr>iv = [Iv 0 4, Iv 8 20], isize = 30\<rparr>, changes = 0\<rparr>"
  have p: "prefixCovered ?t 10 16 = 10" by code_simp
  have "wf_ivs (iv (tset ?t))" by (simp add: wf_ivs_def)
  from prefixCovered_exact [OF this, of 10 16] p show ?thesis by (simp add: Let_def)
qed

end
