(* ===== verification/Block_Stream.thy ===== *)
theory Block_Stream
  imports Checkpoint Http_Source
begin

text \<open>
  The data path of \<^verbatim>\<open>pkg/transfer/worker.go\<close>: one attempt at a block, from the body's reads through
  the slab buffer to the sink, with the commit gate of sequential mode, the flush of an aborted
  attempt and its zero padding.

  The sink is its content, a byte per offset. The body is the sequence of what its reads deliver:
  \<open>(data, err)\<close> is a piece of data with what the read reports after it; a read with less room than
  the piece takes a prefix and leaves the rest. Statistics and tracing are not part of the state.
\<close>

section \<open>State and environment\<close>

record Block =
  ID :: int
  Idx :: int
  Offset :: int
  Length :: int

definition Block_End :: "Block \<Rightarrow> int" where
  "Block_End b = Offset b + Length b"

record fileDownload =
  intervals :: intervalTracker
  content :: "int \<Rightarrow> byte"
  Sequential :: bool
  seqStarted :: bool
  seqCommit :: int

text \<open>
  \<open>wr off p\<close>: the outcome of a write, \<open>Some k\<close> a failure after \<open>k\<close> bytes. \<open>wakeups off\<close>: what peer
  workers do to the download each time the watermark wait at \<open>off\<close> is woken; when the list ends, the
  workers' context is done. \<open>killed\<close>: whether the stall monitor killed the connection.
\<close>

record io_env =
  wr :: "int \<Rightarrow> byte list \<Rightarrow> nat option"
  wakeups :: "int \<Rightarrow> (fileDownload \<Rightarrow> fileDownload) list"
  killed :: bool
  poolOk :: bool

datatype read_end = More | EOF | ReadErr

type_synonym body = "(byte list \<times> read_end) list"

fun body_read :: "nat \<Rightarrow> body \<Rightarrow> byte list \<times> read_end \<times> body" where
  "body_read room [] = ([], EOF, [])"
| "body_read room ((d, e) # rest) =
     (if length d \<le> room then (d, e, rest) else (take room d, More, (drop room d, e) # rest))"

definition writeAlign :: int where
  "writeAlign = 4096"

definition alignUp :: "int \<Rightarrow> int" where
  "alignUp off = (off + writeAlign - 1) div writeAlign * writeAlign"

definition write_at :: "int \<Rightarrow> byte list \<Rightarrow> (int \<Rightarrow> byte) \<Rightarrow> int \<Rightarrow> byte" where
  "write_at off p f = (\<lambda>i. if off \<le> i \<and> i < off + int (length p) then p ! nat (i - off) else f i)"

definition sink_write :: "io_env \<Rightarrow> byte list \<Rightarrow> int \<Rightarrow> fileDownload \<Rightarrow> transfer_error option \<times> fileDownload" where
  "sink_write env p off fd =
     (case wr env off p of
        None \<Rightarrow> (None, fd\<lparr>content := write_at off p (content fd)\<rparr>)
      | Some k \<Rightarrow> (Some (OtherError ''write''), fd\<lparr>content := write_at off (take k p) (content fd)\<rparr>))"

section \<open>The commit gate\<close>

fun seqWait_loop :: "(fileDownload \<Rightarrow> fileDownload) list \<Rightarrow> int \<Rightarrow> fileDownload \<Rightarrow> transfer_error option \<times> fileDownload" where
  "seqWait_loop [] off fd = (if off \<le> seqCommit fd then None else Some CtxErr, fd)"
| "seqWait_loop (w # ws) off fd = (if off \<le> seqCommit fd then (None, fd) else seqWait_loop ws off (w fd))"

definition seqWait :: "io_env \<Rightarrow> int \<Rightarrow> fileDownload \<Rightarrow> transfer_error option \<times> fileDownload" where
  "seqWait env off fd = (if \<not> Sequential fd then (None, fd) else seqWait_loop (wakeups env off) off fd)"

definition seqBaseline :: "int \<Rightarrow> fileDownload \<Rightarrow> fileDownload" where
  "seqBaseline off fd =
     (if \<not> Sequential fd then fd
      else if \<not> seqStarted fd then fd\<lparr>seqStarted := True, seqCommit := off\<rparr>
      else fd)"

definition seqAdvance :: "int \<Rightarrow> fileDownload \<Rightarrow> fileDownload" where
  "seqAdvance e fd = (if seqCommit fd < e then fd\<lparr>seqCommit := e\<rparr> else fd)"

definition committed :: "int \<Rightarrow> int \<Rightarrow> fileDownload \<Rightarrow> fileDownload" where
  "committed off n fd =
     (let fd = fd\<lparr>intervals := tracker_add off (off + n) (intervals fd)\<rparr>
      in if Sequential fd then seqAdvance (off + n) fd else fd)"

definition gatedWrite :: "io_env \<Rightarrow> byte list \<Rightarrow> int \<Rightarrow> fileDownload \<Rightarrow> transfer_error option \<times> fileDownload" where
  "gatedWrite env p off fd =
     (if length p = 0 then (None, fd)
      else case seqWait env off fd of
             (Some e, fd) \<Rightarrow> (Some e, fd)
           | (None, fd) \<Rightarrow>
               (case sink_write env p off fd of
                  (Some e, fd) \<Rightarrow> (Some e, fd)
                | (None, fd) \<Rightarrow> (None, committed off (int (length p)) fd)))"

text \<open>\<^verbatim>\<open>gatedWriteBuf\<close> is the same sequence over a full aligned slab.\<close>

definition gatedWriteBuf :: "io_env \<Rightarrow> byte list \<Rightarrow> int \<Rightarrow> fileDownload \<Rightarrow> transfer_error option \<times> fileDownload" where
  "gatedWriteBuf env p off fd =
     (case seqWait env off fd of
        (Some e, fd) \<Rightarrow> (Some e, fd)
      | (None, fd) \<Rightarrow>
          (case sink_write env p off fd of
             (Some e, fd) \<Rightarrow> (Some e, fd)
           | (None, fd) \<Rightarrow> (None, committed off (int (length p)) fd)))"

section \<open>Streaming\<close>

definition flushFullSlab ::
  "io_env \<Rightarrow> int \<Rightarrow> byte list \<Rightarrow> fileDownload \<Rightarrow> transfer_error option \<times> int \<times> byte list \<times> fileDownload" where
  "flushFullSlab env base buf fd =
     (if base mod writeAlign = 0
      then (case gatedWriteBuf env buf base fd of
              (Some e, fd) \<Rightarrow> (Some e, base, buf, fd)
            | (None, fd) \<Rightarrow> (None, base + int (length buf), [], fd))
      else
        (let head = alignUp base - base
         in case gatedWrite env (take (nat head) buf) base fd of
              (Some e, fd) \<Rightarrow> (Some e, base, buf, fd)
            | (None, fd) \<Rightarrow> (None, base + head, drop (nat head) buf, fd)))"

definition flushAbort :: "io_env \<Rightarrow> Block \<Rightarrow> int \<Rightarrow> byte list \<Rightarrow> fileDownload \<Rightarrow> fileDownload" where
  "flushAbort env b base buf fd =
     (if length buf = 0 then fd
      else case gatedWrite env buf base fd of
             (Some e, fd) \<Rightarrow> fd
           | (None, fd) \<Rightarrow>
               (let e = base + int (length buf); pad = alignUp e - e
                in if 0 < pad \<and> e + pad \<le> Block_End b
                   then snd (sink_write env (replicate (nat pad) 0) e fd)
                   else fd))"

definition classifyReadErr :: "io_env \<Rightarrow> transfer_error \<Rightarrow> transfer_error" where
  "classifyReadErr env err = (if killed env then attempt_error '''' FailStall else err)"

text \<open>
  The read loop and what follows it; \<open>expect\<close> is \<^verbatim>\<open>b.End() - base\<close> at its start, \<open>buf\<close> the filled part of
  the slab. The result is the number of bytes read, the error, and the download.
\<close>

partial_function (option) stream_loop ::
  "io_env \<Rightarrow> nat \<Rightarrow> Block \<Rightarrow> string \<Rightarrow> int \<Rightarrow> int \<Rightarrow> byte list \<Rightarrow> int \<Rightarrow> body \<Rightarrow> fileDownload
     \<Rightarrow> (int \<times> transfer_error option \<times> fileDownload) option" where
  "stream_loop env slab b up expect base buf n body fd =
     (case (if length buf = slab then flushFullSlab env base buf fd else (None, base, buf, fd)) of
        (Some e, base, buf, fd) \<Rightarrow> Some (n, Some e, fd)
      | (None, base, buf, fd) \<Rightarrow>
          (case body_read (slab - length buf) body of
             (d, rerr, body) \<Rightarrow>
               (let buf = buf @ d; n = n + int (length d)
                in if d \<noteq> [] \<and> Block_End b < base + int (length buf)
                   then Some (n, Some (attempt_error up FailValidation), fd)
                   else
                     (case rerr of
                        More \<Rightarrow> stream_loop env slab b up expect base buf n body fd
                      | ReadErr \<Rightarrow>
                          Some (n, Some (classifyReadErr env (OtherError ''read'')), flushAbort env b base buf fd)
                      | EOF \<Rightarrow>
                          if n \<noteq> expect
                          then Some (n, Some (attempt_error up FailShortBody), flushAbort env b base buf fd)
                          else if 0 < length buf
                          then (case gatedWrite env buf base fd of (e, fd) \<Rightarrow> Some (n, e, fd))
                          else Some (n, None, fd)))))"

text \<open>\<^verbatim>\<open>io.CopyN(io.Discard, body, n)\<close>: the body after \<open>n\<close> bytes, \<open>None\<close> when it ends or fails before.\<close>

fun discard :: "nat \<Rightarrow> body \<Rightarrow> body option" where
  "discard n body = (if n = 0 then Some body else
     (case body of
        [] \<Rightarrow> None
      | (d, e) # rest \<Rightarrow>
          if n < length d then Some ((drop n d, e) # rest)
          else if n = length d then Some (case e of More \<Rightarrow> rest | _ \<Rightarrow> ([], e) # rest)
          else (case e of More \<Rightarrow> discard (n - length d) rest | _ \<Rightarrow> None)))"

declare discard.simps [simp del]

definition streamBlock ::
  "io_env \<Rightarrow> nat \<Rightarrow> Block \<Rightarrow> string \<Rightarrow> body \<Rightarrow> fileDownload \<Rightarrow> (int \<times> transfer_error option \<times> fileDownload) option" where
  "streamBlock env slab b up body fd =
     (let skip = (if Sequential fd then prefixCovered (intervals fd) (Offset b) (Block_End b) else 0)
      in if 0 < skip \<and> Length b \<le> skip then Some (Length b, None, fd)
         else case (if 0 < skip then discard (nat skip) body else Some body) of
                None \<Rightarrow> Some (0, Some (classifyReadErr env (OtherError ''read'')), fd)
              | Some body \<Rightarrow>
                  (let base = Offset b + (if 0 < skip then skip else 0)
                   in if \<not> poolOk env then Some (0, Some CtxErr, fd)
                      else stream_loop env slab b up (Block_End b - base) base [] 0 body fd))"

section \<open>Bodies\<close>

text \<open>The bytes a body delivers before its first end or error, and how it ends.\<close>

fun delivered :: "body \<Rightarrow> byte list" where
  "delivered [] = []"
| "delivered ((d, e) # rest) = d @ (if e = More then delivered rest else [])"

fun ending :: "body \<Rightarrow> read_end" where
  "ending [] = EOF"
| "ending ((d, e) # rest) = (if e = More then ending rest else e)"

fun body_size :: "body \<Rightarrow> nat" where
  "body_size [] = 0"
| "body_size ((d, e) # rest) = Suc (length d + body_size rest)"

lemma body_read_spec:
  assumes "body_read room body = (d, e, body')"
  shows "length d \<le> room" "delivered body = d @ (if e = More then delivered body' else [])"
    "e = More \<Longrightarrow> 0 < room \<Longrightarrow> body_size body' < body_size body"
    "ending body = (if e = More then ending body' else e)"
  using assms by (induction room body rule: body_read.induct) (auto split: if_splits)

section \<open>Alignment\<close>

lemma alignUp_bounds: "off \<le> alignUp off" "alignUp off < off + writeAlign" "alignUp off mod writeAlign = 0"
  unfolding alignUp_def writeAlign_def by simp_all

lemma alignUp_gap: "off mod writeAlign \<noteq> 0 \<Longrightarrow> off < alignUp off"
  using alignUp_bounds(1,3) [of off] by (metis order_le_imp_less_or_eq)

section \<open>What an attempt does to the download\<close>

text \<open>
  From \<open>fd\<close> to \<open>fd'\<close>, exactly the first \<open>k\<close> bytes of \<open>D\<close> were flushed and recorded at \<open>base\<close>, and
  nothing outside \<open>[base, e)\<close> changed.
\<close>

definition flushed :: "int \<Rightarrow> int \<Rightarrow> byte list \<Rightarrow> nat \<Rightarrow> fileDownload \<Rightarrow> fileDownload \<Rightarrow> bool" where
  "flushed base e D k fd fd' \<longleftrightarrow> k \<le> length D \<and> base + int k \<le> e \<and>
     wf_ivs (iv (tset (intervals fd'))) \<and>
     bytes (tset (intervals fd')) = bytes (tset (intervals fd)) \<union> {base..<base + int k} \<and>
     (\<forall>i. base \<le> i \<and> i < base + int k \<longrightarrow> content fd' i = D ! nat (i - base)) \<and>
     (\<forall>i. i < base \<or> e \<le> i \<longrightarrow> content fd' i = content fd i) \<and> Sequential fd' = Sequential fd"

lemma write_at_apply:
  "write_at off p f i = (if off \<le> i \<and> i < off + int (length p) then p ! nat (i - off) else f i)"
  by (simp add: write_at_def)

lemma flushed_0:
  "wf_ivs (iv (tset (intervals fd))) \<Longrightarrow> base \<le> e \<Longrightarrow> flushed base e D 0 fd fd"
  by (auto simp: flushed_def)

lemma flushed_trans:
  assumes "flushed base e D1 (length D1) fd fd1" "flushed (base + int (length D1)) e D2 k fd1 fd2"
  shows "flushed base e (D1 @ D2) (length D1 + k) fd fd2"
proof -
  have "content fd2 i = (D1 @ D2) ! nat (i - base)" if i: "base \<le> i" "i < base + int (length D1 + k)" for i
  proof (cases "i < base + int (length D1)")
    case True
    then have "nat (i - base) < length D1" using i by linarith
    with True i assms show ?thesis by (simp add: flushed_def nth_append)
  next
    case False
    then have "\<not> nat (i - base) < length D1" "nat (i - base) - length D1 = nat (i - (base + int (length D1)))"
      by linarith+
    with False i assms(2) show ?thesis by (simp add: flushed_def nth_append)
  qed
  then show ?thesis using assms by (auto simp: flushed_def)
qed

lemma flushed_weaken: "flushed base e D k fd fd' \<Longrightarrow> flushed base e (D @ D') k fd fd'"
proof -
  assume f: "flushed base e D k fd fd'"
  have "nat (i - base) < length D" if "base \<le> i" "i < base + int k" for i
    using f that by (auto simp: flushed_def)
  with f show ?thesis by (auto simp: flushed_def nth_append)
qed

lemma flushed_scribble:
  assumes "flushed base e D k fd fd'" "\<And>i. i < base + int k \<or> e \<le> i \<Longrightarrow> g i = content fd' i"
  shows "flushed base e D k fd (fd'\<lparr>content := g\<rparr>)"
  using assms by (auto simp: flushed_def)

lemma sink_write_spec:
  assumes "sink_write env p off fd = (r, fd')" "wf_ivs (iv (tset (intervals fd)))" "off + int (length p) \<le> e" "\<not> Sequential fd"
  shows "r = None \<Longrightarrow> flushed off e p (length p) fd (committed off (int (length p)) fd')"
    "r \<noteq> None \<Longrightarrow> flushed off e p 0 fd fd'"
    "intervals fd' = intervals fd \<and> Sequential fd' = Sequential fd"
  using assms
  by (auto simp: sink_write_def flushed_def committed_def Let_def write_at_apply split: option.splits)

lemma gatedWrite_spec:
  assumes "gatedWrite env p off fd = (r, fd')" "wf_ivs (iv (tset (intervals fd)))" "off + int (length p) \<le> e"
    "\<not> Sequential fd"
  shows "flushed off e p (if r = None then length p else 0) fd fd'"
proof (cases "p = []")
  case True
  with assms show ?thesis by (simp add: gatedWrite_def flushed_0)
next
  case False
  obtain r1 fd1 where w: "sink_write env p off fd = (r1, fd1)" by force
  note s = sink_write_spec [OF w assms(2-4)]
  show ?thesis
    using assms(1,4) False w s(1,2) by (cases r1) (auto simp: gatedWrite_def seqWait_def)
qed

lemma gatedWriteBuf_eq: "p \<noteq> [] \<Longrightarrow> gatedWriteBuf env p off fd = gatedWrite env p off fd"
  by (simp add: gatedWriteBuf_def gatedWrite_def)

lemma flushFullSlab_spec:
  assumes "flushFullSlab env base buf fd = (r, base', buf', fd')" "wf_ivs (iv (tset (intervals fd)))"
    "base + int (length buf) \<le> e" "\<not> Sequential fd" "writeAlign \<le> int (length buf)"
  shows "r \<noteq> None \<Longrightarrow> flushed base e buf 0 fd fd'"
    "r = None \<Longrightarrow> \<exists>D1. buf = D1 @ buf' \<and> base' = base + int (length D1) \<and> D1 \<noteq> [] \<and>
       flushed base e D1 (length D1) fd fd'"
proof -
  let ?h = "nat (alignUp base - base)"
  have ne: "buf \<noteq> []" using assms(5) by (auto simp: writeAlign_def)
  have h: "int ?h = alignUp base - base" "?h \<le> length buf"
    using alignUp_bounds(1,2) [of base] assms(5) by simp_all
  have pos: "base mod writeAlign \<noteq> 0 \<Longrightarrow> 0 < ?h" using alignUp_gap [of base] by simp
  show "r \<noteq> None \<Longrightarrow> flushed base e buf 0 fd fd'"
    "r = None \<Longrightarrow> \<exists>D1. buf = D1 @ buf' \<and> base' = base + int (length D1) \<and> D1 \<noteq> [] \<and>
       flushed base e D1 (length D1) fd fd'"
  proof (atomize (full), cases "base mod writeAlign = 0")
    case True
    obtain r1 fd1 where w: "gatedWrite env buf base fd = (r1, fd1)" by force
    note s = gatedWrite_spec [OF w assms(2-4)]
    show "(r \<noteq> None \<longrightarrow> flushed base e buf 0 fd fd') \<and> (r = None \<longrightarrow> (\<exists>D1. buf = D1 @ buf' \<and>
        base' = base + int (length D1) \<and> D1 \<noteq> [] \<and> flushed base e D1 (length D1) fd fd'))"
      using assms(1) True ne w s by (cases r1) (auto simp: flushFullSlab_def gatedWriteBuf_eq)
  next
    case False
    obtain r1 fd1 where w: "gatedWrite env (take ?h buf) base fd = (r1, fd1)" by force
    have "base + int (length (take ?h buf)) \<le> e" using assms(3) h by simp
    note s = gatedWrite_spec [OF w assms(2) this assms(4)]
    have "flushed base e (take ?h buf @ drop ?h buf) 0 fd fd1" if "r1 \<noteq> None"
      using s that by (intro flushed_weaken) simp
    then show "(r \<noteq> None \<longrightarrow> flushed base e buf 0 fd fd') \<and> (r = None \<longrightarrow> (\<exists>D1. buf = D1 @ buf' \<and>
        base' = base + int (length D1) \<and> D1 \<noteq> [] \<and> flushed base e D1 (length D1) fd fd'))"
      using assms(1) False w s h pos ne
      by (cases r1) (auto simp: flushFullSlab_def Let_def intro!: exI [of _ "take ?h buf"])
  qed
qed

lemma flushAbort_spec:
  assumes "wf_ivs (iv (tset (intervals fd)))" "base + int (length buf) \<le> Block_End b" "\<not> Sequential fd"
  shows "\<exists>k. flushed base (Block_End b) buf k fd (flushAbort env b base buf fd)"
proof (cases "buf = []")
  case True
  with assms show ?thesis by (auto simp: flushAbort_def intro!: exI [of _ 0] flushed_0)
next
  case False
  obtain r1 fd1 where w: "gatedWrite env buf base fd = (r1, fd1)" by force
  note s = gatedWrite_spec [OF w assms]
  show ?thesis
  proof (cases r1)
    case None
    let ?e = "base + int (length buf)"
    have f: "flushed base (Block_End b) buf (length buf) fd fd1" using s None by simp
    have z: "\<exists>g. snd (sink_write env p ?e fd1) = fd1\<lparr>content := g\<rparr> \<and>
        (\<forall>i. i < ?e \<or> Block_End b \<le> i \<longrightarrow> g i = content fd1 i)" if "?e + int (length p) \<le> Block_End b" for p
      using that by (auto simp: sink_write_def write_at_apply min_def split: option.splits
          intro!: exI [of _ "write_at _ _ _"])
    have "flushed base (Block_End b) buf (length buf) fd (flushAbort env b base buf fd)"
      using f False w None z [of "replicate (nat (alignUp ?e - ?e)) 0"] alignUp_bounds(1) [of ?e]
      by (auto simp: flushAbort_def Let_def intro!: flushed_scribble)
    then show ?thesis by blast
  next
    case (Some e)
    with s w False show ?thesis by (auto simp: flushAbort_def)
  qed
qed

section \<open>The read loop\<close>

definition slab_room :: "io_env \<Rightarrow> nat \<Rightarrow> int \<Rightarrow> byte list \<Rightarrow> fileDownload
    \<Rightarrow> transfer_error option \<times> int \<times> byte list \<times> fileDownload" where
  "slab_room env slab base buf fd = (if length buf = slab then flushFullSlab env base buf fd else (None, base, buf, fd))"

lemma slab_room_None:
  assumes "slab_room env slab base buf fd = (None, base1, buf1, fd1)" "writeAlign \<le> int slab" "length buf \<le> slab"
    "wf_ivs (iv (tset (intervals fd)))" "\<not> Sequential fd" "base + int (length buf) \<le> e"
  obtains D1 where "buf = D1 @ buf1" "base1 = base + int (length D1)" "flushed base e D1 (length D1) fd fd1"
    "length buf1 < slab" "\<not> Sequential fd1" "wf_ivs (iv (tset (intervals fd1)))"
proof (cases "length buf = slab")
  case True
  then have ff: "flushFullSlab env base buf fd = (None, base1, buf1, fd1)" using assms(1) by (simp add: slab_room_def)
  have "writeAlign \<le> int (length buf)" using True assms(2) by simp
  from flushFullSlab_spec(2) [OF ff assms(4,6,5) this] obtain D1 where
    "buf = D1 @ buf1" "base1 = base + int (length D1)" "D1 \<noteq> []" "flushed base e D1 (length D1) fd fd1" by auto
  with True assms(5) show thesis by (intro that [of D1]) (auto simp: flushed_def)
next
  case False
  then show thesis using assms by (intro that [of "[]"]) (auto simp: slab_room_def intro!: flushed_0)
qed

lemma slab_room_Some:
  assumes "slab_room env slab base buf fd = (Some r, base1, buf1, fd1)" "writeAlign \<le> int slab"
    "wf_ivs (iv (tset (intervals fd)))" "\<not> Sequential fd" "base + int (length buf) \<le> e"
  shows "flushed base e (buf @ D) 0 fd fd1"
  using assms flushFullSlab_spec(1) [of env base buf fd "Some r" base1 buf1 fd1 e]
  by (intro flushed_weaken) (auto simp: slab_room_def split: if_splits)

text \<open>What the loop returns once the body has ended, with \<open>buf\<close> still in the slab.\<close>

definition stream_end :: "io_env \<Rightarrow> Block \<Rightarrow> string \<Rightarrow> int \<Rightarrow> int \<Rightarrow> byte list \<Rightarrow> int \<Rightarrow> read_end \<Rightarrow> fileDownload
    \<Rightarrow> int \<times> transfer_error option \<times> fileDownload" where
  "stream_end env b up expect base buf n rerr fd =
     (if rerr = ReadErr then (n, Some (classifyReadErr env (OtherError ''read'')), flushAbort env b base buf fd)
      else if n \<noteq> expect then (n, Some (attempt_error up FailShortBody), flushAbort env b base buf fd)
      else (n, gatedWrite env buf base fd))"

lemma stream_end_flushes:
  assumes "wf_ivs (iv (tset (intervals fd)))" "\<not> Sequential fd" "base + int (length buf) \<le> Block_End b"
    "stream_end env b up expect base buf n rerr fd = (n', err, fd')"
  shows "\<exists>k. flushed base (Block_End b) buf k fd fd' \<and>
    (err = None \<longrightarrow> k = length buf \<and> n = expect \<and> n' = expect \<and> rerr \<noteq> ReadErr)"
proof (cases "rerr = ReadErr \<or> n \<noteq> expect")
  case True
  then have "fd' = flushAbort env b base buf fd" "err \<noteq> None"
    using assms(4) by (auto simp: stream_end_def split: if_splits)
  then show ?thesis using flushAbort_spec [OF assms(1,3,2)] by auto
next
  case False
  then have "gatedWrite env buf base fd = (err, fd')" "n' = expect"
    using assms(4) by (auto simp: stream_end_def split: if_splits)
  with False gatedWrite_spec [OF this(1) assms(1,3,2)] show ?thesis by (cases err) auto
qed

lemma stream_loop_unfold:
  "stream_loop env slab b up expect base buf n body fd =
     (case slab_room env slab base buf fd of
        (Some e, base, buf, fd) \<Rightarrow> Some (n, Some e, fd)
      | (None, base, buf, fd) \<Rightarrow>
          (case body_read (slab - length buf) body of
             (d, rerr, body) \<Rightarrow>
               if d \<noteq> [] \<and> Block_End b < base + int (length (buf @ d))
               then Some (n + int (length d), Some (attempt_error up FailValidation), fd)
               else if rerr = More
               then stream_loop env slab b up expect base (buf @ d) (n + int (length d)) body fd
               else Some (stream_end env b up expect base (buf @ d) (n + int (length d)) rerr fd)))"
proof -
  obtain r base1 buf1 fd1 where s: "slab_room env slab base buf fd = (r, base1, buf1, fd1)" by (metis prod_cases4)
  obtain d rerr body1 where rd: "body_read (slab - length buf1) body = (d, rerr, body1)" by (metis prod_cases3)
  have tail: "stream_end env b up expect base1 (buf1 @ d) (n + int (length d)) EOF fd1 =
      (if n + int (length d) \<noteq> expect
       then (n + int (length d), Some (attempt_error up FailShortBody), flushAbort env b base1 (buf1 @ d) fd1)
       else if 0 < length (buf1 @ d)
       then (case gatedWrite env (buf1 @ d) base1 fd1 of (e, fd) \<Rightarrow> (n + int (length d), e, fd))
       else (n + int (length d), None, fd1))"
    by (simp add: stream_end_def gatedWrite_def split: prod.split)
  show ?thesis
    unfolding s
    by (subst stream_loop.simps, cases r; cases rerr)
      (simp_all add: s [unfolded slab_room_def] rd tail Let_def prod.case_distrib [of Some]
        stream_end_def [of _ _ _ _ _ _ _ ReadErr] if_distrib [of Some])
qed

lemma stream_loop_flushes:
  assumes "writeAlign \<le> int slab" "length buf \<le> slab" "wf_ivs (iv (tset (intervals fd)))" "\<not> Sequential fd"
    and "base + int (length buf) \<le> Block_End b" "n = base + int (length buf) - (Block_End b - expect)"
  shows "\<exists>n' err fd' k. stream_loop env slab b up expect base buf n body fd = Some (n', err, fd') \<and>
    flushed base (Block_End b) (buf @ delivered body) k fd fd' \<and>
    (err = None \<longrightarrow> k = length (buf @ delivered body) \<and> base + int k = Block_End b \<and> n' = expect \<and> ending body = EOF)"
  using assms(2-)
proof (induction "body_size body" arbitrary: body buf fd base n rule: less_induct)
  case less
  let ?E = "Block_End b"
  obtain r1 base1 buf1 fd1 where s: "slab_room env slab base buf fd = (r1, base1, buf1, fd1)" by (metis prod_cases4)
  show ?case
  proof (cases r1)
    case (Some e)
    with s slab_room_Some [OF _ assms(1) less.prems(2,3,4)] show ?thesis
      by (subst stream_loop_unfold) fastforce
  next
    case None
    from slab_room_None [OF s [unfolded None] assms(1) less.prems(1-4)] obtain D1 where
      D1: "buf = D1 @ buf1" "base1 = base + int (length D1)" "flushed base ?E D1 (length D1) fd fd1"
        "length buf1 < slab" and fd1: "\<not> Sequential fd1" "wf_ivs (iv (tset (intervals fd1)))" .
    obtain d rerr body1 where rd: "body_read (slab - length buf1) body = (d, rerr, body1)" by (metis prod_cases3)
    note bs = body_read_spec [OF rd]
    let ?rest = "if rerr = More then delivered body1 else []"
    have glue: "flushed base ?E (buf @ delivered body) (length D1 + k) fd fd2"
      if "flushed base1 ?E ((buf1 @ d) @ ?rest) k fd1 fd2" for k fd2
      using flushed_trans [OF D1(3), of "(buf1 @ d) @ ?rest" k fd2] that bs(2) D1(1,2) by simp
    have n: "n + int (length d) = base1 + int (length (buf1 @ d)) - (?E - expect)" using less.prems(5) D1(1,2) by simp
    show ?thesis
    proof (cases "d \<noteq> [] \<and> ?E < base1 + int (length (buf1 @ d))")
      case True
      have "flushed base1 ?E ((buf1 @ d) @ ?rest) 0 fd1 fd1"
        using fd1(2) D1(2,3) by (intro flushed_0) (simp_all add: flushed_def)
      from glue [OF this] True s None rd show ?thesis by (subst stream_loop_unfold) auto
    next
      case fits: False
      then have le: "base1 + int (length (buf1 @ d)) \<le> ?E" using less.prems(4) D1(1,2) by (cases "d = []") auto
      show ?thesis
      proof (cases "rerr = More")
        case True
        have "length (buf1 @ d) \<le> slab" using bs(1) D1(4) by simp
        from less.hyps [OF bs(3) [OF True] this fd1(2,1) le n] D1(4) obtain n' err fd' k where
          ih: "stream_loop env slab b up expect base1 (buf1 @ d) (n + int (length d)) body1 fd1 = Some (n', err, fd')"
            "flushed base1 ?E ((buf1 @ d) @ delivered body1) k fd1 fd'"
            "err = None \<longrightarrow> k = length ((buf1 @ d) @ delivered body1) \<and> base1 + int k = ?E \<and> n' = expect \<and> ending body1 = EOF"
          by auto
        have "stream_loop env slab b up expect base buf n body fd = Some (n', err, fd')"
          using fits True ih(1) s None rd by (subst stream_loop_unfold) auto
        with ih(2,3) glue [of k fd'] bs(2,4) D1(1,2) True show ?thesis by (intro exI conjI) auto
      next
        case False
        obtain n' err fd' where e: "stream_end env b up expect base1 (buf1 @ d) (n + int (length d)) rerr fd1 = (n', err, fd')"
          by (metis prod_cases3)
        from stream_end_flushes [OF fd1(2,1) le e] obtain k where k: "flushed base1 ?E (buf1 @ d) k fd1 fd'"
          "err = None \<longrightarrow> k = length (buf1 @ d) \<and> n + int (length d) = expect \<and> n' = expect \<and> rerr \<noteq> ReadErr" by blast
        have "stream_loop env slab b up expect base buf n body fd = Some (n', err, fd')"
          using fits False e s None rd by (subst stream_loop_unfold) auto
        with k glue [of k fd'] bs(2,4) D1(1,2) False n show ?thesis
          by (intro exI conjI) (cases rerr; auto)+
      qed
    qed
  qed
qed

lemma streamBlock_flushes:
  assumes "writeAlign \<le> int slab" "wf_ivs (iv (tset (intervals fd)))" "\<not> Sequential fd" "0 \<le> Length b"
  shows "\<exists>n err fd' k. streamBlock env slab b up body fd = Some (n, err, fd') \<and>
    flushed (Offset b) (Block_End b) (delivered body) k fd fd' \<and>
    (err = None \<longrightarrow> int k = Length b \<and> k = length (delivered body) \<and> n = Length b \<and> ending body = EOF)"
proof (cases "poolOk env")
  case True
  from stream_loop_flushes [where buf = "[]" and base = "Offset b" and n = 0 and expect = "Length b" and b = b
      and body = body and env = env and up = up, OF assms(1) _ assms(2,3)]
  show ?thesis using assms(3,4) True by (auto simp: streamBlock_def Block_End_def)
next
  case False
  then show ?thesis
    using assms by (auto simp: streamBlock_def Block_End_def intro!: exI [of _ 0] flushed_0)
qed

section \<open>A clean stream succeeds\<close>

lemma gatedWrite_ok: "\<forall>off p. wr env off p = None \<Longrightarrow> \<not> Sequential fd \<Longrightarrow> fst (gatedWrite env p off fd) = None"
  by (simp add: gatedWrite_def seqWait_def sink_write_def)

lemma slab_room_ok:
  "\<forall>off p. wr env off p = None \<Longrightarrow> \<not> Sequential fd \<Longrightarrow> fst (slab_room env slab base buf fd) = None"
  using gatedWrite_ok [of env fd]
  by (auto simp: slab_room_def flushFullSlab_def gatedWriteBuf_def seqWait_def sink_write_def Let_def
      split: prod.splits option.splits) (metis fst_conv option.distinct(1))

lemma stream_loop_succeeds:
  assumes "writeAlign \<le> int slab" "length buf \<le> slab" "wf_ivs (iv (tset (intervals fd)))" "\<not> Sequential fd"
    and "\<forall>off p. wr env off p = None" "ending body = EOF"
    and "base + int (length (buf @ delivered body)) = Block_End b" "n + int (length (delivered body)) = expect"
  shows "\<exists>fd'. stream_loop env slab b up expect base buf n body fd = Some (expect, None, fd')"
  using assms(2-4,6-)
proof (induction "body_size body" arbitrary: body buf fd base n rule: less_induct)
  case less
  have le: "base + int (length buf) \<le> Block_End b" using less.prems(5) by simp
  obtain base1 buf1 fd1 where s: "slab_room env slab base buf fd = (None, base1, buf1, fd1)"
    using slab_room_ok [OF assms(5) less.prems(3), of slab base buf] by (metis fst_conv prod_cases4)
  from slab_room_None [OF s assms(1) less.prems(1-3) le] obtain D1 where
    D1: "buf = D1 @ buf1" "base1 = base + int (length D1)" "length buf1 < slab"
    and fd1: "\<not> Sequential fd1" "wf_ivs (iv (tset (intervals fd1)))" by metis
  obtain d rerr body1 where rd: "body_read (slab - length buf1) body = (d, rerr, body1)" by (metis prod_cases3)
  note bs = body_read_spec [OF rd]
  have fits: "\<not> (d \<noteq> [] \<and> Block_End b < base1 + int (length (buf1 @ d)))"
    using less.prems(5) D1(1,2) bs(2) by simp
  show ?case
  proof (cases "rerr = More")
    case True
    have "length (buf1 @ d) \<le> slab" "ending body1 = EOF"
      "base1 + int (length ((buf1 @ d) @ delivered body1)) = Block_End b"
      "n + int (length d) + int (length (delivered body1)) = expect"
      using bs D1 less.prems(4-6) True by simp_all
    from less.hyps [OF bs(3) [OF True] this(1) fd1(2,1) this(2-4)] D1(3) fits True s rd show ?thesis
      by (subst stream_loop_unfold) auto
  next
    case False
    have "rerr = EOF" "n + int (length d) = expect" using bs(2,4) less.prems(4,6) False by simp_all
    then have "stream_end env b up expect base1 (buf1 @ d) (n + int (length d)) rerr fd1
        = (expect, None, snd (gatedWrite env (buf1 @ d) base1 fd1))"
      using gatedWrite_ok [OF assms(5) fd1(1), of "buf1 @ d" base1] by (simp add: stream_end_def prod_eq_iff)
    with fits False s rd show ?thesis by (subst stream_loop_unfold) auto
  qed
qed

section \<open>Invariants of the commit gate\<close>

lemma slab_room_shrinks:
  assumes "slab_room env slab base buf fd = (None, base1, buf1, fd1)" "writeAlign \<le> int slab" "length buf \<le> slab"
  shows "length buf1 < slab"
  using assms alignUp_gap [of base]
  by (auto simp: slab_room_def flushFullSlab_def Let_def writeAlign_def split: if_splits prod.splits option.splits)

text \<open>
  What every write of an attempt keeps: an assertion that survives the peers' wakeups, a change of the
  file's content, and the recording of a range that has passed the gate.
\<close>

locale stream_invariant =
  fixes env :: io_env and P :: "fileDownload \<Rightarrow> bool"
  assumes wakeup: "w \<in> set (wakeups env off) \<Longrightarrow> P fd \<Longrightarrow> P (w fd)"
    and content: "P fd \<Longrightarrow> P (fd\<lparr>content := g\<rparr>)"
    and commit: "P fd \<Longrightarrow> (Sequential fd \<Longrightarrow> off \<le> seqCommit fd) \<Longrightarrow> 0 \<le> n \<Longrightarrow> P (committed off n fd)"
begin

lemma seqWait_loop_keeps:
  "set ws \<subseteq> set (wakeups env off) \<Longrightarrow> P fd \<Longrightarrow> seqWait_loop ws off fd = (r, fd') \<Longrightarrow>
   P fd' \<and> (r = None \<longrightarrow> off \<le> seqCommit fd')"
  by (induction ws off fd rule: seqWait_loop.induct) (auto split: if_splits intro: wakeup)

lemma seqWait_keeps:
  "P fd \<Longrightarrow> seqWait env off fd = (r, fd') \<Longrightarrow> P fd' \<and> (r = None \<longrightarrow> Sequential fd' \<longrightarrow> off \<le> seqCommit fd')"
  by (auto simp: seqWait_def split: if_splits dest: seqWait_loop_keeps [OF subset_refl])

lemma sink_write_keeps:
  "P fd \<Longrightarrow> sink_write env p off fd = (r, fd') \<Longrightarrow> P fd' \<and> Sequential fd' = Sequential fd \<and> seqCommit fd' = seqCommit fd"
  by (auto simp: sink_write_def content split: option.splits)

lemma gatedWriteBuf_keeps:
  assumes "P fd" "gatedWriteBuf env p off fd = (r, fd')"
  shows "P fd'"
proof -
  obtain r1 fd1 where w: "seqWait env off fd = (r1, fd1)" by force
  note 1 = seqWait_keeps [OF assms(1) w]
  obtain r2 fd2 where k: "sink_write env p off fd1 = (r2, fd2)" by force
  have 2: "P fd2" "Sequential fd2 = Sequential fd1" "seqCommit fd2 = seqCommit fd1"
    using sink_write_keeps [OF conjunct1 [OF 1] k] by simp_all
  have "P (committed off (int (length p)) fd2)" if "r1 = None"
    by (rule commit [OF 2(1)]) (use 1 2 that in simp_all)
  then show ?thesis
    using assms(2) 1 2(1) by (cases r1; cases r2) (auto simp: gatedWriteBuf_def w k)
qed

lemma gatedWrite_keeps:
  assumes "P fd" "gatedWrite env p off fd = (r, fd')"
  shows "P fd'"
proof (cases "p = []")
  case True
  with assms show ?thesis by (simp add: gatedWrite_def)
next
  case False
  then have "gatedWriteBuf env p off fd = (r, fd')" using assms(2) by (simp add: gatedWriteBuf_eq)
  with assms(1) show ?thesis by (rule gatedWriteBuf_keeps)
qed

lemma slab_room_keeps: "P fd \<Longrightarrow> slab_room env slab base buf fd = (r, base', buf', fd') \<Longrightarrow> P fd'"
  by (auto simp: slab_room_def flushFullSlab_def Let_def split: if_splits prod.splits option.splits
      dest: gatedWrite_keeps gatedWriteBuf_keeps)

lemma flushAbort_keeps: "P fd \<Longrightarrow> P (flushAbort env b base buf fd)"
proof -
  assume P: "P fd"
  obtain r fd1 where w: "gatedWrite env buf base fd = (r, fd1)" by force
  have "P (snd (sink_write env p off fd1))" for p off
    using sink_write_keeps [OF gatedWrite_keeps [OF P w]] by (metis prod.collapse)
  then show ?thesis
    using P w gatedWrite_keeps [OF P w] by (simp add: flushAbort_def Let_def split: option.split)
qed

lemma stream_end_keeps: "P fd \<Longrightarrow> stream_end env b up expect base buf n rerr fd = (n', err, fd') \<Longrightarrow> P fd'"
  by (auto simp: stream_end_def split: if_splits intro: flushAbort_keeps gatedWrite_keeps)

lemma stream_loop_keeps:
  assumes "writeAlign \<le> int slab" "length buf \<le> slab" "P fd"
  shows "\<exists>n' err fd'. stream_loop env slab b up expect base buf n body fd = Some (n', err, fd') \<and> P fd'"
  using assms(2,3)
proof (induction "body_size body" arbitrary: body buf fd base n rule: less_induct)
  case less
  obtain r1 base1 buf1 fd1 where s: "slab_room env slab base buf fd = (r1, base1, buf1, fd1)" by (metis prod_cases4)
  have P1: "P fd1" by (rule slab_room_keeps [OF less.prems(2) s])
  show ?case
  proof (cases r1)
    case (Some e)
    with s P1 show ?thesis by (subst stream_loop_unfold) auto
  next
    case None
    obtain d rerr body1 where rd: "body_read (slab - length buf1) body = (d, rerr, body1)" by (metis prod_cases3)
    note bs = body_read_spec [OF rd]
    have len: "length buf1 < slab" by (rule slab_room_shrinks [OF s [unfolded None] assms(1) less.prems(1)])
    obtain n' err fd' where e: "stream_end env b up expect base1 (buf1 @ d) (n + int (length d)) rerr fd1 = (n', err, fd')"
      by (metis prod_cases3)
    show ?thesis
    proof (cases "rerr = More")
      case True
      have "length (buf1 @ d) \<le> slab" using bs(1) len by simp
      from less.hyps [OF bs(3) [OF True] this P1, of base1 "n + int (length d)"] len s None rd True P1 show ?thesis
        by (subst stream_loop_unfold) auto
    next
      case False
      with s None rd P1 e stream_end_keeps [OF P1 e] show ?thesis by (subst stream_loop_unfold) auto
    qed
  qed
qed

lemma streamBlock_keeps:
  assumes "writeAlign \<le> int slab" "P fd"
  shows "\<exists>n err fd'. streamBlock env slab b up body fd = Some (n, err, fd') \<and> P fd'"
proof -
  have "\<exists>n err fd'. stream_loop env slab b up x y [] 0 z fd = Some (n, err, fd') \<and> P fd'" for x y z
    by (rule stream_loop_keeps) (use assms in simp_all)
  then show ?thesis using assms(2) by (auto simp: streamBlock_def Let_def split: option.split)
qed

end

interpretation returns: stream_invariant env "\<lambda>_. True" for env
  by unfold_locales simp_all

text \<open>
  The watermark of sequential mode: everything from the baseline up to it is recorded. Peers are the
  gated writes of other workers.
\<close>

definition watermark_ok :: "int \<Rightarrow> fileDownload \<Rightarrow> bool" where
  "watermark_ok base0 fd \<longleftrightarrow> wf_ivs (iv (tset (intervals fd))) \<and>
     (Sequential fd \<longrightarrow> {base0..<seqCommit fd} \<subseteq> bytes (tset (intervals fd)))"

definition peer_writes :: "io_env \<Rightarrow> (int \<times> byte list) list \<Rightarrow> io_env" where
  "peer_writes env ws = env\<lparr>wakeups := \<lambda>_. map (\<lambda>(off, p) fd. snd (gatedWrite (env\<lparr>wakeups := \<lambda>_. []\<rparr>) p off fd)) ws\<rparr>"

lemma watermark_commit:
  "watermark_ok base0 fd \<Longrightarrow> (Sequential fd \<Longrightarrow> off \<le> seqCommit fd) \<Longrightarrow> 0 \<le> n \<Longrightarrow> watermark_ok base0 (committed off n fd)"
  by (auto simp: watermark_ok_def committed_def seqAdvance_def Let_def not_less)

interpretation lone: stream_invariant "env\<lparr>wakeups := \<lambda>_. []\<rparr>" "watermark_ok base0" for env base0
  by unfold_locales (simp_all add: watermark_commit, simp add: watermark_ok_def)

interpretation watermark: stream_invariant "peer_writes env ws" "watermark_ok base0" for env ws base0
proof unfold_locales
  show "watermark_ok base0 (w fd)" if "w \<in> set (wakeups (peer_writes env ws) off)" "watermark_ok base0 fd" for w off fd
  proof -
    from that(1) obtain off' p where w: "w fd = snd (gatedWrite (env\<lparr>wakeups := \<lambda>_. []\<rparr>) p off' fd)"
      by (auto simp: peer_writes_def)
    show ?thesis unfolding w using lone.gatedWrite_keeps [OF that(2)] by (metis prod.collapse)
  qed
qed (simp_all add: watermark_commit, simp add: watermark_ok_def)

section \<open>Recorded bytes and the file's true content\<close>

definition faithful :: "(int \<Rightarrow> byte) \<Rightarrow> fileDownload \<Rightarrow> bool" where
  "faithful F fd \<longleftrightarrow> (\<forall>i \<in> bytes (tset (intervals fd)). content fd i = F i)"

definition demo_env :: io_env where
  "demo_env = \<lparr>wr = (\<lambda>_ _. None), wakeups = (\<lambda>_. []), killed = False, poolOk = True\<rparr>"

definition demo_fd :: "bool \<Rightarrow> Interval list \<Rightarrow> fileDownload" where
  "demo_fd sq ivs = \<lparr>intervals = \<lparr>tset = \<lparr>iv = ivs, isize = 8192\<rparr>, changes = 0\<rparr>, content = (\<lambda>_. 7),
     Sequential = sq, seqStarted = sq, seqCommit = 0\<rparr>"

definition demo_blk :: Block where
  "demo_blk = \<lparr>ID = 1, Idx = 0, Offset = 0, Length = 8192\<rparr>"

section \<open>Properties\<close>



text \<open>C16: A block reported complete is complete. When an attempt ends without error, the body delivered
  exactly the block's bytes before its end, the file holds them at the block's offset and is
  unchanged elsewhere, and exactly the block was added to the recorded ranges; and a body that delivers
  exactly the block, written without error, is reported complete.\<close>

theorem streamBlock_correct:
  assumes "writeAlign \<le> int slab" "wf_ivs (iv (tset (intervals fd)))" "\<not> Sequential fd" "0 \<le> Length b"
  shows "(streamBlock env slab b up body fd = Some (n, None, fd') \<longrightarrow>
      n = Length b \<and> int (length (delivered body)) = Length b \<and> ending body = EOF \<and>
      content fd' = write_at (Offset b) (delivered body) (content fd) \<and>
      bytes (tset (intervals fd')) = bytes (tset (intervals fd)) \<union> {Offset b..<Block_End b}) \<and>
    (poolOk env \<and> (\<forall>off p. wr env off p = None) \<and> int (length (delivered body)) = Length b \<and> ending body = EOF \<longrightarrow>
      (\<exists>fd'. streamBlock env slab b up body fd = Some (Length b, None, fd')))"
proof -
  have "n = Length b \<and> int (length (delivered body)) = Length b \<and> ending body = EOF \<and>
      content fd' = write_at (Offset b) (delivered body) (content fd) \<and>
      bytes (tset (intervals fd')) = bytes (tset (intervals fd)) \<union> {Offset b..<Block_End b}"
    if "streamBlock env slab b up body fd = Some (n, None, fd')"
    using streamBlock_flushes [OF assms, of env up body] that
    by (auto simp: flushed_def Block_End_def write_at_def fun_eq_iff)
  moreover have "\<exists>fd'. streamBlock env slab b up body fd = Some (Length b, None, fd')"
    if "poolOk env" "\<forall>off p. wr env off p = None" "int (length (delivered body)) = Length b" "ending body = EOF"
    using stream_loop_succeeds [where buf = "[]" and base = "Offset b" and n = 0 and b = b and expect = "Length b" and up = up,
        OF assms(1) _ assms(2,3) that(2,4)] that(1,3) assms(3)
    by (simp add: streamBlock_def Block_End_def)
  ultimately show ?thesis by blast
qed

theorem streamBlock_correct_witness:
  "\<exists>fd'. streamBlock demo_env 4096 (demo_blk\<lparr>Length := 3\<rparr>) ''m'' [([1, 2], More), ([3], EOF)] (demo_fd False []) = Some (3, None, fd') \<and>
     content fd' 1 = 2 \<and> content fd' 3 = 7 \<and> bytes (tset (intervals fd')) = {0..<3}"
proof -
  let ?b = "demo_blk\<lparr>Length := 3\<rparr>" and ?body = "[([1, 2], More), ([3], EOF)]"
  have pre: "wf_ivs (iv (tset (intervals (demo_fd False []))))" "\<not> Sequential (demo_fd False [])" "0 \<le> Length ?b"
    "writeAlign \<le> int 4096" by (simp_all add: demo_fd_def demo_blk_def writeAlign_def)
  have del: "int (length (delivered ?body)) = Length ?b" "ending ?body = EOF" "Length ?b = 3"
    by (simp_all add: demo_blk_def)
  note c = streamBlock_correct [OF pre(4,1-3), of demo_env "''m''" ?body]
  obtain fd' where r: "streamBlock demo_env 4096 ?b ''m'' ?body (demo_fd False []) = Some (3, None, fd')"
    using c [THEN conjunct2] del by (auto simp: demo_env_def)
  have "content fd' = write_at 0 [1, 2, 3] (\<lambda>_. 7)" "bytes (tset (intervals fd')) = {0..<3}"
    using c [THEN conjunct1, rule_format, OF r]
    by (simp_all add: demo_blk_def demo_fd_def Block_End_def bytes_def)
  with r show ?thesis by (auto simp: write_at_def)
qed



text \<open>C19: A later attempt can destroy recorded bytes. When an attempt that received \<open>d\<close> bytes is aborted,
  the padding up to the next alignment boundary is written as zeros, also over bytes an earlier attempt
  flushed there; they stay recorded, so the record no longer agrees with the file.\<close>

theorem abort_padding_destroys_recorded:
  assumes "\<not> Sequential fd" "wf_ivs (iv (tset (intervals fd)))" "poolOk env" "\<forall>off p. wr env off p = None"
    and "0 < length d" "length d < slab" "alignUp (Offset b + int (length d)) \<le> Block_End b"
    and "i \<in> bytes (tset (intervals fd))" "Offset b + int (length d) \<le> i" "i < alignUp (Offset b + int (length d))" "F i \<noteq> 0"
  shows "\<exists>err fd'. streamBlock env slab b up [(d, ReadErr)] fd = Some (int (length d), Some err, fd') \<and>
    i \<in> bytes (tset (intervals fd')) \<and> content fd' i = 0 \<and> \<not> faithful F fd'"
proof -
  let ?e = "Offset b + int (length d)" and ?pad = "alignUp (Offset b + int (length d)) - (Offset b + int (length d))"
  define fd1 where "fd1 = (fd\<lparr>content := write_at (Offset b) d (content fd)\<rparr>)
    \<lparr>intervals := tracker_add (Offset b) ?e (intervals fd)\<rparr>"
  have g: "gatedWrite env d (Offset b) fd = (None, fd1)"
    using assms(1,4,5) by (simp add: gatedWrite_def seqWait_def sink_write_def committed_def Let_def fd1_def)
  have e: "?e < alignUp ?e" "?e \<le> Block_End b" using assms(7,9,10) alignUp_bounds(1) [of ?e] by linarith+
  have z: "flushAbort env b (Offset b) d fd = fd1\<lparr>content := write_at ?e (replicate (nat ?pad) 0) (content fd1)\<rparr>"
    using assms(4,5,7) g e by (simp add: flushAbort_def Let_def sink_write_def)
  have "streamBlock env slab b up [(d, ReadErr)] fd =
      Some (int (length d), Some (classifyReadErr env (OtherError ''read'')), flushAbort env b (Offset b) d fd)"
    using assms(1,3,5,6) e(2)
    by (simp add: streamBlock_def stream_loop_unfold slab_room_def stream_end_def Let_def)
  moreover have r: "i \<in> bytes (tset (intervals (flushAbort env b (Offset b) d fd)))"
    using assms(2,8) by (simp add: z fd1_def)
  moreover have c: "content (flushAbort env b (Offset b) d fd) i = 0"
    using assms(9,10) by (simp add: z write_at_def)
  moreover have "\<not> faithful F (flushAbort env b (Offset b) d fd)"
    using assms(11) r c unfolding faithful_def by metis
  ultimately show ?thesis by blast
qed

theorem abort_padding_destroys_recorded_witness:
  "\<exists>err fd'. streamBlock demo_env 4096 demo_blk ''m'' [([7], ReadErr)] (demo_fd False [Iv 0 2]) = Some (1, Some err, fd') \<and>
     1 \<in> bytes (tset (intervals fd')) \<and> content fd' 1 = 0 \<and> faithful (\<lambda>_. 7) (demo_fd False [Iv 0 2]) \<and> \<not> faithful (\<lambda>_. 7) fd'"
proof -
  have a: "alignUp 1 = 4096" by (simp add: alignUp_def writeAlign_def)
  have pre: "\<not> Sequential (demo_fd False [Iv 0 2])" "wf_ivs (iv (tset (intervals (demo_fd False [Iv 0 2]))))"
    "poolOk demo_env" "\<forall>off p. wr demo_env off p = None" "1 \<in> bytes (tset (intervals (demo_fd False [Iv 0 2])))"
    by (simp_all add: demo_fd_def demo_env_def wf_ivs_def bytes_def)
  have b: "alignUp (Offset demo_blk + int (length [7 :: byte])) \<le> Block_End demo_blk"
    "Offset demo_blk + int (length [7 :: byte]) \<le> 1" "1 < alignUp (Offset demo_blk + int (length [7 :: byte]))"
    using a by (simp_all add: demo_blk_def Block_End_def)
  have "faithful (\<lambda>_. 7) (demo_fd False [Iv 0 2])" by (simp add: faithful_def demo_fd_def)
  then show ?thesis
    using abort_padding_destroys_recorded [OF pre(1-4) _ _ b(1) pre(5) b(2,3), of 4096 "\<lambda>_. 7" "''m''"] by auto
qed



end
