(* ===== verification/Stall.thy ===== *)
theory Stall
  imports Prelude
begin

text \<open>
  \<^verbatim>\<open>pkg/transfer/killgate.go\<close> and \<^verbatim>\<open>stall.go\<close>: the process-wide gate for throughput kills and the
  per-file stall monitor. What a call reads from the clock, the global rate and the limiter is a record
  of readings, one for each call of the gate: \<^verbatim>\<open>tryKill\<close> reads its own clock, which is not the
  \<^verbatim>\<open>now\<close> of the sweep that calls it, and reads the rate a second time for the baseline. Rates are
  reals. The monitor's set of connections is a list; a Go map is iterated in any
  order, and so is the list: every statement below is about all lists.
\<close>

section \<open>The kill gate\<close>

definition killVerifyWindow :: duration where "killVerifyWindow = 30 * second"
definition killSuppressMin :: duration where "killSuppressMin = 30 * second"
definition killSuppressMax :: duration where "killSuppressMax = 5 * minute"
definition killUtilCeiling :: real where "killUtilCeiling = 9 / 10"
definition killGain :: real where "killGain = 5 / 100"

lemmas gate_consts = killVerifyWindow_def killSuppressMin_def killSuppressMax_def time_units

text \<open>The zero time of \<^verbatim>\<open>suppressUntil\<close> is \<open>None\<close>.\<close>

record killGate =
  verifying :: bool
  verifyUntil :: time
  baseRate :: real
  suppressUntil :: "time option"
  suppress :: duration

record reading =
  r_now :: time
  r_rate :: real
  r_util :: real
  r_base :: real

definition newKillGate :: killGate where
  "newKillGate = \<lparr>verifying = False, verifyUntil = 0, baseRate = 0, suppressUntil = None, suppress = 0\<rparr>"

definition resolveLocked :: "real \<Rightarrow> time \<Rightarrow> killGate \<Rightarrow> killGate" where
  "resolveLocked rate now g =
     (if \<not> verifying g \<or> now < verifyUntil g then g
      else
        (let g = g\<lparr>verifying := False\<rparr>
         in if baseRate g * (1 + killGain) \<le> rate then g\<lparr>suppress := 0\<rparr>
            else
              (let g = g\<lparr>suppress := (if suppress g = 0 then killSuppressMin
                                      else min (suppress g * 2) killSuppressMax)\<rparr>
               in g\<lparr>suppressUntil := Some (now + suppress g)\<rparr>)))"

definition tryKill :: "reading \<Rightarrow> killGate option \<Rightarrow> killGate option \<times> bool" where
  "tryKill rd gate =
     (case gate of
        None \<Rightarrow> (None, True)
      | Some g \<Rightarrow>
          (let now = r_now rd;
               g = resolveLocked (r_rate rd) now g
           in if verifying g \<or> (case suppressUntil g of None \<Rightarrow> False | Some t \<Rightarrow> now < t) then (Some g, False)
              else if killUtilCeiling \<le> r_util rd then (Some g, False)
              else (Some (g\<lparr>verifying := True, verifyUntil := now + killVerifyWindow, baseRate := r_base rd\<rparr>), True)))"

section \<open>The stall monitor\<close>

definition hardStallFactor :: int where "hardStallFactor = 10"

datatype stallReason = stallNone | stallIdle | stallHardCeiling | stallSoftFloor

record connTrack =
  start :: time
  windowStart :: time
  lastFloor :: time
  sinceFloorBytes :: int
  above :: bool
  ct_killed :: bool
  reason :: stallReason
  windowBytes :: int

record stallMonitor =
  window :: duration
  floor_bytes :: int
  armed :: bool
  conns :: "connTrack list"

definition newStallMonitor :: "duration \<Rightarrow> int \<Rightarrow> stallMonitor" where
  "newStallMonitor w f = \<lparr>window = w, floor_bytes = f, armed = False, conns = []\<rparr>"

definition new_conn :: "time \<Rightarrow> connTrack" where
  "new_conn now = \<lparr>start = now, windowStart = now, lastFloor = now, sinceFloorBytes = 0, above = False,
     ct_killed = False, reason = stallNone, windowBytes = 0\<rparr>"

definition connStart :: "time \<Rightarrow> stallMonitor \<Rightarrow> stallMonitor" where
  "connStart now m = m\<lparr>conns := conns m @ [new_conn now]\<rparr>"

definition connEnd :: "nat \<Rightarrow> stallMonitor \<Rightarrow> stallMonitor" where
  "connEnd i m = m\<lparr>conns := take i (conns m) @ drop (i + 1) (conns m)\<rparr>"

definition addBytes :: "int \<Rightarrow> connTrack \<Rightarrow> connTrack" where
  "addBytes n c = c\<lparr>windowBytes := windowBytes c + n\<rparr>"

definition kill :: "stallReason \<Rightarrow> connTrack \<Rightarrow> connTrack" where
  "kill r c = c\<lparr>ct_killed := True, reason := r\<rparr>"

text \<open>First phase, per connection: the rolled connection with the window's bytes and verdict, \<open>None\<close> when
  it is not due.\<close>

definition is_due :: "time \<Rightarrow> duration \<Rightarrow> connTrack \<Rightarrow> bool" where
  "is_due now w c \<longleftrightarrow> \<not> (ct_killed c \<or> now - windowStart c < w)"

definition met_floor :: "int \<Rightarrow> int \<Rightarrow> bool" where
  "met_floor fl wb \<longleftrightarrow> fl \<le> 0 \<or> fl \<le> wb"

definition roll :: "time \<Rightarrow> duration \<Rightarrow> int \<Rightarrow> connTrack \<Rightarrow> connTrack \<times> (int \<times> bool) option" where
  "roll now w fl c =
     (if \<not> is_due now w c then (c, None)
      else
        (let wb = windowBytes c;
             c = c\<lparr>windowBytes := 0, windowStart := windowStart c + w, sinceFloorBytes := sinceFloorBytes c + wb\<rparr>;
             met = met_floor fl wb
         in (if met then c\<lparr>lastFloor := now, sinceFloorBytes := 0, above := True\<rparr> else c\<lparr>above := False\<rparr>,
             Some (wb, met))))"

definition anyAboveFloor :: "connTrack list \<Rightarrow> bool" where
  "anyAboveFloor cs \<longleftrightarrow> list_ex (\<lambda>c. \<not> ct_killed c \<and> above c) cs"

text \<open>Second phase: the kill layers over the due connections, in order, sharing the gate. Connection
  \<open>i\<close> of the list consults the gate at most once, with the readings \<open>rd i\<close>.\<close>

definition judge ::
  "reading \<Rightarrow> time \<Rightarrow> duration \<Rightarrow> int \<Rightarrow> bool \<Rightarrow> bool \<Rightarrow> int \<Rightarrow> bool \<Rightarrow> connTrack \<Rightarrow> killGate option
     \<Rightarrow> killGate option \<times> connTrack" where
  "judge rd now w fl arm anyAbove wb met c gate =
     (if ct_killed c then (gate, c)
      else if wb = 0 then (gate, kill stallIdle c)
      else if hardStallFactor * w \<le> now - lastFloor c \<and> sinceFloorBytes c < fl
      then (case tryKill rd gate of (gate, ok) \<Rightarrow> (gate, if ok then kill stallHardCeiling c else c))
      else if arm \<and> \<not> met \<and> anyAbove
      then (case tryKill rd gate of (gate, ok) \<Rightarrow> (gate, if ok then kill stallSoftFloor c else c))
      else (gate, c))"

fun kill_phase ::
  "(nat \<Rightarrow> reading) \<Rightarrow> nat \<Rightarrow> time \<Rightarrow> duration \<Rightarrow> int \<Rightarrow> bool \<Rightarrow> bool \<Rightarrow> (connTrack \<times> (int \<times> bool) option) list
     \<Rightarrow> killGate option \<Rightarrow> killGate option \<times> connTrack list" where
  "kill_phase rd i now w fl arm anyAbove [] gate = (gate, [])"
| "kill_phase rd i now w fl arm anyAbove ((c, d) # rest) gate =
     (case (case d of None \<Rightarrow> (gate, c) | Some (wb, met) \<Rightarrow> judge (rd i) now w fl arm anyAbove wb met c gate) of
        (gate, c) \<Rightarrow>
          (case kill_phase rd (i + 1) now w fl arm anyAbove rest gate of (gate, cs) \<Rightarrow> (gate, c # cs)))"

definition sweep :: "(nat \<Rightarrow> reading) \<Rightarrow> time \<Rightarrow> killGate option \<Rightarrow> stallMonitor \<Rightarrow> killGate option \<times> stallMonitor" where
  "sweep rd now gate m =
     (let rolled = map (roll now (window m) (floor_bytes m)) (conns m);
          arm = (armed m \<or> list_ex (\<lambda>(c, d). case d of Some (wb, met) \<Rightarrow> met | None \<Rightarrow> False) rolled)
      in if list_all (\<lambda>(c, d). d = None) rolled then (gate, m)
         else (case kill_phase rd 0 now (window m) (floor_bytes m) arm (anyAboveFloor (map fst rolled)) rolled gate of
                 (gate, cs) \<Rightarrow> (gate, m\<lparr>armed := arm, conns := cs\<rparr>)))"

section \<open>The gate: lemmas\<close>

text \<open>The suppression hold is unset or between its bounds.\<close>

definition gate_ok :: "killGate \<Rightarrow> bool" where
  "gate_ok g \<longleftrightarrow> suppress g = 0 \<or> (killSuppressMin \<le> suppress g \<and> suppress g \<le> killSuppressMax)"

lemma gate_ok_resolve: "gate_ok g \<Longrightarrow> gate_ok (resolveLocked rate now g)"
  by (auto simp: gate_ok_def resolveLocked_def Let_def gate_consts)

lemma gate_ok_tryKill: "gate_ok g \<Longrightarrow> tryKill rd (Some g) = (gate', ok) \<Longrightarrow> \<exists>g'. gate' = Some g' \<and> gate_ok g'"
  using gate_ok_resolve [of g "r_rate rd" "r_now rd"]
  by (auto simp: tryKill_def Let_def gate_ok_def split: if_splits)

lemma tryKill_granted:
  assumes "tryKill rd (Some g) = (gate', True)"
  obtains g' where "gate' = Some g'" "verifying g'" "verifyUntil g' = r_now rd + killVerifyWindow"
    "r_util rd < killUtilCeiling" "baseRate g' = r_base rd"
  using assms by (auto simp: tryKill_def Let_def split: if_splits)

lemma tryKill_closed:
  assumes "verifying g" "r_now rd < verifyUntil g"
  shows "tryKill rd (Some g) = (Some g, False)"
  using assms by (simp add: tryKill_def resolveLocked_def)

lemma tryKill_suppressed:
  assumes "\<not> verifying g" "suppressUntil g = Some t" "r_now rd < t"
  shows "tryKill rd (Some g) = (Some g, False)"
  using assms by (simp add: tryKill_def resolveLocked_def)

lemma tryKill_Some: "\<exists>g'. fst (tryKill rd (Some g)) = Some g'"
  by (auto simp: tryKill_def Let_def)

text \<open>A sequence of calls, from any monitors and with clocks read in any order.\<close>

fun gate_calls :: "reading list \<Rightarrow> killGate option \<Rightarrow> killGate option \<times> bool list" where
  "gate_calls [] g = (g, [])"
| "gate_calls (rd # rds) g =
     (case tryKill rd g of (g, ok) \<Rightarrow> (case gate_calls rds g of (g, oks) \<Rightarrow> (g, ok # oks)))"

lemma gate_calls_closed:
  "verifying g \<Longrightarrow> \<forall>rd \<in> set rds. r_now rd < verifyUntil g \<Longrightarrow>
     gate_calls rds (Some g) = (Some g, replicate (length rds) False)"
  by (induction rds) (auto simp: tryKill_closed)

lemma gate_calls_suppressed:
  "\<not> verifying g \<Longrightarrow> suppressUntil g = Some t \<Longrightarrow> \<forall>rd \<in> set rds. r_now rd < t \<Longrightarrow>
     gate_calls rds (Some g) = (Some g, replicate (length rds) False)"
  by (induction rds) (auto simp: tryKill_suppressed)

lemma gate_calls_ok: "gate_ok g \<Longrightarrow> \<exists>g'. fst (gate_calls rds (Some g)) = Some g' \<and> gate_ok g'"
proof (induction rds arbitrary: g)
  case (Cons rd rds)
  obtain gate' ok where t: "tryKill rd (Some g) = (gate', ok)" by force
  with Cons.prems obtain g' where "gate' = Some g'" "gate_ok g'" using gate_ok_tryKill by blast
  with t Cons.IH [of g'] show ?case by (auto split: prod.splits)
qed simp

section \<open>The sweep: lemmas\<close>

lemma judge_kinds:
  assumes "judge rd now w fl arm anyAbove wb met c gate = (gate', c')" "\<not> ct_killed c"
  shows "ct_killed c' \<Longrightarrow> c' = kill (reason c') c \<and> reason c' \<noteq> stallNone"
    "\<not> ct_killed c' \<Longrightarrow> c' = c"
    "ct_killed c' \<Longrightarrow> reason c' = stallIdle \<longleftrightarrow> wb = 0"
    "ct_killed c' \<Longrightarrow> reason c' = stallHardCeiling \<Longrightarrow>
       hardStallFactor * w \<le> now - lastFloor c \<and> sinceFloorBytes c < fl"
    "ct_killed c' \<Longrightarrow> reason c' = stallSoftFloor \<Longrightarrow> arm \<and> \<not> met \<and> anyAbove"
    "wb = 0 \<Longrightarrow> ct_killed c'"
  using assms by (auto simp: judge_def kill_def split: if_splits prod.splits)

definition thr_killed :: "connTrack \<Rightarrow> bool" where
  "thr_killed c \<longleftrightarrow> ct_killed c \<and> (reason c = stallHardCeiling \<or> reason c = stallSoftFloor)"

lemma judge_closed:
  assumes "judge rd now w fl arm anyAbove wb met c (Some g) = (gate', c')" "\<not> ct_killed c"
    "verifying g" "r_now rd < verifyUntil g"
  shows "gate' = Some g \<and> \<not> thr_killed c'"
  using assms tryKill_closed [OF assms(3,4)]
  by (auto simp: judge_def thr_killed_def kill_def split: if_splits)

lemma judge_granted:
  assumes "judge rd now w fl arm anyAbove wb met c (Some g) = (gate', c')" "\<not> ct_killed c" "thr_killed c'"
  shows "\<exists>g'. gate' = Some g' \<and> verifying g' \<and> verifyUntil g' = r_now rd + killVerifyWindow
           \<and> r_util rd < killUtilCeiling"
proof -
  have "tryKill rd (Some g) = (gate', True)"
    using assms by (auto simp: judge_def thr_killed_def kill_def split: if_splits prod.splits)
  then show ?thesis by (rule tryKill_granted) auto
qed

lemma judge_Some:
  "judge rd now w fl arm anyAbove wb met c (Some g) = (gate', c') \<Longrightarrow> \<exists>g'. gate' = Some g'"
  using tryKill_Some [of rd g] by (auto simp: judge_def split: if_splits prod.splits)


lemma kill_phase_nth:
  "kill_phase rd i now w fl arm aa rs gate = (gate', cs) \<Longrightarrow>
     length cs = length rs \<and>
     (\<forall>j < length rs. case snd (rs ! j) of
        None \<Rightarrow> cs ! j = fst (rs ! j)
      | Some (wb, met) \<Rightarrow> \<exists>g1 g2. judge (rd (i + j)) now w fl arm aa wb met (fst (rs ! j)) g1 = (g2, cs ! j))"
proof (induction rs arbitrary: i gate gate' cs)
  case (Cons r rs)
  obtain c d where r: "r = (c, d)" by force
  obtain g1 c1 where h: "(case d of None \<Rightarrow> (gate, c)
      | Some (wb, met) \<Rightarrow> judge (rd i) now w fl arm aa wb met c gate) = (g1, c1)" by force
  obtain g2 cs2 where t: "kill_phase rd (i + 1) now w fl arm aa rs g1 = (g2, cs2)" by force
  have cs: "cs = c1 # cs2" using Cons.prems t by (simp add: r h)
  note IH = Cons.IH [OF t]
  have "case snd ((r # rs) ! j) of
        None \<Rightarrow> cs ! j = fst ((r # rs) ! j)
      | Some (wb, met) \<Rightarrow> \<exists>g1 g2. judge (rd (i + j)) now w fl arm aa wb met (fst ((r # rs) ! j)) g1 = (g2, cs ! j)"
    if j: "j < length (r # rs)" for j
  proof (cases j)
    case 0
    with h show ?thesis by (auto simp: r cs split: option.splits)
  next
    case (Suc k)
    with IH j show ?thesis by (cases "snd (rs ! k)") (auto simp: cs Suc)
  qed
  with IH show ?case by (simp add: cs)
qed simp

lemma roll_simps:
  "ct_killed (fst (roll now w fl c)) = ct_killed c"
  "snd (roll now w fl c) = (if is_due now w c then Some (windowBytes c, met_floor fl (windowBytes c)) else None)"
  "above (fst (roll now w fl c)) = (if is_due now w c then met_floor fl (windowBytes c) else above c)"
  "is_due now w c \<Longrightarrow> lastFloor (fst (roll now w fl c)) = (if met_floor fl (windowBytes c) then now else lastFloor c)"
  "is_due now w c \<Longrightarrow> \<not> met_floor fl (windowBytes c) \<Longrightarrow>
     sinceFloorBytes (fst (roll now w fl c)) = sinceFloorBytes c + windowBytes c"
  by (auto simp: roll_def Let_def)

text \<open>The connection counts as above the floor: by this sweep's verdict when it is due, by the last
  recorded one otherwise.\<close>

definition counts_above :: "time \<Rightarrow> duration \<Rightarrow> int \<Rightarrow> connTrack \<Rightarrow> bool" where
  "counts_above now w fl c \<longleftrightarrow>
     \<not> ct_killed c \<and> (if is_due now w c then met_floor fl (windowBytes c) else above c)"

lemma anyAbove_rolled:
  "anyAboveFloor (map fst (map (roll now w fl) cs)) \<longleftrightarrow> (\<exists>d \<in> set cs. counts_above now w fl d)"
  by (auto simp: anyAboveFloor_def list_ex_iff counts_above_def roll_simps)

lemma sweep_nth:
  assumes "sweep rd now gate m = (gate', m')" "i < length (conns m)"
  shows "length (conns m') = length (conns m)"
    "\<not> is_due now (window m) (conns m ! i) \<Longrightarrow> conns m' ! i = conns m ! i"
    "is_due now (window m) (conns m ! i) \<Longrightarrow>
       \<exists>g1 g2. judge (rd i) now (window m) (floor_bytes m) (armed m')
         (\<exists>d \<in> set (conns m). counts_above now (window m) (floor_bytes m) d)
         (windowBytes (conns m ! i)) (met_floor (floor_bytes m) (windowBytes (conns m ! i)))
         (fst (roll now (window m) (floor_bytes m) (conns m ! i))) g1 = (g2, conns m' ! i)"
proof -
  let ?rs = "map (roll now (window m) (floor_bytes m)) (conns m)"
  let ?arm = "armed m \<or> list_ex (\<lambda>(c, d). case d of Some (wb, met) \<Rightarrow> met | None \<Rightarrow> False) ?rs"
  show "length (conns m') = length (conns m)"
    using assms kill_phase_nth [of rd 0 now "window m" "floor_bytes m" ?arm "anyAboveFloor (map fst ?rs)" ?rs gate]
    by (auto simp: sweep_def Let_def split: if_splits prod.splits)
  have roll0: "fst (roll now w fl c) = c" if "\<not> is_due now w c" for w fl c using that by (simp add: roll_def)
  show "conns m' ! i = conns m ! i" if "\<not> is_due now (window m) (conns m ! i)"
    using assms that kill_phase_nth [of rd 0 now "window m" "floor_bytes m" ?arm "anyAboveFloor (map fst ?rs)" ?rs gate]
    by (auto simp: sweep_def Let_def roll_simps roll0 split: if_splits prod.splits)
  show "\<exists>g1 g2. judge (rd i) now (window m) (floor_bytes m) (armed m')
         (\<exists>d \<in> set (conns m). counts_above now (window m) (floor_bytes m) d)
         (windowBytes (conns m ! i)) (met_floor (floor_bytes m) (windowBytes (conns m ! i)))
         (fst (roll now (window m) (floor_bytes m) (conns m ! i))) g1 = (g2, conns m' ! i)"
    if due: "is_due now (window m) (conns m ! i)"
  proof -
    have nn: "\<not> list_all (\<lambda>(c, d). d = None) ?rs"
    proof -
      have "snd (roll now (window m) (floor_bytes m) (conns m ! i)) \<noteq> None" using due by (simp add: roll_simps)
      with assms(2) show ?thesis by (force simp: list_all_length split_beta)
    qed
    obtain g2 cs where k: "kill_phase rd 0 now (window m) (floor_bytes m) ?arm (anyAboveFloor (map fst ?rs)) ?rs gate = (g2, cs)"
      by force
    have m': "m' = m\<lparr>armed := ?arm, conns := cs\<rparr>" using assms(1) nn k by (simp add: sweep_def Let_def)
    have "armed m' = ?arm" "conns m' = cs" by (simp_all add: m')
    with kill_phase_nth [OF k] due assms(2) show ?thesis
      unfolding anyAbove_rolled by (auto simp: roll_simps dest!: spec [of _ i])
  qed
qed

lemma kill_phase_closed:
  assumes "kill_phase rd i now w fl arm aa rs (Some g) = (gate', cs)" "verifying g" "\<forall>j. r_now (rd j) < verifyUntil g"
  shows "filter (\<lambda>(r, c). \<not> ct_killed (fst r) \<and> thr_killed c) (zip rs cs) = []"
  using assms(1)
proof (induction rs arbitrary: i cs gate')
  case (Cons r rs)
  obtain c d where r: "r = (c, d)" by force
  obtain g1 c1 where h: "(case d of None \<Rightarrow> (Some g, c)
      | Some (wb, met) \<Rightarrow> judge (rd i) now w fl arm aa wb met c (Some g)) = (g1, c1)" by force
  obtain g2 cs2 where t: "kill_phase rd (Suc i) now w fl arm aa rs g1 = (g2, cs2)" by force
  have cs: "cs = c1 # cs2" using Cons.prems t by (simp add: r h)
  have same: "g1 = Some g \<and> (\<not> ct_killed c \<longrightarrow> \<not> thr_killed c1)"
  proof (cases "ct_killed c")
    case True
    then show ?thesis using h by (auto simp: judge_def split: option.splits)
  next
    case False
    then show ?thesis using h judge_closed [OF _ False assms(2)] assms(3)
      by (auto simp: thr_killed_def split: option.splits)
  qed
  with t have "kill_phase rd (Suc i) now w fl arm aa rs (Some g) = (g2, cs2)" by simp
  from Cons.IH [OF this] same show ?case by (auto simp: r cs)
qed simp

lemma kill_phase_one:
  assumes "kill_phase rd i now w fl arm aa rs (Some g) = (gate', cs)"
    "\<forall>i j. r_now (rd j) < r_now (rd i) + killVerifyWindow"
  shows "length (filter (\<lambda>(r, c). \<not> ct_killed (fst r) \<and> thr_killed c) (zip rs cs)) \<le> 1"
  using assms(1)
proof (induction rs arbitrary: i cs gate' g)
  case (Cons r rs)
  obtain c d where r: "r = (c, d)" by force
  obtain g1 c1 where h: "(case d of None \<Rightarrow> (Some g, c)
      | Some (wb, met) \<Rightarrow> judge (rd i) now w fl arm aa wb met c (Some g)) = (g1, c1)" by force
  obtain g2 cs2 where t: "kill_phase rd (Suc i) now w fl arm aa rs g1 = (g2, cs2)" by force
  have cs: "cs = c1 # cs2" using Cons.prems t by (simp add: r h)
  obtain g' where g': "g1 = Some g'" using h by (fastforce split: option.splits dest: judge_Some)
  show ?case
  proof (cases "\<not> ct_killed c \<and> thr_killed c1")
    case True
    then obtain wb met where "d = Some (wb, met)" "judge (rd i) now w fl arm aa wb met c (Some g) = (g1, c1)"
      using h by (auto simp: thr_killed_def split: option.splits)
    with True judge_granted [of "rd i" now w fl arm aa wb met c g g1 c1]
    have "verifying g'" "verifyUntil g' = r_now (rd i) + killVerifyWindow" by (auto simp: g')
    then have "filter (\<lambda>(r, c). \<not> ct_killed (fst r) \<and> thr_killed c) (zip rs cs2) = []"
      using kill_phase_closed [OF t [unfolded g']] assms(2) by simp
    then show ?thesis by (simp add: r cs)
  next
    case False
    then show ?thesis using Cons.IH [OF t [unfolded g']] by (auto simp: r cs)
  qed
qed simp

lemma zip_map_filter:
  "(\<And>x. P (fst (f x)) = P x) \<Longrightarrow>
     length (filter (\<lambda>(r, c). P (fst r) \<and> Q c) (zip (map f xs) ys)) = length (filter (\<lambda>(x, c). P x \<and> Q c) (zip xs ys))"
proof (induction xs arbitrary: ys)
  case (Cons x xs)
  then show ?case by (cases ys) auto
qed simp

text \<open>The cause a kill reason stands for, over the connection as it was before the sweep.\<close>

definition kill_cause :: "time \<Rightarrow> stallMonitor \<Rightarrow> bool \<Rightarrow> connTrack \<Rightarrow> stallReason \<Rightarrow> bool" where
  "kill_cause now m arm c r \<longleftrightarrow> window m \<le> now - windowStart c \<and>
     (case r of
        stallNone \<Rightarrow> False
      | stallIdle \<Rightarrow> windowBytes c = 0
      | stallHardCeiling \<Rightarrow> windowBytes c < floor_bytes m \<and> hardStallFactor * window m \<le> now - lastFloor c
          \<and> sinceFloorBytes c + windowBytes c < floor_bytes m
      | stallSoftFloor \<Rightarrow> windowBytes c < floor_bytes m \<and> arm
          \<and> list_ex (\<lambda>d. d \<noteq> c \<and> counts_above now (window m) (floor_bytes m) d) (conns m))"

lemma sweep_kill_cause:
  assumes s: "sweep rd now gate m = (gate', m')" and i: "i < length (conns m)" and w: "0 < window m"
    and live: "\<not> ct_killed (conns m ! i)" and k: "ct_killed (conns m' ! i)"
  shows "kill_cause now m (armed m') (conns m ! i) (reason (conns m' ! i))"
proof -
  let ?c = "conns m ! i" and ?c' = "conns m' ! i"
  let ?r = "fst (roll now (window m) (floor_bytes m) ?c)"
  have liver: "\<not> ct_killed ?r" using live by (simp add: roll_simps)
  have due: "is_due now (window m) ?c" using sweep_nth(2) [OF s i] live k by metis
  obtain g1 g2 where j: "judge (rd i) now (window m) (floor_bytes m) (armed m')
       (\<exists>d \<in> set (conns m). counts_above now (window m) (floor_bytes m) d)
       (windowBytes ?c) (met_floor (floor_bytes m) (windowBytes ?c)) ?r g1 = (g2, ?c')"
    using sweep_nth(3) [OF s i due] by blast
  note kinds = judge_kinds [OF j liver]
  have fl: "windowBytes ?c < floor_bytes m" if "\<not> met_floor (floor_bytes m) (windowBytes ?c)"
    using that by (auto simp: met_floor_def)
  have full: "window m \<le> now - windowStart ?c" using due by (simp add: is_due_def)
  show ?thesis
  proof (cases "reason ?c'")
    case stallNone
    then show ?thesis using kinds(1) k by simp
  next
    case stallIdle
    then show ?thesis using kinds(3) k full by (simp add: kill_cause_def)
  next
    case stallHardCeiling
    with kinds(4) k have h: "hardStallFactor * window m \<le> now - lastFloor ?r" "sinceFloorBytes ?r < floor_bytes m" by auto
    then have nm: "\<not> met_floor (floor_bytes m) (windowBytes ?c)"
      using w due by (auto simp: roll_simps hardStallFactor_def)
    with h due fl full stallHardCeiling show ?thesis by (simp add: kill_cause_def roll_simps)
  next
    case stallSoftFloor
    with kinds(5) k have h: "armed m'" and nm: "\<not> met_floor (floor_bytes m) (windowBytes ?c)"
      and ex: "\<exists>d \<in> set (conns m). counts_above now (window m) (floor_bytes m) d" by auto
    have "\<not> counts_above now (window m) (floor_bytes m) ?c" using nm due by (simp add: counts_above_def)
    with ex have "\<exists>d \<in> set (conns m). d \<noteq> ?c \<and> counts_above now (window m) (floor_bytes m) d" by metis
    with h nm fl full stallSoftFloor show ?thesis by (simp add: kill_cause_def list_ex_iff)
  qed
qed

lemma sweep_idle_killed:
  assumes s: "sweep rd now gate m = (gate', m')" and i: "i < length (conns m)"
    and due: "is_due now (window m) (conns m ! i)" and z: "windowBytes (conns m ! i) = 0"
  shows "ct_killed (conns m' ! i) \<and> reason (conns m' ! i) = stallIdle"
proof -
  have liver: "\<not> ct_killed (fst (roll now (window m) (floor_bytes m) (conns m ! i)))"
    using due by (simp add: roll_simps is_due_def)
  obtain g1 g2 where j: "judge (rd i) now (window m) (floor_bytes m) (armed m')
       (\<exists>d \<in> set (conns m). counts_above now (window m) (floor_bytes m) d)
       (windowBytes (conns m ! i)) (met_floor (floor_bytes m) (windowBytes (conns m ! i)))
       (fst (roll now (window m) (floor_bytes m) (conns m ! i))) g1 = (g2, conns m' ! i)"
    using sweep_nth(3) [OF s i due] by blast
  show ?thesis using judge_kinds(3,6) [OF j liver] z by simp
qed

section \<open>Properties\<close>

text \<open>C24: A sweep kills a live connection only for cause. The connection has run a full window, and: an
  idle kill had no byte in that window; a hard kill is below the floor, has not met it for ten windows
  and delivered less than one floor since; a soft kill is below the floor while the file is armed and
  another connection counts as above it. Conversely a connection with an empty full window is always
  killed, whatever the gate says, and a connection whose window is not over is left as it is.\<close>

theorem sweep_kills_justified:
  assumes "sweep rd now gate m = (gate', m')" "0 < window m" "i < length (conns m)" "\<not> ct_killed (conns m ! i)"
  shows "length (conns m') = length (conns m) \<and>
    (now - windowStart (conns m ! i) < window m \<longrightarrow> conns m' ! i = conns m ! i) \<and>
    (window m \<le> now - windowStart (conns m ! i) \<and> windowBytes (conns m ! i) = 0 \<longrightarrow>
       ct_killed (conns m' ! i) \<and> reason (conns m' ! i) = stallIdle) \<and>
    (ct_killed (conns m' ! i) \<longrightarrow> kill_cause now m (armed m') (conns m ! i) (reason (conns m' ! i)))"
  using sweep_nth(1,2) [OF assms(1,3)] sweep_idle_killed [OF assms(1,3)] sweep_kill_cause [OF assms(1,3,2,4)] assms(4)
  by (simp add: is_due_def)

definition wit_monitor :: stallMonitor where
  "wit_monitor = \<lparr>window = 10, floor_bytes = 100, armed = True,
     conns = [(new_conn 0)\<lparr>windowBytes := 500\<rparr>, (new_conn 0)\<lparr>windowBytes := 7\<rparr>, (new_conn 0)\<lparr>windowBytes := 8\<rparr>]\<rparr>"

definition wit_reading :: reading where
  "wit_reading = \<lparr>r_now = 11, r_rate = 1000, r_util = 1 / 2, r_base = 1000\<rparr>"

lemmas wit_simps = wit_monitor_def wit_reading_def new_conn_def newKillGate_def sweep_def roll_def is_due_def
  met_floor_def anyAboveFloor_def judge_def hardStallFactor_def kill_def tryKill_def resolveLocked_def
  killUtilCeiling_def thr_killed_def gate_consts

theorem sweep_kills_justified_witness:
  "(let (gate', m') = sweep (\<lambda>i. wit_reading) 10 (Some newKillGate) wit_monitor
    in ct_killed (conns m' ! 1) \<and> reason (conns m' ! 1) = stallSoftFloor
       \<and> kill_cause 10 wit_monitor (armed m') (conns wit_monitor ! 1) stallSoftFloor)"
  using sweep_kills_justified [of "\<lambda>i. wit_reading" 10 "Some newKillGate" wit_monitor
    "fst (sweep (\<lambda>i. wit_reading) 10 (Some newKillGate) wit_monitor)"
    "snd (sweep (\<lambda>i. wit_reading) 10 (Some newKillGate) wit_monitor)" 1]
  by (simp add: wit_simps)

text \<open>With a gate, one sweep makes at most one throughput kill (hard ceiling or soft floor), provided
  the gate's clock moves by less than the verify window while the sweep runs; idle kills are not counted,
  and there may be many.\<close>

lemma one_throughput_kill_per_sweep:
  assumes "sweep rd now (Some g) m = (gate', m')" "\<forall>i j. r_now (rd j) < r_now (rd i) + killVerifyWindow"
  shows "length (filter (\<lambda>(c, c'). \<not> ct_killed c \<and> thr_killed c') (zip (conns m) (conns m'))) \<le> 1"
proof -
  let ?rs = "map (roll now (window m) (floor_bytes m)) (conns m)"
  have stay: "filter (\<lambda>(c, c'). \<not> ct_killed c \<and> thr_killed c') (zip cs cs) = []" for cs
    by (induction cs) (auto simp: thr_killed_def)
  show ?thesis
  proof (cases "list_all (\<lambda>(c, d). d = None) ?rs")
    case True
    then have "m' = m" using assms(1) by (simp add: sweep_def Let_def)
    then show ?thesis by (simp add: stay)
  next
    case False
    then obtain arm aa where
      "kill_phase rd 0 now (window m) (floor_bytes m) arm aa ?rs (Some g) = (gate', conns m')"
      using assms(1) by (auto simp: sweep_def Let_def split: prod.splits)
    from kill_phase_one [OF this assms(2)] show ?thesis
      by (subst (asm) zip_map_filter [where P = "\<lambda>c. \<not> ct_killed c"]) (simp_all add: roll_simps)
  qed
qed

lemma one_throughput_kill_per_sweep_example:
  "(let (gate', m') = sweep (\<lambda>i. wit_reading) 10 (Some newKillGate) wit_monitor
    in length (filter (\<lambda>(c, c'). \<not> ct_killed c \<and> thr_killed c') (zip (conns wit_monitor) (conns m'))) \<le> 1
       \<and> thr_killed (conns m' ! 1) \<and> \<not> thr_killed (conns m' ! 2))"
  using one_throughput_kill_per_sweep [of "\<lambda>i. wit_reading" 10 newKillGate wit_monitor
    "fst (sweep (\<lambda>i. wit_reading) 10 (Some newKillGate) wit_monitor)"
    "snd (sweep (\<lambda>i. wit_reading) 10 (Some newKillGate) wit_monitor)"]
  by (simp add: wit_simps)

text \<open>C25: The gate as its calls leave it, whatever monitors make them and in whatever order their clocks
  were read: a grant needs a utilization under the ceiling and is followed by denials only, for every call
  whose clock is before the end of the verify window; a call that closes a window without the required
  gain, and every call before the end of a hold of 30 seconds to 5 minutes after it, is denied.\<close>

theorem gate_grants_spaced:
  assumes "gate_calls hist (Some newKillGate) = (Some g, oks)"
  shows "(snd (tryKill rd (Some g)) \<longrightarrow>
      r_util rd < killUtilCeiling \<and>
      ((\<forall>r \<in> set rds. r_now r < r_now rd + killVerifyWindow) \<longrightarrow>
         snd (gate_calls rds (fst (tryKill rd (Some g)))) = replicate (length rds) False)) \<and>
    (verifying g \<and> verifyUntil g \<le> r_now rd \<and> r_rate rd < baseRate g * (1 + killGain) \<longrightarrow>
      (\<exists>hold. killSuppressMin \<le> hold \<and> hold \<le> killSuppressMax \<and>
         ((\<forall>r \<in> set rds. r_now r < r_now rd + hold) \<longrightarrow>
            snd (gate_calls (rd # rds) (Some g)) = replicate (length rds + 1) False)))"
proof (intro conjI impI)
  have ok: "gate_ok g" using gate_calls_ok [of newKillGate hist] assms by (simp add: gate_ok_def newKillGate_def)
  show "r_util rd < killUtilCeiling" if "snd (tryKill rd (Some g))"
    using that tryKill_granted [of rd g "fst (tryKill rd (Some g))"] by (metis prod.collapse)
  show "snd (gate_calls rds (fst (tryKill rd (Some g)))) = replicate (length rds) False"
    if t: "snd (tryKill rd (Some g))" and early: "\<forall>r \<in> set rds. r_now r < r_now rd + killVerifyWindow"
  proof -
    obtain g' where "fst (tryKill rd (Some g)) = Some g'" "verifying g'" "verifyUntil g' = r_now rd + killVerifyWindow"
      using t tryKill_granted [of rd g "fst (tryKill rd (Some g))"] by (metis prod.collapse)
    with early show ?thesis by (simp add: gate_calls_closed)
  qed
  assume v: "verifying g \<and> verifyUntil g \<le> r_now rd \<and> r_rate rd < baseRate g * (1 + killGain)"
  let ?g = "resolveLocked (r_rate rd) (r_now rd) g"
  have res: "\<not> verifying ?g" "suppressUntil ?g = Some (r_now rd + suppress ?g)"
    "killSuppressMin \<le> suppress ?g" "suppress ?g \<le> killSuppressMax"
    using v ok by (auto simp: resolveLocked_def Let_def gate_ok_def gate_consts)
  have t: "tryKill rd (Some g) = (Some ?g, False)"
    using res by (simp add: tryKill_def Let_def gate_consts)
  show "\<exists>hold. killSuppressMin \<le> hold \<and> hold \<le> killSuppressMax \<and>
         ((\<forall>r \<in> set rds. r_now r < r_now rd + hold) \<longrightarrow>
            snd (gate_calls (rd # rds) (Some g)) = replicate (length rds + 1) False)"
    using res by (intro exI [of _ "suppress ?g"]) (simp add: t gate_calls_suppressed)
qed

theorem gate_grants_spaced_witness:
  "snd (tryKill wit_reading (Some newKillGate)) \<and>
   snd (gate_calls [wit_reading, wit_reading] (fst (tryKill wit_reading (Some newKillGate)))) = [False, False]"
  using gate_grants_spaced [of "[]" newKillGate "[]" wit_reading "[wit_reading, wit_reading]"]
  by (simp add: wit_simps)

definition add_at :: "nat \<Rightarrow> int \<Rightarrow> stallMonitor \<Rightarrow> stallMonitor" where
  "add_at i n m = m\<lparr>conns := (conns m)[i := addBytes n (conns m ! i)]\<rparr>"

definition stale_monitor :: stallMonitor where
  "stale_monitor =
     (let sw = (\<lambda>t m. snd (sweep (\<lambda>i. wit_reading) t (Some newKillGate) m));
          m = connStart 1 (connStart 0 (newStallMonitor 10 100));
          m = add_at 1 500 (add_at 0 500 m)
      in add_at 0 7 (sw 11 (sw 10 m)))"


end
