(* ===== verification/Downloader.thy ===== *)
theory Downloader
  imports Prelude "HOL-Library.Signed_Division"
begin

text \<open>
  \<^verbatim>\<open>pkg/transfer/downloader.go\<close>: the defaults of the engine and of a task, the adaptive block size, and the
  reconciliation of a file's worker set with the parallelism asked for. A worker is its drain flag and
  an identity; the worker set is a list in the order the map iteration visits it.
\<close>

section \<open>Constants\<close>

definition defaultCheckpointInterval :: duration where "defaultCheckpointInterval = 30 * second"
definition defaultHeaderTimeout :: duration where "defaultHeaderTimeout = 10 * second"
definition defaultStallWindow :: duration where "defaultStallWindow = 15 * second"
definition defaultStallMinBytes :: int where "defaultStallMinBytes = 32 * 2 ^ 10"
definition defaultConns :: int where "defaultConns = 4"
definition defaultRetryBackoffBase :: duration where "defaultRetryBackoffBase = 500 * millisecond"
definition minBlockSize :: int where "minBlockSize = 4 * 2 ^ 20"
definition maxBlockSize :: int where "maxBlockSize = 64 * 2 ^ 20"

lemmas default_consts = defaultCheckpointInterval_def defaultHeaderTimeout_def defaultStallWindow_def
  defaultStallMinBytes_def defaultConns_def defaultRetryBackoffBase_def time_units

section \<open>Defaults\<close>

text \<open>The durations of \<^verbatim>\<open>Config\<close>; \<open>blTTL\<close> is \<^verbatim>\<open>defaultUpstreamBlacklistTTL\<close> of the policy.\<close>

record transfer_Config =
  CheckpointInterval :: duration
  HeaderTimeout :: duration
  RetryBackoffBase :: duration
  UpstreamBlacklistTTL :: duration

definition NewDownloader :: "duration \<Rightarrow> transfer_Config \<Rightarrow> transfer_Config" where
  "NewDownloader blTTL cfg =
     (let cfg = (if CheckpointInterval cfg \<le> 0 then cfg\<lparr>CheckpointInterval := defaultCheckpointInterval\<rparr> else cfg);
          cfg = (if HeaderTimeout cfg \<le> 0 then cfg\<lparr>HeaderTimeout := defaultHeaderTimeout\<rparr> else cfg);
          cfg = (if RetryBackoffBase cfg \<le> 0 then cfg\<lparr>RetryBackoffBase := defaultRetryBackoffBase\<rparr> else cfg);
          cfg = (if UpstreamBlacklistTTL cfg \<le> 0 then cfg\<lparr>UpstreamBlacklistTTL := blTTL\<rparr> else cfg)
      in cfg)"

partial_function (option) adaptive_loop :: "int \<Rightarrow> int \<Rightarrow> int option" where
  "adaptive_loop v p = (if p < v \<and> p < maxBlockSize then adaptive_loop v (p * 2) else Some p)"

definition AdaptiveBlockSize :: "int \<Rightarrow> int \<Rightarrow> int option" where
  "AdaptiveBlockSize sz conns =
     (let conns = (if conns < 1 then 1 else conns);
          v = sz sdiv conns
      in if v < minBlockSize then Some minBlockSize
         else (case adaptive_loop v minBlockSize of None \<Rightarrow> None | Some p \<Rightarrow> Some (min p maxBlockSize)))"

record FileTask =
  FileID :: int
  Size :: int
  BlockSize :: int
  Conns :: int
  StallWindow :: duration
  StallMinBytes :: int

definition applyDefaults :: "FileTask \<Rightarrow> FileTask option" where
  "applyDefaults t =
     (let t = (if Conns t \<le> 0 then t\<lparr>Conns := defaultConns\<rparr> else t)
      in case (if BlockSize t \<le> 0
               then (case AdaptiveBlockSize (Size t) (Conns t) of None \<Rightarrow> None | Some s \<Rightarrow> Some (t\<lparr>BlockSize := s\<rparr>))
               else Some t) of
           None \<Rightarrow> None
         | Some t \<Rightarrow>
             (let t = (if StallWindow t \<le> 0 then t\<lparr>StallWindow := defaultStallWindow\<rparr> else t);
                  t = (if StallMinBytes t \<le> 0 then t\<lparr>StallMinBytes := defaultStallMinBytes\<rparr> else t)
              in Some t))"

section \<open>The worker set\<close>

record workerState =
  ws_id :: nat
  drain :: bool

text \<open>\<open>listed\<close>: whether \<^verbatim>\<open>d.files\<close> still holds this download; \<open>fresh\<close> numbers the workers created.\<close>

record worker_set =
  workers :: "workerState list"
  draining :: bool
  listed :: bool
  fresh :: nat

fun mark_drain :: "int \<Rightarrow> workerState list \<Rightarrow> workerState list" where
  "mark_drain k [] = []"
| "mark_drain k (w # ws) =
     (if k \<le> 0 then w # ws
      else if drain w then w # mark_drain k ws
      else w\<lparr>drain := True\<rparr> # mark_drain (k - 1) ws)"

definition setParallelism :: "int \<Rightarrow> worker_set \<Rightarrow> worker_set" where
  "setParallelism n s =
     (if draining s then s
      else
        (let cur = length (workers s);
             add = nat n - cur;
             s = s\<lparr>workers := workers s @ map (\<lambda>i. \<lparr>ws_id = i, drain = False\<rparr>) [fresh s..<fresh s + add],
                   fresh := fresh s + add\<rparr>
         in if n < int cur
            then s\<lparr>workers := mark_drain (int cur - n - int (length (filter drain (workers s)))) (workers s)\<rparr>
            else s))"

definition SetParallelism :: "int \<Rightarrow> worker_set \<Rightarrow> worker_set" where
  "SetParallelism n s = (let n = (if n < 0 then 0 else n) in if \<not> listed s then s else setParallelism n s)"

definition removeWorker :: "nat \<Rightarrow> worker_set \<Rightarrow> worker_set" where
  "removeWorker i s =
     (let s = s\<lparr>workers := filter (\<lambda>w. ws_id w \<noteq> i) (workers s)\<rparr>
      in if workers s = [] then s\<lparr>draining := True, listed := False\<rparr> else s)"

section \<open>Block sizes\<close>

lemma adaptive_loop_step: "p < v \<Longrightarrow> p < maxBlockSize \<Longrightarrow> adaptive_loop v p = adaptive_loop v (p * 2)"
  by (subst adaptive_loop.simps) simp

lemma adaptive_loop_stop: "v \<le> p \<or> maxBlockSize \<le> p \<Longrightarrow> adaptive_loop v p = Some p"
  by (subst adaptive_loop.simps) auto

lemma adaptive_loop_power:
  "k \<le> 4 \<Longrightarrow> \<exists>j. k \<le> j \<and> j \<le> 4 \<and> adaptive_loop v (minBlockSize * 2 ^ k) = Some (minBlockSize * 2 ^ j) \<and>
     (v \<le> minBlockSize * 2 ^ j \<or> j = 4) \<and> (\<forall>i. k \<le> i \<and> i < j \<longrightarrow> minBlockSize * 2 ^ i < v)"
proof (induction "4 - k" arbitrary: k)
  case 0
  then have "k = 4" by simp
  then show ?case by (intro exI [of _ 4]) (simp add: adaptive_loop_stop minBlockSize_def maxBlockSize_def)
next
  case (Suc d)
  show ?case
  proof (cases "v \<le> minBlockSize * 2 ^ k")
    case True
    then show ?thesis using Suc.prems by (intro exI [of _ k]) (simp add: adaptive_loop_stop)
  next
    case False
    have k: "k < 4" using Suc.hyps(2) by simp
    then have "minBlockSize * 2 ^ k < maxBlockSize"
      using power_strict_increasing [of k 4 "2 :: int"] by (simp add: minBlockSize_def maxBlockSize_def)
    then have "adaptive_loop v (minBlockSize * 2 ^ k) = adaptive_loop v (minBlockSize * 2 ^ k * 2)"
      using False by (intro adaptive_loop_step) auto
    then have s: "adaptive_loop v (minBlockSize * 2 ^ k) = adaptive_loop v (minBlockSize * 2 ^ Suc k)"
      by (simp only: power_Suc ac_simps)
    have d: "d = 4 - Suc k" using Suc.hyps(2) by simp
    obtain j where j: "Suc k \<le> j" "j \<le> 4" "adaptive_loop v (minBlockSize * 2 ^ Suc k) = Some (minBlockSize * 2 ^ j)"
      "v \<le> minBlockSize * 2 ^ j \<or> j = 4" "\<forall>i. Suc k \<le> i \<and> i < j \<longrightarrow> minBlockSize * 2 ^ i < v"
      using Suc.hyps(1) [of "Suc k"] d k by auto
    have "minBlockSize * 2 ^ i < v" if "k \<le> i" "i < j" for i
      using that j(5) False by (cases "i = k") auto
    with j s show ?thesis by (intro exI [of _ j]) auto
  qed
qed

text \<open>The block size as the comment of the function describes it: the share of a connection rounded up to a
  power of two, clamped.\<close>

definition pow2_ceil :: "int \<Rightarrow> int" where
  "pow2_ceil v = 2 ^ (LEAST k. v \<le> 2 ^ k)"

lemma pow2_ceil_eq: "2 ^ n < v \<Longrightarrow> v \<le> 2 ^ Suc n \<Longrightarrow> pow2_ceil v = 2 ^ Suc n"
proof -
  assume a: "2 ^ n < v" "v \<le> 2 ^ Suc n"
  have "(LEAST k. v \<le> 2 ^ k) = Suc n"
  proof (rule Least_equality)
    show "Suc n \<le> k" if "v \<le> 2 ^ k" for k
    proof (rule ccontr)
      assume "\<not> Suc n \<le> k"
      then have "(2 :: int) ^ k \<le> 2 ^ n" by (intro power_increasing) auto
      with a(1) that show False by simp
    qed
  qed (rule a(2))
  then show ?thesis by (simp add: pow2_ceil_def)
qed

lemma pow2_ceil_ge: "v \<le> pow2_ceil v"
proof -
  have "v \<le> 2 ^ nat v"
  proof (cases "0 \<le> v")
    case True
    have "int (nat v) < 2 ^ nat v" by (rule of_nat_less_two_power)
    with True show ?thesis by simp
  next
    case False
    then show ?thesis by simp
  qed
  then have "v \<le> 2 ^ (LEAST k. v \<le> 2 ^ k)" by (rule LeastI)
  then show ?thesis by (simp add: pow2_ceil_def)
qed

lemma pow2_ceil_le: "v \<le> 2 ^ n \<Longrightarrow> pow2_ceil v \<le> 2 ^ n"
  unfolding pow2_ceil_def by (rule power_increasing) (auto intro: Least_le)

lemma minBlockSize_pow: "minBlockSize * 2 ^ j = 2 ^ (22 + j)" "minBlockSize = 2 ^ 22" "maxBlockSize = 2 ^ 26"
  by (simp_all add: minBlockSize_def maxBlockSize_def power_add)

section \<open>Worker sets\<close>

lemma mark_drain_ids: "map ws_id (mark_drain k ws) = map ws_id ws"
  by (induction k ws rule: mark_drain.induct) auto

lemma mark_drain_count:
  "int (length (filter drain (mark_drain k ws))) =
     int (length (filter drain ws)) + min (max 0 k) (int (length (filter (\<lambda>w. \<not> drain w) ws)))"
  by (induction k ws rule: mark_drain.induct) auto

definition live :: "worker_set \<Rightarrow> nat" where
  "live s = length (filter (\<lambda>w. \<not> drain w) (workers s))"

lemma live_split: "length (filter drain ws) + length (filter (\<lambda>w. \<not> drain w) ws) = length ws"
  by (rule sum_length_filter_compl)

lemma mark_drain_length: "length (mark_drain k ws) = length ws"
  by (metis length_map mark_drain_ids)

lemma setParallelism_shrink:
  assumes "\<not> draining s" "n < int (length (workers s))" "0 \<le> n"
  shows "map ws_id (workers (setParallelism n s)) = map ws_id (workers s)"
    "int (live (setParallelism n s)) = min (int (live s)) n"
proof -
  let ?w = "workers s" and ?d = "length (filter drain (workers s))"
  have nadd: "nat n - length ?w = 0" using assms by simp
  have w: "workers (setParallelism n s) = mark_drain (int (length ?w) - n - int ?d) ?w"
    using assms nadd by (simp add: setParallelism_def Let_def)
  show "map ws_id (workers (setParallelism n s)) = map ws_id ?w" by (simp add: w mark_drain_ids)
  show "int (live (setParallelism n s)) = min (int (live s)) n"
    using live_split [of ?w] live_split [of "mark_drain (int (length ?w) - n - int ?d) ?w"] assms(3)
      mark_drain_count [of "int (length ?w) - n - int ?d" ?w]
    unfolding live_def w mark_drain_length by linarith
qed

lemma setParallelism_grow:
  assumes "\<not> draining s" "int (length (workers s)) \<le> n"
  shows "int (length (workers (setParallelism n s))) = n" "take (length (workers s)) (workers (setParallelism n s)) = workers s"
    "int (live (setParallelism n s)) = int (live s) + (n - int (length (workers s)))"
  using assms by (auto simp: setParallelism_def Let_def live_def comp_def)

text \<open>Runs of the worker set: calls of \<^verbatim>\<open>SetParallelism\<close> and exits of workers, in any order.\<close>

inductive ws_step :: "worker_set \<Rightarrow> worker_set \<Rightarrow> bool" where
  set: "ws_step s (SetParallelism n s)"
| exit: "w \<in> set (workers s) \<Longrightarrow> ws_step s (removeWorker (ws_id w) s)"

definition start_workers :: "int \<Rightarrow> worker_set" where
  "start_workers conns = setParallelism conns \<lparr>workers = [], draining = False, listed = True, fresh = 0\<rparr>"

definition ws_ok :: "worker_set \<Rightarrow> bool" where
  "ws_ok s \<longleftrightarrow> distinct (map ws_id (workers s)) \<and> list_all (\<lambda>w. ws_id w < fresh s) (workers s) \<and>
     (draining s \<longleftrightarrow> workers s = []) \<and> (listed s \<longleftrightarrow> \<not> draining s)"

definition spawned :: "int \<Rightarrow> worker_set \<Rightarrow> workerState list" where
  "spawned n s = map (\<lambda>i. \<lparr>ws_id = i, drain = False\<rparr>) [fresh s..<fresh s + (nat n - length (workers s))]"

lemma spawned_ids: "map ws_id (spawned n s) = [fresh s..<fresh s + (nat n - length (workers s))]"
  by (simp add: spawned_def comp_def)

lemma setParallelism_fields:
  assumes "\<not> draining s"
  shows "map ws_id (workers (setParallelism n s)) = map ws_id (workers s) @ map ws_id (spawned n s)"
    "fresh (setParallelism n s) = fresh s + (nat n - length (workers s))"
    "draining (setParallelism n s) = draining s" "listed (setParallelism n s) = listed s"
  unfolding spawned_def using assms by (simp_all add: setParallelism_def Let_def mark_drain_ids)

lemma ids_distinct_upt:
  assumes "distinct (map ws_id ws)" "\<forall>w \<in> set ws. ws_id w < m"
  shows "distinct (map ws_id ws @ [m..<m + k])" "\<forall>i \<in> set (map ws_id ws @ [m..<m + k]). i < m + k"
proof -
  have "set (map ws_id ws) \<inter> set [m..<m + k] = {}" using assms(2) by fastforce
  with assms(1) show "distinct (map ws_id ws @ [m..<m + k])" by (simp only: distinct_append distinct_upt simp_thms)
  show "\<forall>i \<in> set (map ws_id ws @ [m..<m + k]). i < m + k"
    using assms(2) by (simp only: set_append set_map set_upt) (auto intro: trans_less_add1)
qed

lemma setParallelism_ok: "ws_ok s \<Longrightarrow> ws_ok (setParallelism n s)"
proof (cases "draining s")
  case False
  assume ok: "ws_ok s"
  let ?w = "workers (setParallelism n s)" and ?m = "fresh s + (nat n - length (workers s))"
  note f = setParallelism_fields [OF False, of n]
  note u = ids_distinct_upt [of "workers s" "fresh s" "nat n - length (workers s)", folded spawned_ids f(1)]
  have 1: "distinct (map ws_id ?w)" and 2: "\<forall>i \<in> set (map ws_id ?w). i < ?m"
    using u ok unfolding ws_ok_def list_all_iff by blast+
  have "length ?w = length (workers s) + length (spawned n s)"
    using arg_cong [OF f(1), of length] by (simp only: length_map length_append)
  moreover have "workers s \<noteq> []" using ok False unfolding ws_ok_def by blast
  ultimately have 3: "?w \<noteq> []" by (cases ?w) simp_all
  have 4: "\<forall>w \<in> set ?w. ws_id w < ?m" using 2 by (simp only: set_map ball_simps)
  show ?thesis
    using ok False 1 3 4 unfolding ws_ok_def list_all_iff f(2-4) by blast
qed (simp add: setParallelism_def)

lemma ws_step_ok: "ws_step s s' \<Longrightarrow> ws_ok s \<Longrightarrow> ws_ok s'"
proof (induction rule: ws_step.induct)
  case (set s n)
  then show ?case by (simp add: SetParallelism_def Let_def setParallelism_ok)
next
  case (exit w s)
  then show ?case
    by (auto simp: ws_ok_def removeWorker_def Let_def list_all_iff distinct_map intro: inj_on_subset)
qed

interpretation pool: step_invariant ws_step ws_ok
  by unfold_locales (rule ws_step_ok)

lemma start_workers_ok: "0 < conns \<Longrightarrow> ws_ok (start_workers conns)"
  by (simp add: start_workers_def setParallelism_def Let_def ws_ok_def comp_def list_all_iff)

section \<open>Properties\<close>

text \<open>\<^verbatim>\<open>AdaptiveBlockSize\<close> returns for every size and connection count, and its doubling loop computes what
  the doc says: the share of one connection rounded up to a power of two, clamped to 4 and 64 MiB.\<close>

lemma AdaptiveBlockSize_clamps:
  "AdaptiveBlockSize sz conns = Some (max minBlockSize (min (pow2_ceil (sz sdiv max 1 conns)) maxBlockSize))"
proof -
  define v where "v = sz sdiv max 1 conns"
  have c: "(if conns < 1 then 1 else conns) = max 1 conns" by simp
  show ?thesis
  proof (cases "v < minBlockSize")
    case True
    then have "pow2_ceil v \<le> 2 ^ 22" by (intro pow2_ceil_le) (simp add: minBlockSize_pow)
    with True show ?thesis by (simp add: AdaptiveBlockSize_def c v_def [symmetric] minBlockSize_pow(2))
  next
    case False
    obtain j where j: "j \<le> 4" "adaptive_loop v minBlockSize = Some (2 ^ (22 + j))"
      "v \<le> 2 ^ (22 + j) \<or> j = 4" "\<forall>i < j. 2 ^ (22 + i) < v"
      using adaptive_loop_power [of 0 v] by (auto simp: minBlockSize_pow(1))
    have le: "(2 :: int) ^ (22 + j) \<le> 2 ^ 26" using j(1) by (intro power_increasing) auto
    have "2 ^ (22 + j) = max minBlockSize (min (pow2_ceil v) maxBlockSize)"
    proof (cases j)
      case 0
      with j False have "v = 2 ^ 22" by (auto simp: minBlockSize_pow(2))
      then show ?thesis using pow2_ceil_le [of v 22] pow2_ceil_ge [of v] 0 by (simp add: minBlockSize_pow(2,3))
    next
      case (Suc i)
      with j(4) have lo: "2 ^ (22 + i) < v" by simp
      show ?thesis
      proof (cases "v \<le> 2 ^ (22 + j)")
        case True
        then have "pow2_ceil v = 2 ^ (22 + j)" using pow2_ceil_eq [of "22 + i" v] lo Suc by simp
        moreover have "(2 :: int) ^ 22 \<le> 2 ^ (22 + j)" by (intro power_increasing) auto
        ultimately show ?thesis using le by (simp add: minBlockSize_pow(2,3))
      next
        case False
        with j(3) show ?thesis using pow2_ceil_ge [of v] by (simp add: minBlockSize_pow(2,3))
      qed
    qed
    with j(2) le False show ?thesis
      by (simp add: AdaptiveBlockSize_def c v_def [symmetric] minBlockSize_pow(3))
  qed
qed

text \<open>C36: The worker set follows the parallelism asked for. In every state a run can reach, a call with
  target \<open>n\<close> below the size of the set leaves \<open>n\<close> workers unmarked, or all of them when fewer were, and
  removes none; a call at or above it fills the set up to \<open>n\<close>; a set whose last worker has left is never
  refilled. So a positive target never marks the last unmarked worker.\<close>

theorem parallelism_reconciled:
  assumes "0 < conns" "ws_step\<^sup>*\<^sup>* (start_workers conns) s" "0 \<le> n"
  shows "if workers s = [] then SetParallelism n s = s
    else if n < int (length (workers s))
    then map ws_id (workers (SetParallelism n s)) = map ws_id (workers s) \<and>
         int (live (SetParallelism n s)) = min (int (live s)) n
    else int (length (workers (SetParallelism n s))) = n \<and>
         int (live (SetParallelism n s)) = int (live s) + (n - int (length (workers s)))"
proof -
  have ok: "ws_ok s" using pool.inv_run [OF assms(2) start_workers_ok [OF assms(1)]] .
  show ?thesis
    using ok assms(3) setParallelism_shrink [of s n] setParallelism_grow(1,3) [of s n]
    by (auto simp: SetParallelism_def ws_ok_def)
qed

theorem parallelism_reconciled_witness:
  "int (live (SetParallelism 1 (start_workers 3))) = 1 \<and> length (workers (SetParallelism 1 (start_workers 3))) = 3"
  using parallelism_reconciled [of 3 "start_workers 3" 1]
  by (simp add: start_workers_def setParallelism_def Let_def live_def upt_rec SetParallelism_def)

end
