(* ===== verification/Gates.thy ===== *)
theory Gates
  imports Store_Props
begin

text \<open>
  \<^verbatim>\<open>pkg/sched/storecall.go\<close> and \<^verbatim>\<open>gates.go\<close>: the retry of busy store calls, the cooldown gates, and the pause
  for a full disk with its watcher. What the program reads from outside (busy results, the clock, random
  draws in \<open>[0, 1)\<close>, free space and write probes) is an argument. A gate is its flag: the channel only
  wakes the waiters.
\<close>

section \<open>Store calls\<close>

definition busyRetries :: nat where "busyRetries = 24"

datatype call_error = Busy | Failed store_error

text \<open>\<open>busy k\<close>: attempt \<open>k\<close> loses to a concurrent writer and has no effect; \<open>ctxDone k\<close>: the context is done
  at the check or during the wait that follows it.\<close>

record call_env =
  busy :: "nat \<Rightarrow> bool"
  ctxDone :: "nat \<Rightarrow> bool"
  c_now :: time

fun store_loop :: "nat \<Rightarrow> nat \<Rightarrow> call_env \<Rightarrow> (DB \<Rightarrow> store_error + (DB \<times> 'a)) \<Rightarrow> DB \<Rightarrow> DB \<times> (call_error + 'a)" where
  "store_loop 0 k env fn db = (db, Inl Busy)"
| "store_loop (Suc n) k env fn db =
     (if busy env k
      then (if ctxDone env k then (db, Inl Busy) else store_loop n (k + 1) env fn db)
      else case fn db of Inl e \<Rightarrow> (db, Inl (Failed e)) | Inr (db', x) \<Rightarrow> (db', Inr x))"

definition storeCall :: "call_env \<Rightarrow> (DB \<Rightarrow> store_error + (DB \<times> 'a)) \<Rightarrow> DB \<Rightarrow> DB \<times> (call_error + 'a)" where
  "storeCall env fn db = store_loop busyRetries 0 env fn db"

text \<open>A call whose function returns no value.\<close>

definition plain :: "(DB \<Rightarrow> store_error + DB) \<Rightarrow> DB \<Rightarrow> store_error + (DB \<times> unit)" where
  "plain fn db = (case fn db of Inl e \<Rightarrow> Inl e | Inr db' \<Rightarrow> Inr (db', ()))"

section \<open>Cooldowns\<close>

definition jittered :: "real \<Rightarrow> duration \<Rightarrow> duration" where
  "jittered r d = (if d \<le> 0 then d else d + trunc ((r * (4 / 10) - 2 / 10) * real_of_int d))"

definition cooldownBackoff :: "real \<Rightarrow> nat \<Rightarrow> duration" where
  "cooldownBackoff r attempt = jittered r (min (second * 2 ^ min attempt 9) (5 * minute))"

definition sched_setCooldown ::
  "real \<Rightarrow> time \<Rightarrow> string \<Rightarrow> string \<Rightarrow> duration \<Rightarrow> nat \<Rightarrow> string \<Rightarrow> DB \<Rightarrow> DB" where
  "sched_setCooldown r now endpoint kind retryAfter attempt why db =
     (let d = (if retryAfter \<le> 0 then cooldownBackoff r attempt else retryAfter)
      in SetCooldown endpoint kind (now + d) why db)"

text \<open>One pass of \<^verbatim>\<open>waitCooldown\<close>: \<open>None\<close> when the endpoint may be called, otherwise how long to wait.\<close>

definition cooldown_wait :: "time \<Rightarrow> string \<Rightarrow> string \<Rightarrow> DB \<Rightarrow> duration option" where
  "cooldown_wait now endpoint kind db =
     (case CooldownUntil endpoint kind db of
        None \<Rightarrow> None
      | Some until \<Rightarrow> if \<not> now < until then None else Some (until - now))"

section \<open>The pause for a full disk\<close>

definition enospcResumeBytes :: int where "enospcResumeBytes = 256 * 2 ^ 20"
definition probeMinBytes :: int where "probeMinBytes = 4 * 2 ^ 20"
definition probeGiveUpDefault :: int where "probeGiveUpDefault = 100"
definition probeBackoffMax :: duration where "probeBackoffMax = 30 * second"

text \<open>\<open>watchers\<close> counts the watcher goroutines started and not yet ended.\<close>

record enospc =
  e_on :: bool
  e_demand :: int
  e_dir :: string
  e_backoff :: duration
  watchers :: nat

definition noteIOErrorAt :: "string \<Rightarrow> bool \<Rightarrow> string \<Rightarrow> int \<Rightarrow> enospc \<Rightarrow> enospc \<times> bool" where
  "noteIOErrorAt cacheRoot outOfSpace dir demand s =
     (if \<not> outOfSpace then (s, False)
      else
        (let dir = (if dir = '''' then cacheRoot else dir);
             demand = (if demand < enospcResumeBytes then enospcResumeBytes else demand)
         in if e_on s
            then (if e_demand s < demand then (s\<lparr>e_demand := demand\<rparr>, True) else (s, True))
            else (s\<lparr>e_demand := demand, e_dir := dir, e_on := True, watchers := watchers s + 1\<rparr>, True)))"

definition noteIOError :: "string \<Rightarrow> bool \<Rightarrow> enospc \<Rightarrow> enospc \<times> bool" where
  "noteIOError cacheRoot outOfSpace s = noteIOErrorAt cacheRoot outOfSpace '''' enospcResumeBytes s"

definition endEpisode :: "enospc \<Rightarrow> enospc" where
  "endEpisode s = s\<lparr>e_on := False\<rparr>"

definition enospcDemandNow :: "enospc \<Rightarrow> int" where
  "enospcDemandNow s = e_demand s"

datatype free_space = Unsupported | StatfsErr | Free int

text \<open>What the watcher meets in one round: the context, the demands other goroutines raise while it sleeps,
  the free space, and the size up to which a write probe succeeds.\<close>

record watch_poll =
  w_ctx :: bool
  w_peers :: "(bool \<times> string \<times> int) list"
  w_free :: free_space
  w_writable :: int

definition peers_note :: "string \<Rightarrow> (bool \<times> string \<times> int) list \<Rightarrow> enospc \<Rightarrow> enospc" where
  "peers_note cacheRoot ps s = foldl (\<lambda>s (oos, dir, n). fst (noteIOErrorAt cacheRoot oos dir n s)) s ps"

text \<open>Whether the round proves the disk writable, and whether a probe failed in it.\<close>

definition watch_round :: "int \<Rightarrow> watch_poll \<Rightarrow> bool \<times> bool" where
  "watch_round demand p =
     (let probe = (max demand probeMinBytes \<le> w_writable p)
      in case w_free p of
           Unsupported \<Rightarrow> (probe, \<not> probe)
         | StatfsErr \<Rightarrow> (False, False)
         | Free n \<Rightarrow> if n < demand then (False, False) else (probe, \<not> probe))"

datatype watch_end = Cancelled | Resumed | GaveUp

text \<open>\<open>listOk\<close>: whether the query for the open jobs succeeds; each job is failed by a call of its own.\<close>

definition fail_jobs :: "(int \<Rightarrow> call_env) \<Rightarrow> string \<Rightarrow> int list \<Rightarrow> DB \<Rightarrow> DB" where
  "fail_jobs envs msg ids db =
     foldl (\<lambda>db i. fst (storeCall (envs i) (plain (FinishJob i (Some msg) (c_now (envs i)))) db)) db ids"

definition enospcGiveUp :: "bool \<Rightarrow> (int \<Rightarrow> call_env) \<Rightarrow> string \<Rightarrow> DB \<Rightarrow> enospc \<Rightarrow> DB \<times> enospc" where
  "enospcGiveUp listOk envs msg db s =
     (let ids = (if listOk then map j_id (filter job_open (jobs db)) else [])
      in (fail_jobs envs msg ids db, endEpisode s))"

partial_function (option) watch_loop ::
  "string \<Rightarrow> (nat \<Rightarrow> watch_poll) \<Rightarrow> bool \<Rightarrow> (int \<Rightarrow> call_env) \<Rightarrow> string \<Rightarrow> int \<Rightarrow> duration \<Rightarrow> nat \<Rightarrow> duration \<Rightarrow> int \<Rightarrow> DB \<Rightarrow> enospc
     \<Rightarrow> (watch_end \<times> nat \<times> int \<times> DB \<times> enospc) option" where
  "watch_loop cacheRoot polls listOk envs msg giveUp capAt k backoff failures db s =
     (let s = peers_note cacheRoot (w_peers (polls k)) s
      in if w_ctx (polls k) then Some (Cancelled, k, failures, db, endEpisode s)
         else
           (case watch_round (enospcDemandNow s) (polls k) of
              (writable, failed) \<Rightarrow>
                (let failures = (if failed then failures + 1 else failures)
                 in if writable then Some (Resumed, k, failures, db, endEpisode s)
                    else if giveUp \<le> failures
                    then (case enospcGiveUp listOk envs msg db s of (db, s) \<Rightarrow> Some (GaveUp, k, failures, db, s))
                    else
                      (let backoff = backoff * 2;
                           backoff = (if capAt < backoff then capAt else backoff)
                       in watch_loop cacheRoot polls listOk envs msg giveUp capAt (k + 1) backoff failures db
                            (s\<lparr>e_backoff := backoff\<rparr>)))))"

definition watch_start :: "duration \<Rightarrow> enospc \<Rightarrow> duration" where
  "watch_start poll s =
     (if e_backoff s \<le> 0 then (if poll \<le> 0 \<or> second < poll then second else poll) else e_backoff s)"

definition enospcWatcher ::
  "string \<Rightarrow> (nat \<Rightarrow> watch_poll) \<Rightarrow> bool \<Rightarrow> (int \<Rightarrow> call_env) \<Rightarrow> string \<Rightarrow> int \<Rightarrow> duration \<Rightarrow> duration \<Rightarrow> DB \<Rightarrow> enospc
     \<Rightarrow> (watch_end \<times> nat \<times> int \<times> DB \<times> enospc) option" where
  "enospcWatcher cacheRoot polls listOk envs msg limit poll maxBackoff db s =
     (let giveUp = (if limit \<le> 0 then probeGiveUpDefault else limit);
          capAt = (if maxBackoff \<le> 0 then probeBackoffMax else maxBackoff)
      in map_option (\<lambda>(r, k, n, db, s). (r, k, n, db, s\<lparr>watchers := watchers s - 1\<rparr>))
           (watch_loop cacheRoot polls listOk envs msg giveUp capAt 0 (watch_start poll s) 0 db s))"

section \<open>Lemmas\<close>

lemma store_loop_cases:
  "store_loop n k env fn db = (db', r) \<Longrightarrow>
     (case r of
        Inl Busy \<Rightarrow> db' = db
      | Inl (Failed e) \<Rightarrow> db' = db \<and> fn db = Inl e
      | Inr x \<Rightarrow> fn db = Inr (db', x))"
  by (induction n k env fn db rule: store_loop.induct) (auto split: if_splits sum.splits)

lemma storeCall_cases:
  "storeCall env fn db = (db', r) \<Longrightarrow>
     (case r of
        Inl Busy \<Rightarrow> db' = db
      | Inl (Failed e) \<Rightarrow> db' = db \<and> fn db = Inl e
      | Inr x \<Rightarrow> fn db = Inr (db', x))"
  unfolding storeCall_def by (rule store_loop_cases)

lemma storeCall_Inr: "storeCall env fn db = (db', Inr x) \<Longrightarrow> fn db = Inr (db', x)"
  using storeCall_cases [of env fn db db' "Inr x"] by simp

lemma storeCall_Inl: "storeCall env fn db = (db', Inl e) \<Longrightarrow> db' = db"
  using storeCall_cases [of env fn db db' "Inl e"] by (cases e) auto

lemma storeCall_first: "\<not> busy env 0 \<Longrightarrow>
  storeCall env fn db = (case fn db of Inl e \<Rightarrow> (db, Inl (Failed e)) | Inr (db', x) \<Rightarrow> (db', Inr x))"
  by (simp add: storeCall_def busyRetries_def numeral_eq_Suc)

lemma plain_Inr: "plain fn db = Inr (db', u) \<longleftrightarrow> fn db = Inr db'"
  by (cases "fn db") (auto simp: plain_def)

lemma jittered_bounds:
  assumes "0 \<le> r" "r < 1" "0 \<le> d"
  shows "8 / 10 * real_of_int d \<le> real_of_int (jittered r d)" "real_of_int (jittered r d) \<le> 12 / 10 * real_of_int d"
proof -
  let ?x = "(r * (4 / 10) - 2 / 10) * real_of_int d"
  have lo: "- (2 / 10) * real_of_int d \<le> ?x" and hi: "?x \<le> 2 / 10 * real_of_int d"
    using assms by (intro mult_right_mono; simp)+
  have d: "jittered r d = d + trunc ?x" if "d \<noteq> 0" using assms(3) that by (simp add: jittered_def)
  have t: "- (2 / 10) * real_of_int d \<le> real_of_int (trunc ?x)" "real_of_int (trunc ?x) \<le> 2 / 10 * real_of_int d"
    using trunc_bounds [of ?x] lo hi assms(3) by (cases "?x < 0"; simp)+
  show "8 / 10 * real_of_int d \<le> real_of_int (jittered r d)" "real_of_int (jittered r d) \<le> 12 / 10 * real_of_int d"
    using t d by (cases "d = 0"; simp add: jittered_def)+
qed

lemma peers_note_on: "e_on s \<Longrightarrow> e_on (peers_note cacheRoot ps s) \<and> e_demand s \<le> e_demand (peers_note cacheRoot ps s) \<and>
    watchers (peers_note cacheRoot ps s) = watchers s"
proof (induction ps arbitrary: s)
  case (Cons p ps)
  obtain oos dir n where p: "p = (oos, dir, n)" by (cases p)
  let ?s = "fst (noteIOErrorAt cacheRoot oos dir n s)"
  have "e_on ?s \<and> e_demand s \<le> e_demand ?s \<and> watchers ?s = watchers s"
    using Cons.prems by (auto simp: noteIOErrorAt_def Let_def)
  with Cons.IH [of ?s] show ?case by (simp add: peers_note_def p)
qed (simp add: peers_note_def)

lemma watch_round_proof:
  assumes "watch_round demand p = (w, f)"
  shows "w \<Longrightarrow> max demand probeMinBytes \<le> w_writable p \<and> w_free p \<noteq> StatfsErr \<and> (\<forall>n. w_free p = Free n \<longrightarrow> demand \<le> n)"
    "w \<Longrightarrow> \<not> f"
  using assms by (auto simp: watch_round_def Let_def split: free_space.splits if_splits)

text \<open>What the end of a watch means.\<close>

definition watch_post :: "bool \<Rightarrow> (int \<Rightarrow> call_env) \<Rightarrow> string \<Rightarrow> (nat \<Rightarrow> watch_poll) \<Rightarrow> int \<Rightarrow> DB \<Rightarrow> int \<Rightarrow> watch_end \<times> nat \<times> int \<times> DB \<times> enospc \<Rightarrow> bool" where
  "watch_post listOk envs msg polls giveUp db d res \<longleftrightarrow>
     (case res of (r, k, n, db', s') \<Rightarrow>
        \<not> e_on s' \<and> d \<le> e_demand s' \<and> n \<le> giveUp \<and>
        (case r of
           Cancelled \<Rightarrow> w_ctx (polls k) \<and> db' = db
         | Resumed \<Rightarrow> db' = db \<and> max (e_demand s') probeMinBytes \<le> w_writable (polls k) \<and>
             w_free (polls k) \<noteq> StatfsErr \<and> (\<forall>m. w_free (polls k) = Free m \<longrightarrow> e_demand s' \<le> m)
         | GaveUp \<Rightarrow> n = giveUp \<and>
             db' = fail_jobs envs msg (if listOk then map j_id (filter job_open (jobs db)) else []) db))"

definition watch_rel :: "bool \<Rightarrow> (int \<Rightarrow> call_env) \<Rightarrow> string \<Rightarrow> (nat \<Rightarrow> watch_poll) \<Rightarrow> int \<Rightarrow> int \<Rightarrow> DB \<Rightarrow> enospc \<Rightarrow> watch_end \<times> nat \<times> int \<times> DB \<times> enospc \<Rightarrow> bool" where
  "watch_rel listOk envs msg polls giveUp failures db s res \<longleftrightarrow>
     (e_on s \<and> failures < giveUp \<longrightarrow>
        watch_post listOk envs msg polls giveUp db (e_demand s) res \<and>
        watchers (snd (snd (snd (snd res)))) = watchers s)"

lemma watch_rel_step:
  assumes "watch_rel listOk envs msg polls giveUp f db (s'\<lparr>e_backoff := b\<rparr>) res" "f < giveUp"
    "e_on s \<Longrightarrow> e_on s' \<and> e_demand s \<le> e_demand s' \<and> watchers s' = watchers s"
  shows "watch_rel listOk envs msg polls giveUp failures db s res"
  using assms unfolding watch_rel_def watch_post_def
  by (cases res) (auto split: watch_end.splits)

lemma watch_loop_rel:
  assumes "watch_loop cacheRoot polls listOk envs msg giveUp capAt k backoff failures db s = Some res"
  shows "watch_rel listOk envs msg polls giveUp failures db s res"
  using assms
proof (rule watch_loop.raw_induct
    [where P = "\<lambda>cacheRoot polls listOk envs msg giveUp capAt k backoff failures db s res.
        watch_rel listOk envs msg polls giveUp failures db s res", rotated], goal_cases)
  case (1 loop cacheRoot polls listOk envs msg giveUp capAt k backoff failures db s res)
  let ?s = "peers_note cacheRoot (w_peers (polls k)) s"
  note pn = peers_note_on [of s cacheRoot "w_peers (polls k)"]
  obtain w f where wf: "watch_round (e_demand ?s) (polls k) = (w, f)" by force
  note wr = watch_round_proof [OF wf]
  let ?f = "if f then failures + 1 else failures"
  show ?case
  proof (cases "w_ctx (polls k) \<or> w \<or> giveUp \<le> ?f")
    case True
    then show ?thesis
      using 1(2) pn wr wf
      by (auto simp: watch_rel_def watch_post_def Let_def enospcDemandNow_def endEpisode_def enospcGiveUp_def split: if_splits)
  next
    case False
    define b where "b = (if capAt < backoff * 2 then capAt else backoff * 2)"
    have "loop cacheRoot polls listOk envs msg giveUp capAt (k + 1) b ?f db (?s\<lparr>e_backoff := b\<rparr>) = Some res"
      using 1(2) False wf by (auto simp: Let_def enospcDemandNow_def b_def split: if_splits)
    from 1(1) [OF this] show ?thesis by (rule watch_rel_step) (use False pn in auto)
  qed
qed

lemma watch_loop_returns:
  assumes "w_ctx (polls (k + m))"
  shows "\<exists>res. watch_loop cacheRoot polls listOk envs msg giveUp capAt k backoff failures db s = Some res"
  using assms
proof (induction m arbitrary: k backoff failures db s)
  case 0
  then show ?case by (subst watch_loop.simps) (simp add: Let_def)
next
  case (Suc m)
  have "\<exists>res. watch_loop cacheRoot polls listOk envs msg giveUp capAt (k + 1) backoff' failures' db' s' = Some res"
    for backoff' failures' db' s' by (rule Suc.IH) (use Suc.prems in simp)
  then show ?case by (subst watch_loop.simps) (auto simp: Let_def split: prod.splits)
qed

lemma FinishJob_closes:
  assumes "FinishJob i (Some c) now db = Inr db'"
  shows "\<forall>j \<in> set (jobs db'). job_open j \<longrightarrow> j \<in> set (jobs db) \<and> j_id j \<noteq> i"
proof -
  let ?P = "\<lambda>j. j_id j = i \<and> job_open j"
  obtain g where js: "jobs db' = sql_update ?P g (jobs db)" and g: "\<And>j. j_status (g j) = JobError"
  proof
    show "jobs db' = sql_update ?P (\<lambda>j. j\<lparr>j_status := JobError, j_last_error := coalesce (Some c) (j_last_error j),
        j_updated_at := now\<rparr>) (jobs db)"
      using assms unfolding FinishJob_def by (cases "sql_count ?P (jobs db) \<noteq> 1") auto
  qed simp
  have "\<not> job_open (g j)" for j by (simp add: job_open_def g)
  then show ?thesis unfolding js by (auto simp: ball_sql_update_iff)
qed

lemma FinishJob_refused:
  assumes "jobs_ok (jobs db)" "FinishJob i c now db = Inl e" "j \<in> set (jobs db)" "job_open j"
  shows "j_id j \<noteq> i"
proof
  assume i: "j_id j = i"
  have "sql_count (\<lambda>j. j_id j = i \<and> job_open j) (jobs db) = 1"
  proof (rule sql_count_unique [OF table_ok_distinct [OF assms(1)] assms(3)])
    show "r' = j" if "r' \<in> set (jobs db)" "j_id r' = i \<and> job_open r'" for r'
      by (rule table_ok_unique [OF assms(1) that(1) assms(3)]) (use that i in simp)
  qed (use assms(4) i in simp)
  with assms(2) show False by (simp add: FinishJob_def)
qed

lemma fail_jobs_closes:
  assumes "store_ok db" "\<forall>i. \<not> busy (envs i) 0"
  shows "\<forall>j \<in> set (jobs (fail_jobs envs msg ids db)). job_open j \<longrightarrow> j \<in> set (jobs db) \<and> j_id j \<notin> set ids"
  using assms(1)
proof (induction ids arbitrary: db)
  case (Cons i ids)
  let ?db = "fst (storeCall (envs i) (plain (FinishJob i (Some msg) (c_now (envs i)))) db)"
  have ok: "store_ok ?db \<and> (\<forall>j \<in> set (jobs ?db). job_open j \<longrightarrow> j \<in> set (jobs db) \<and> j_id j \<noteq> i)"
  proof (cases "FinishJob i (Some msg) (c_now (envs i)) db")
    case (Inl e)
    then have "?db = db" using assms(2) by (simp add: storeCall_first plain_def)
    moreover have "\<forall>j \<in> set (jobs db). job_open j \<longrightarrow> j \<in> set (jobs db) \<and> j_id j \<noteq> i"
      using FinishJob_refused [OF store_okD(2) [OF Cons.prems] Inl] by blast
    ultimately show ?thesis using Cons.prems by simp
  next
    case (Inr db')
    then have "?db = db'" using assms(2) by (simp add: storeCall_first plain_def)
    with FinishJob_closes [OF Inr] FinishJob_ok [OF Cons.prems Inr] show ?thesis by simp
  qed
  have "fail_jobs envs msg (i # ids) db = fail_jobs envs msg ids ?db" by (simp add: fail_jobs_def)
  moreover have "\<forall>j \<in> set (jobs (fail_jobs envs msg ids ?db)). job_open j \<longrightarrow> j \<in> set (jobs ?db) \<and> j_id j \<notin> set ids"
    by (rule Cons.IH [OF conjunct1 [OF ok]])
  ultimately show ?case using conjunct2 [OF ok] by simp
qed (simp add: fail_jobs_def)

section \<open>Properties\<close>


definition demo_polls :: "nat \<Rightarrow> watch_poll" where
  "demo_polls k = \<lparr>w_ctx = (k = 9), w_peers = (if k = 0 then [(True, ''d'', 2 ^ 30)] else []),
     w_free = (if k = 0 then Free 5 else Free (2 ^ 31)), w_writable = (if k < 2 then 0 else 2 ^ 31)\<rparr>"

definition demo_enospc :: enospc where
  "demo_enospc = fst (noteIOError ''cache'' True \<lparr>e_on = False, e_demand = 0, e_dir = ''none'', e_backoff = 0, watchers = 0\<rparr>)"


end
