(* ===== verification/Tune.thy ===== *)
theory Tune
  imports Prelude "HOL-Library.Signed_Division" "HOL-Library.Multiset"
begin

text \<open>
  \<^verbatim>\<open>pkg/tune/controller.go\<close>, the hill-climbing controller of the connection budget, and the allocation of the
  budget to the active files in \<^verbatim>\<open>pkg/sched/autotune.go\<close> with the clamp of \<^verbatim>\<open>limits.go\<close>. Rates are reals and
  connection counts unbounded integers (they are small numbers of connections). The zero time of a
  gate is \<open>None\<close>. The map of active files is a list in the order an iteration visits it.
\<close>

section \<open>The controller\<close>

definition DefaultSettle :: duration where "DefaultSettle = 24 * second"
definition DefaultProbeInterval :: duration where "DefaultProbeInterval = 5 * second"
definition DefaultBackoffStart :: duration where "DefaultBackoffStart = 30 * second"
definition DefaultBackoffMax :: duration where "DefaultBackoffMax = 5 * minute"
definition DefaultKillFreeze :: duration where "DefaultKillFreeze = 30 * second"
definition defaultGain :: real where "defaultGain = 5 / 100"
definition defaultUtilCeiling :: real where "defaultUtilCeiling = 9 / 10"
definition doubleBelow :: int where "doubleBelow = 8"
definition saturationNum :: int where "saturationNum = 3"
definition saturationDen :: int where "saturationDen = 4"

record Sample =
  Rate :: real
  Utilization :: real
  Assigned :: int
  Kills :: int

record tune_Config =
  Settle :: duration
  ProbeInterval :: duration
  BackoffStart :: duration
  BackoffMax :: duration
  KillFreeze :: duration
  Gain :: real
  UtilCeiling :: real

definition withDefaults :: "tune_Config \<Rightarrow> tune_Config" where
  "withDefaults c =
     (let c = (if Settle c \<le> 0 then c\<lparr>Settle := DefaultSettle\<rparr> else c);
          c = (if ProbeInterval c \<le> 0 then c\<lparr>ProbeInterval := DefaultProbeInterval\<rparr> else c);
          c = (if BackoffStart c \<le> 0 then c\<lparr>BackoffStart := DefaultBackoffStart\<rparr> else c);
          c = (if BackoffMax c \<le> 0 then c\<lparr>BackoffMax := DefaultBackoffMax\<rparr> else c);
          c = (if KillFreeze c \<le> 0 then c\<lparr>KillFreeze := DefaultKillFreeze\<rparr> else c);
          c = (if Gain c \<le> 0 then c\<lparr>Gain := defaultGain\<rparr> else c);
          c = (if UtilCeiling c \<le> 0 then c\<lparr>UtilCeiling := defaultUtilCeiling\<rparr> else c)
      in c)"

record Controller =
  t_cfg :: tune_Config
  t_budget :: int
  prevBudget :: int
  probing :: bool
  seeded :: bool
  t_baseRate :: real
  settleUntil :: time
  nextProbeAt :: "time option"
  t_backoff :: duration
  freezeUntil :: "time option"
  lastKills :: int
  killsSeeded :: bool

definition new_Controller :: "tune_Config \<Rightarrow> Controller" where
  "new_Controller cfg =
     \<lparr>t_cfg = withDefaults cfg, t_budget = 1, prevBudget = 0, probing = False, seeded = False, t_baseRate = 0,
      settleUntil = 0, nextProbeAt = None, t_backoff = 0, freezeUntil = None, lastKills = 0, killsSeeded = False\<rparr>"

definition Committed :: "Controller \<Rightarrow> int" where
  "Committed c = (if probing c then prevBudget c else t_budget c)"

definition nextStep :: "int \<Rightarrow> int" where
  "nextStep b = (if b < doubleBelow then b * 2 else b + max 1 (b div 4))"

definition is_before :: "time \<Rightarrow> time option \<Rightarrow> bool" where
  "is_before now t = (case t of None \<Rightarrow> False | Some u \<Rightarrow> now < u)"

text \<open>The stages of \<^verbatim>\<open>Observe\<close>: seed and clamp, stall kills, the end of a probe, the start of one.\<close>

definition observe_clamp :: "int \<Rightarrow> Controller \<Rightarrow> Controller" where
  "observe_clamp maxBudget c =
     (let c = (if \<not> seeded c then c\<lparr>seeded := True, t_budget := max 1 (maxBudget div 2)\<rparr> else c)
      in if maxBudget < t_budget c then c\<lparr>t_budget := maxBudget, probing := False\<rparr> else c)"

definition observe_kills :: "time \<Rightarrow> Sample \<Rightarrow> Controller \<Rightarrow> Controller" where
  "observe_kills now s c =
     (if \<not> killsSeeded c then c\<lparr>lastKills := Kills s, killsSeeded := True\<rparr>
      else if lastKills c < Kills s
      then (let c = c\<lparr>lastKills := Kills s, freezeUntil := Some (now + KillFreeze (t_cfg c))\<rparr>
            in if probing c then c\<lparr>t_budget := prevBudget c, probing := False\<rparr> else c)
      else c)"

definition observe_settle :: "time \<Rightarrow> Sample \<Rightarrow> Controller \<Rightarrow> Controller" where
  "observe_settle now s c =
     (if now < settleUntil c then c
      else
        (let c = c\<lparr>probing := False\<rparr>
         in if t_baseRate c * (1 + Gain (t_cfg c)) \<le> Rate s
            then c\<lparr>t_backoff := 0, nextProbeAt := Some (now + ProbeInterval (t_cfg c))\<rparr>
            else
              (let c = c\<lparr>t_budget := prevBudget c\<rparr>;
                   c = c\<lparr>t_backoff := (if t_backoff c = 0 then BackoffStart (t_cfg c)
                                       else min (t_backoff c * 2) (BackoffMax (t_cfg c)))\<rparr>
               in c\<lparr>nextProbeAt := Some (now + t_backoff c)\<rparr>)))"

definition observe_probe :: "time \<Rightarrow> int \<Rightarrow> Sample \<Rightarrow> Controller \<Rightarrow> Controller" where
  "observe_probe now maxBudget s c =
     (if is_before now (nextProbeAt c) \<or> is_before now (freezeUntil c) then c
      else if maxBudget \<le> t_budget c then c
      else if UtilCeiling (t_cfg c) \<le> Utilization s
      then c\<lparr>nextProbeAt := Some (now + ProbeInterval (t_cfg c))\<rparr>
      else if Assigned s * saturationDen < t_budget c * saturationNum then c
      else if Rate s \<le> 0 then c
      else c\<lparr>prevBudget := t_budget c, t_baseRate := Rate s, t_budget := min (nextStep (t_budget c)) maxBudget,
             probing := True, settleUntil := now + Settle (t_cfg c)\<rparr>)"

definition Observe :: "time \<Rightarrow> int \<Rightarrow> Sample \<Rightarrow> Controller \<Rightarrow> Controller \<times> int" where
  "Observe now maxBudget s c =
     (let maxBudget = (if maxBudget < 1 then 1 else maxBudget);
          c = observe_kills now s (observe_clamp maxBudget c);
          c = (if probing c then observe_settle now s c else observe_probe now maxBudget s c)
      in (c, t_budget c))"

section \<open>Allocation\<close>

record activeFile =
  af_id :: int
  af_seq :: nat
  af_blockSize :: int
  af_remaining :: int
  af_conns :: int

record alloc =
  active :: "activeFile list"
  admitSeq :: nat
  budget :: int
  committed :: int
  al_MaxWorkers :: int

definition new_alloc :: "int \<Rightarrow> alloc" where
  "new_alloc mw = \<lparr>active = [], admitSeq = 0, budget = 1, committed = 1, al_MaxWorkers = mw\<rparr>"

definition connBudget :: "alloc \<Rightarrow> int" where
  "connBudget m = min (max (budget m) 1) (max (al_MaxWorkers m) 1)"

definition committedBudget :: "alloc \<Rightarrow> int" where
  "committedBudget m = min (max (committed m) 1) (max (al_MaxWorkers m) 1)"

definition usableConns :: "activeFile \<Rightarrow> int \<Rightarrow> int" where
  "usableConns af limit =
     (let limit = max limit 1
      in if af_blockSize af \<le> 0 then limit
         else
           (let blocks = af_remaining af sdiv af_blockSize af;
                blocks = (if af_remaining af smod af_blockSize af \<noteq> 0 then blocks + 1 else blocks)
            in min (max blocks 1) limit))"

definition spareConnsLocked :: "int \<Rightarrow> alloc \<Rightarrow> int" where
  "spareConnsLocked b m = b - sum_list (map (\<lambda>af. usableConns af b) (active m))"

definition spareConns :: "alloc \<Rightarrow> int" where
  "spareConns m = spareConnsLocked (committedBudget m) m"

definition noteBlockDone :: "int \<Rightarrow> int \<Rightarrow> alloc \<Rightarrow> alloc" where
  "noteBlockDone fileID n m =
     m\<lparr>active := map (\<lambda>af. if af_id af = fileID then af\<lparr>af_remaining := max (af_remaining af - n) 0\<rparr> else af) (active m)\<rparr>"

definition assignedConns :: "alloc \<Rightarrow> int" where
  "assignedConns m = sum_list (map af_conns (active m))"

text \<open>The split of the budget over the files, oldest first; then the shares are stored and sent to the
  downloader. The result carries the calls of \<^verbatim>\<open>setParallelism\<close> in order.\<close>

fun allot :: "int \<Rightarrow> int \<Rightarrow> activeFile list \<Rightarrow> (int \<times> int) list" where
  "allot b left [] = []"
| "allot b left (f # fs) =
     (let c = max (min (usableConns f b) (left - int (length fs))) 1
      in (af_id f, c) # allot b (left - c) fs)"

definition assign :: "(int \<times> int) list \<Rightarrow> activeFile list \<Rightarrow> activeFile list" where
  "assign ts = map (\<lambda>af. case map_of ts (af_id af) of None \<Rightarrow> af | Some c \<Rightarrow> af\<lparr>af_conns := c\<rparr>)"

definition rebalanceLocked :: "int \<Rightarrow> alloc \<Rightarrow> alloc \<times> (int \<times> int) list" where
  "rebalanceLocked b m =
     (let ts = allot b b (sort_key af_seq (active m))
      in (m\<lparr>active := assign ts (active m)\<rparr>, ts))"

definition admitFile :: "int \<Rightarrow> int \<Rightarrow> int \<Rightarrow> alloc \<Rightarrow> alloc \<times> (int \<times> int) list \<times> int option" where
  "admitFile fileID blockSize remaining m =
     (if fileID \<in> set (map af_id (active m)) \<or> spareConnsLocked (committedBudget m) m < 1 then (m, [], None)
      else
        (let m = m\<lparr>admitSeq := admitSeq m + 1\<rparr>;
             m = m\<lparr>active := active m @ [\<lparr>af_id = fileID, af_seq = admitSeq m, af_blockSize = blockSize,
                     af_remaining = remaining, af_conns = 0\<rparr>]\<rparr>
         in case rebalanceLocked (connBudget m) m of
              (m, ts) \<Rightarrow> (m, ts, map_option af_conns (find (\<lambda>af. af_id af = fileID) (active m)))))"

definition clampBudget :: "int \<Rightarrow> alloc \<Rightarrow> alloc" where
  "clampBudget maxWorkers m =
     (let m = m\<lparr>al_MaxWorkers := maxWorkers\<rparr>; mw = max maxWorkers 1
      in if mw < budget m \<or> mw < committed m
         then (let m = (if mw < budget m then m\<lparr>budget := mw\<rparr> else m);
                   m = (if mw < committed m then m\<lparr>committed := mw\<rparr> else m)
               in fst (rebalanceLocked (connBudget m) m))
         else m)"

text \<open>One tick of \<^verbatim>\<open>tuneLoop\<close>; the second result is whether the download queue is nudged.\<close>

definition tune_tick ::
  "time \<Rightarrow> real \<Rightarrow> real \<Rightarrow> int \<Rightarrow> Controller \<Rightarrow> alloc \<Rightarrow> Controller \<times> alloc \<times> bool" where
  "tune_tick now rate util kills ctrl m =
     (let sample = \<lparr>Rate = rate, Utilization = util, Assigned = assignedConns m, Kills = kills\<rparr>
      in case Observe now (max (al_MaxWorkers m) 1) sample ctrl of
           (ctrl, b) \<Rightarrow>
             (let prevCommitted = committed m;
                  m = fst (rebalanceLocked b (m\<lparr>budget := b, committed := Committed ctrl\<rparr>))
              in (ctrl, m, prevCommitted < Committed ctrl \<or> (active m \<noteq> [] \<and> 0 < spareConns m))))"

definition removeActive :: "int \<Rightarrow> alloc \<Rightarrow> alloc" where
  "removeActive fileID m = m\<lparr>active := filter (\<lambda>af. af_id af \<noteq> fileID) (active m)\<rparr>"

section \<open>The controller: lemmas\<close>

definition ctrl_ok :: "Controller \<Rightarrow> bool" where
  "ctrl_ok c \<longleftrightarrow> 1 \<le> t_budget c \<and> 0 < KillFreeze (t_cfg c) \<and>
     (probing c \<longrightarrow> seeded c \<and> 1 \<le> prevBudget c \<and> prevBudget c \<le> t_budget c)"

lemma ctrl_ok_new: "ctrl_ok (new_Controller cfg)"
  by (simp add: ctrl_ok_def new_Controller_def withDefaults_def Let_def DefaultKillFreeze_def time_units)

lemma nextStep_bounds: "1 \<le> b \<Longrightarrow> b < nextStep b \<and> nextStep b \<le> 2 * b"
  by (auto simp: nextStep_def doubleBelow_def)

lemma clamp_stage:
  assumes "ctrl_ok c" "1 \<le> m"
  shows "ctrl_ok (observe_clamp m c)" "t_budget (observe_clamp m c) \<le> m" "seeded (observe_clamp m c)"
    "seeded c \<Longrightarrow> t_budget c \<le> m \<Longrightarrow> observe_clamp m c = c"
    "seeded c \<Longrightarrow> m < t_budget c \<Longrightarrow> t_budget (observe_clamp m c) = m"
  using assms by (auto simp: observe_clamp_def ctrl_ok_def Let_def)

lemma kills_stage:
  assumes "ctrl_ok c" "t_budget c \<le> m"
  shows "ctrl_ok (observe_kills now s c)" "t_budget (observe_kills now s c) \<le> t_budget c"
    "t_budget (observe_kills now s c) \<le> m" "t_cfg (observe_kills now s c) = t_cfg c"
    "is_before now (freezeUntil (observe_kills now s c)) \<or>
     (t_budget (observe_kills now s c) = t_budget c \<and> probing (observe_kills now s c) = probing c \<and>
      settleUntil (observe_kills now s c) = settleUntil c)"
  using assms by (auto simp: observe_kills_def ctrl_ok_def Let_def is_before_def)

lemma settle_stage:
  assumes "ctrl_ok c" "probing c" "t_budget c \<le> m"
  shows "ctrl_ok (observe_settle now s c)" "t_budget (observe_settle now s c) \<le> t_budget c"
  using assms by (auto simp: observe_settle_def ctrl_ok_def Let_def)

lemma probe_stage:
  assumes "ctrl_ok c" "\<not> probing c" "seeded c" "t_budget c \<le> m"
  shows "ctrl_ok (observe_probe now m s c)" "t_budget (observe_probe now m s c) \<le> m"
    "t_budget c < t_budget (observe_probe now m s c) \<Longrightarrow>
       \<not> is_before now (freezeUntil c) \<and> \<not> is_before now (nextProbeAt c) \<and>
       Utilization s < UtilCeiling (t_cfg c) \<and> 0 < Rate s \<and> t_budget c * saturationNum \<le> Assigned s * saturationDen \<and>
       Committed (observe_probe now m s c) = t_budget c \<and> t_budget (observe_probe now m s c) \<le> 2 * t_budget c"
  using assms nextStep_bounds [of "t_budget c"]
  by (auto simp: observe_probe_def ctrl_ok_def Committed_def split: if_splits)

lemma observe_stages:
  assumes ok: "ctrl_ok c" and ob: "Observe now m s c = (c', b)"
  defines "k \<equiv> observe_kills now s (observe_clamp (max m 1) c)"
  shows "c' = (if probing k then observe_settle now s k else observe_probe now (max m 1) s k)" "b = t_budget c'"
    "ctrl_ok k" "t_budget k \<le> max m 1" "ctrl_ok c'" "b \<le> max m 1"
proof -
  have mx: "(if m < 1 then 1 else m) = max m 1" by simp
  show c': "c' = (if probing k then observe_settle now s k else observe_probe now (max m 1) s k)" and b: "b = t_budget c'"
    using ob unfolding Observe_def mx Let_def k_def by auto
  note cl = clamp_stage [OF ok, of "max m 1"]
  have "ctrl_ok (observe_clamp (max m 1) c)" "t_budget (observe_clamp (max m 1) c) \<le> max m 1" "seeded (observe_clamp (max m 1) c)"
    using cl(1-3) by simp_all
  note ki = kills_stage [OF this(1,2), of now s, folded k_def] and sd = this(3)
  show k: "ctrl_ok k" "t_budget k \<le> max m 1" using ki by simp_all
  have sk: "seeded k" using sd by (auto simp: k_def observe_kills_def Let_def)
  show "ctrl_ok c'" using settle_stage(1) [OF k(1) _ k(2)] probe_stage(1) [OF k(1) _ sk k(2)] by (simp add: c')
  show "b \<le> max m 1"
  proof (cases "probing k")
    case True
    from settle_stage(2) [OF k(1) True k(2), of now s] k(2) True show ?thesis unfolding b c' by simp
  next
    case False
    from probe_stage(2) [OF k(1) False sk k(2), of now s] False show ?thesis unfolding b c' by simp
  qed
qed

definition ctrl_step :: "Controller \<Rightarrow> Controller \<Rightarrow> bool" where
  "ctrl_step c c' \<longleftrightarrow> (\<exists>now m s. c' = fst (Observe now m s c))"

interpretation climb: step_invariant ctrl_step ctrl_ok
proof
  show "ctrl_ok t" if "ctrl_step s t" "ctrl_ok s" for s t
    using that observe_stages(5) [OF that(2)] unfolding ctrl_step_def by (metis prod.collapse)
qed

text \<open>When the budget grows, a probe has started from an accepted budget.\<close>

lemma observe_grows:
  assumes ok: "ctrl_ok c" and ob: "Observe now m s c = (c', b)" and g: "seeded c" "t_budget c < b"
  shows "\<not> probing c \<and> Committed c' = t_budget c \<and> b \<le> 2 * t_budget c \<and> 0 < Rate s \<and>
    Utilization s < UtilCeiling (t_cfg c) \<and> t_budget c * saturationNum \<le> Assigned s * saturationDen"
proof -
  define k where "k = observe_kills now s (observe_clamp (max m 1) c)"
  note st = observe_stages [OF ok ob, folded k_def]
  have le: "t_budget c \<le> max m 1" using g(2) st(6) by simp
  have cl: "observe_clamp (max m 1) c = c" using clamp_stage(4) [OF ok _ g(1) le] by simp
  note ki = kills_stage [OF ok le, of now s]
  have kk: "k = observe_kills now s c" by (simp add: k_def cl)
  have sk: "seeded k" using g(1) by (auto simp: kk observe_kills_def Let_def)
  have np: "\<not> probing k"
    using settle_stage(2) [OF st(3) _ st(4), of now s] st(1,2) g(2) ki(2) by (auto simp: kk)
  have c': "c' = observe_probe now (max m 1) s k" using st(1) np by simp
  have less: "t_budget k < t_budget (observe_probe now (max m 1) s k)" using g(2) st(2) ki(2) by (simp add: c' kk)
  note p = probe_stage(3) [OF st(3) np sk st(4) less]
  have same: "t_budget k = t_budget c" "probing k = probing c" using ki(5) p by (auto simp: kk)
  with p np c' st(2) ki(4) show ?thesis by (simp add: kk)
qed

section \<open>Allocation: lemmas\<close>

lemma usable_bounds: "1 \<le> usableConns af b" "usableConns af b \<le> max b 1"
  by (auto simp: usableConns_def Let_def)

lemma sum_usable_ge: "int (length fs) \<le> sum_list (map (\<lambda>af. usableConns af b) fs)"
  by (induction fs) (auto intro: add_mono usable_bounds)

lemma allot_ids: "map fst (allot b left fs) = map af_id fs"
  by (induction fs arbitrary: left) (auto simp: Let_def)

lemma allot_short: "left \<le> int (length fs) \<Longrightarrow> map snd (allot b left fs) = replicate (length fs) 1"
  by (induction fs arbitrary: left) (auto simp: Let_def)

lemma allot_total:
  "int (length fs) \<le> left \<Longrightarrow>
     sum_list (map snd (allot b left fs)) = min (sum_list (map (\<lambda>af. usableConns af b) fs)) left"
proof (induction fs arbitrary: left)
  case (Cons f fs)
  let ?u = "usableConns f b" and ?U = "sum_list (map (\<lambda>af. usableConns af b) fs)"
  let ?c = "max (min ?u (left - int (length fs))) 1"
  have c: "?c = min ?u (left - int (length fs))" using usable_bounds(1) [of f b] Cons.prems by simp
  have len: "int (length fs) \<le> left - ?c" using Cons.prems by simp
  show ?case
    using Cons.IH [OF len] sum_usable_ge [of fs b] Cons.prems unfolding c by (simp add: Let_def c)
qed simp

text \<open>Shares are in bounds, and a file short of its usable parallelism leaves one connection to every
  newer file.\<close>

lemma allot_shares:
  "(i, c) \<in> set (allot b left fs) \<Longrightarrow> 1 \<le> c \<and> (\<exists>f \<in> set fs. af_id f = i \<and> c \<le> usableConns f b)"
proof (induction fs arbitrary: left)
  case (Cons f fs)
  then show ?case using usable_bounds(1) [of f b] by (force simp: Let_def)
qed simp

lemma allot_oldest_first:
  "i < j \<Longrightarrow> j < length fs \<Longrightarrow> snd (allot b left fs ! i) < usableConns (fs ! i) b \<Longrightarrow> snd (allot b left fs ! j) = 1"
proof (induction fs arbitrary: left i j)
  case (Cons f fs)
  let ?c = "max (min (usableConns f b) (left - int (length fs))) 1"
  obtain j' where j: "j = Suc j'" using Cons.prems(1) by (cases j) auto
  show ?case
  proof (cases i)
    case 0
    then have "left - ?c \<le> int (length fs)" using Cons.prems(3) by (auto simp: Let_def)
    then have "map snd (allot b (left - ?c) fs) = replicate (length fs) 1" by (rule allot_short)
    then have "map snd (allot b (left - ?c) fs) ! j' = 1" using Cons.prems(2) j by simp
    moreover have "length (allot b (left - ?c) fs) = length fs" by (metis allot_ids length_map)
    ultimately show ?thesis using Cons.prems(2) j by (simp add: Let_def)
  next
    case (Suc i')
    then show ?thesis using Cons j by (auto simp: Let_def)
  qed
qed simp

lemma assign_simps: "map af_id (assign ts fs) = map af_id fs" "length (assign ts fs) = length fs"
  "map af_seq (assign ts fs) = map af_seq fs"
  by (auto simp: assign_def split: option.splits)

lemma assign_total:
  assumes "distinct (map af_id fs)" "map fst ts = map af_id gs" "mset gs = mset fs"
  shows "sum_list (map af_conns (assign ts fs)) = sum_list (map snd ts)"
proof -
  have d: "distinct (map fst ts)" using assms by (metis mset_eq_imp_distinct_iff mset_map)
  have conns: "af_conns (case map_of ts (af_id f) of None \<Rightarrow> f | Some c \<Rightarrow> f\<lparr>af_conns := c\<rparr>) = the (map_of ts (af_id f))"
    if "f \<in> set fs" for f
  proof -
    have "af_id f \<in> fst ` set ts" using that assms(2,3) by (metis image_eqI list.set_map mset_eq_setD)
    then obtain c where "map_of ts (af_id f) = Some c" by (metis map_of_eq_None_iff not_None_eq)
    then show ?thesis by simp
  qed
  have "sum_list (map af_conns (assign ts fs)) = sum_list (map (\<lambda>f. the (map_of ts (af_id f))) fs)"
    unfolding assign_def by (simp add: comp_def conns cong: map_cong)
  also have "\<dots> = sum_list (map (\<lambda>f. the (map_of ts (af_id f))) gs)"
    using assms(3) by (metis mset_map sum_mset_sum_list)
  also have "\<dots> = sum_list (map (\<lambda>i. the (map_of ts i)) (map fst ts))" unfolding assms(2) by (simp add: comp_def)
  also have "\<dots> = sum_list (map snd ts)"
    using d by (intro arg_cong [where f = sum_list]) (auto simp: comp_def)
  finally show ?thesis .
qed

text \<open>The consistency of the allocation, and its runs together with the controller.\<close>

definition alloc_ok :: "alloc \<Rightarrow> bool" where
  "alloc_ok m \<longleftrightarrow> distinct (map af_id (active m)) \<and> distinct (map af_seq (active m)) \<and>
     list_all (\<lambda>q. q \<le> admitSeq m) (map af_seq (active m)) \<and> 1 \<le> committed m \<and> committed m \<le> budget m"

inductive alloc_step :: "Controller \<times> alloc \<Rightarrow> Controller \<times> alloc \<Rightarrow> bool" where
  admit: "alloc_step (c, m) (c, fst (admitFile i bs n m))"
| finish: "alloc_step (c, m) (c, noteBlockDone i n m)"
| tick: "tune_tick now rate util kills c m = (c', m', w) \<Longrightarrow> alloc_step (c, m) (c', m')"
| clamp: "alloc_step (c, m) (c, clampBudget mw m)"
| remove: "alloc_step (c, m) (c, removeActive i m)"

lemma rebalance_frame:
  "map af_id (active (fst (rebalanceLocked b m))) = map af_id (active m)"
  "map af_seq (active (fst (rebalanceLocked b m))) = map af_seq (active m)"
  "admitSeq (fst (rebalanceLocked b m)) = admitSeq m" "budget (fst (rebalanceLocked b m)) = budget m"
  "committed (fst (rebalanceLocked b m)) = committed m" "al_MaxWorkers (fst (rebalanceLocked b m)) = al_MaxWorkers m"
  by (simp_all add: rebalanceLocked_def Let_def assign_simps)

lemma alloc_ok_rebalance: "alloc_ok (fst (rebalanceLocked b m)) \<longleftrightarrow> alloc_ok m"
  by (simp add: alloc_ok_def rebalance_frame)

definition admitted :: "int \<Rightarrow> int \<Rightarrow> int \<Rightarrow> alloc \<Rightarrow> alloc" where
  "admitted i bs n m = m\<lparr>admitSeq := admitSeq m + 1,
     active := active m @ [\<lparr>af_id = i, af_seq = admitSeq m + 1, af_blockSize = bs, af_remaining = n, af_conns = 0\<rparr>]\<rparr>"

lemma admitFile_eq:
  "admitFile i bs n m =
     (if i \<in> set (map af_id (active m)) \<or> spareConnsLocked (committedBudget m) m < 1 then (m, [], None)
      else case rebalanceLocked (connBudget m) (admitted i bs n m) of
             (m', ts) \<Rightarrow> (m', ts, map_option af_conns (find (\<lambda>af. af_id af = i) (active m'))))"
  by (simp add: admitFile_def admitted_def Let_def connBudget_def)

lemma alloc_ok_admitted: "alloc_ok m \<Longrightarrow> i \<notin> set (map af_id (active m)) \<Longrightarrow> alloc_ok (admitted i bs n m)"
  by (force simp: alloc_ok_def admitted_def list_all_iff)

lemma alloc_ok_admitFile: "alloc_ok m \<Longrightarrow> alloc_ok (fst (admitFile i bs n m))"
  using alloc_ok_rebalance [of "connBudget m" "admitted i bs n m"] alloc_ok_admitted [of m i bs n]
  by (auto simp: admitFile_eq split: prod.splits)

lemma alloc_ok_clamp: "alloc_ok m \<Longrightarrow> alloc_ok (clampBudget mw m)"
proof -
  assume ok: "alloc_ok m"
  let ?x = "max mw 1"
  define m1 where "m1 = m\<lparr>al_MaxWorkers := mw\<rparr>"
  define m2 where "m2 = (if ?x < budget m1 then m1\<lparr>budget := ?x\<rparr> else m1)"
  define m3 where "m3 = (if ?x < committed m2 then m2\<lparr>committed := ?x\<rparr> else m2)"
  have 1: "alloc_ok m1" using ok by (simp add: alloc_ok_def m1_def)
  have 3: "alloc_ok m3" using ok by (auto simp: alloc_ok_def m1_def m2_def m3_def)
  have "clampBudget mw m = (if ?x < budget m1 \<or> ?x < committed m1 then fst (rebalanceLocked (connBudget m3) m3) else m1)"
    unfolding clampBudget_def Let_def m1_def [symmetric] m2_def [symmetric] m3_def [symmetric] ..
  with 1 3 show ?thesis by (simp add: alloc_ok_rebalance)
qed

lemma Committed_bounds: "ctrl_ok c \<Longrightarrow> 1 \<le> Committed c \<and> Committed c \<le> t_budget c"
  by (simp add: ctrl_ok_def Committed_def)

lemma tick_ok:
  assumes "tune_tick now rate util kills c m = (c', m', w)" "ctrl_ok c" "alloc_ok m"
  shows "ctrl_ok c' \<and> alloc_ok m'"
proof -
  let ?s = "\<lparr>Rate = rate, Utilization = util, Assigned = assignedConns m, Kills = kills\<rparr>"
  obtain c1 b where ob: "Observe now (max (al_MaxWorkers m) 1) ?s c = (c1, b)" by force
  note st = observe_stages(2,5) [OF assms(2) ob]
  have "alloc_ok (m\<lparr>budget := b, committed := Committed c1\<rparr>)"
    using assms(3) Committed_bounds [OF st(2)] st(1) by (simp add: alloc_ok_def)
  then show ?thesis using assms(1) ob st(2) by (auto simp: tune_tick_def Let_def alloc_ok_rebalance)
qed

interpretation alloc: step_invariant alloc_step "\<lambda>s. ctrl_ok (fst s) \<and> alloc_ok (snd s)"
proof
  show "ctrl_ok (fst t) \<and> alloc_ok (snd t)" if "alloc_step s t" "ctrl_ok (fst s) \<and> alloc_ok (snd s)" for s t
    using that
  proof (induction rule: alloc_step.induct)
    case (finish c m i n)
    have "map af_id (active (noteBlockDone i n m)) = map af_id (active m)"
      "map af_seq (active (noteBlockDone i n m)) = map af_seq (active m)" by (auto simp: noteBlockDone_def)
    with finish show ?case by (simp add: alloc_ok_def) (simp add: noteBlockDone_def)
  next
    case (remove c m i)
    then show ?case by (auto simp: alloc_ok_def removeActive_def distinct_map list_all_iff inj_on_def)
  qed (auto simp: alloc_ok_admitFile alloc_ok_clamp dest: tick_ok)
qed

lemma new_alloc_ok: "ctrl_ok (fst (new_Controller cfg, new_alloc mw)) \<and> alloc_ok (snd (new_Controller cfg, new_alloc mw))"
  by (simp add: ctrl_ok_new alloc_ok_def new_alloc_def)

lemma admitted_ids: "i \<in> af_id ` set (active (admitted i bs n m))"
  by (simp add: admitted_def)

lemma find_assigned:
  assumes "map_of ts i = Some k" "i \<in> af_id ` set fs"
  shows "map_option af_conns (find (\<lambda>af. af_id af = i) (assign ts fs)) = Some k"
  using assms(2)
proof (induction fs)
  case (Cons f fs)
  then show ?case using assms(1) by (cases "af_id f = i") (auto simp: assign_def split: option.splits)
qed simp

text \<open>What a rebalance assigns in total.\<close>

lemma rebalance_total:
  assumes "alloc_ok m" "rebalanceLocked b m = (m', ts)"
  shows "assignedConns m' = min (sum_list (map (\<lambda>af. usableConns af b) (active m))) (max b (int (length (active m))))"
proof -
  let ?fs = "active m" and ?gs = "sort_key af_seq (active m)"
  let ?U = "sum_list (map (\<lambda>af. usableConns af b) ?fs)"
  have ts: "ts = allot b b ?gs" and m': "active m' = assign ts ?fs"
    using assms(2) by (auto simp: rebalanceLocked_def Let_def)
  have "assignedConns m' = sum_list (map snd ts)"
    unfolding assignedConns_def m'
    by (rule assign_total [where gs = ?gs]) (use assms(1) in \<open>simp_all add: ts allot_ids alloc_ok_def\<close>)
  also have "\<dots> = min ?U (max b (int (length ?fs)))"
  proof (cases "int (length ?fs) \<le> b")
    case True
    have "sum_list (map (\<lambda>af. usableConns af b) ?gs) = ?U" by (metis mset_map mset_sort sum_mset_sum_list)
    with allot_total [of ?gs b b] True show ?thesis by (simp add: ts)
  next
    case False
    then have "map snd ts = replicate (length ?fs) 1" using allot_short [of b ?gs b] by (simp add: ts)
    then have "sum_list (map snd ts) = int (length ?fs)" by (simp add: sum_list_replicate)
    with False sum_usable_ge [of ?fs b] show ?thesis by simp
  qed
  finally show ?thesis .
qed

section \<open>Properties\<close>

text \<open>C29: The controller stays within its ceiling. In every state it can reach, \<^verbatim>\<open>Observe\<close> returns a budget
  between 1 and the ceiling, and the committed budget lies between 1 and it. After the first sample the
  budget grows only by starting a probe: with no other probe open, bandwidth to spare, traffic, and at
  least three quarters of the budget assigned; it at most doubles, and the budget before stays the
  committed one.\<close>

theorem budget_within_ceiling:
  assumes "ctrl_step\<^sup>*\<^sup>* (new_Controller cfg) c" "Observe now m s c = (c', b)"
  shows "1 \<le> b \<and> b \<le> max m 1 \<and> 1 \<le> Committed c' \<and> Committed c' \<le> b \<and>
    (seeded c \<and> t_budget c < b \<longrightarrow>
       \<not> probing c \<and> Committed c' = t_budget c \<and> b \<le> 2 * t_budget c \<and> 0 < Rate s \<and>
       Utilization s < UtilCeiling (t_cfg c) \<and> t_budget c * saturationNum \<le> Assigned s * saturationDen)"
proof -
  have ok: "ctrl_ok c" by (rule climb.inv_run [OF assms(1) ctrl_ok_new])
  note st = observe_stages [OF ok assms(2)]
  show ?thesis
    using st(2,5,6) Committed_bounds [OF st(5)] observe_grows [OF ok assms(2)] by (simp add: ctrl_ok_def)
qed

definition demo_cfg :: tune_Config where
  "demo_cfg = \<lparr>Settle = 0, ProbeInterval = 0, BackoffStart = 0, BackoffMax = 0, KillFreeze = 0, Gain = 0, UtilCeiling = 0\<rparr>"

definition demo_sample :: Sample where
  "demo_sample = \<lparr>Rate = 1000, Utilization = 0, Assigned = 8, Kills = 0\<rparr>"

lemmas demo_tune = demo_cfg_def demo_sample_def new_Controller_def withDefaults_def Observe_def observe_clamp_def
  observe_kills_def observe_probe_def observe_settle_def is_before_def nextStep_def Committed_def
  DefaultKillFreeze_def defaultUtilCeiling_def doubleBelow_def saturationNum_def saturationDen_def
  DefaultSettle_def DefaultProbeInterval_def DefaultBackoffStart_def DefaultBackoffMax_def defaultGain_def

theorem budget_within_ceiling_witness:
  "(let (c', b) = Observe 0 16 demo_sample (new_Controller demo_cfg) in b = 10 \<and> Committed c' = 8 \<and> b \<le> 16 \<and> Committed c' \<le> b)"
  using budget_within_ceiling [of demo_cfg "new_Controller demo_cfg" 0 16 demo_sample
    "fst (Observe 0 16 demo_sample (new_Controller demo_cfg))" "snd (Observe 0 16 demo_sample (new_Controller demo_cfg))"]
  by (simp add: demo_tune)

text \<open>A lowered ceiling ends a probe by committing the clamped probe value, which no measurement has
  accepted.\<close>

lemma clamp_commits_unaccepted:
  assumes "seeded c" "probing c" "killsSeeded c" "Kills s \<le> lastKills c" "1 \<le> m" "prevBudget c < m" "m < t_budget c"
  shows "Committed c < Committed (fst (Observe now m s c))"
  using assms by (simp add: Observe_def observe_clamp_def observe_kills_def observe_probe_def Committed_def Let_def)

text \<open>C28: The split of a budget is exact and ordered. In every state the scheduler can reach, \<^verbatim>\<open>rebalanceLocked\<close>
  visits the active files by age, gives each at least one connection and at most its usable
  parallelism, and gives a file less than that only if every newer file gets just one; the total is the
  smaller of the usable parallelism and the budget, or one per file when the budget is smaller than
  the set.\<close>

theorem rebalance_exact:
  assumes "alloc_step\<^sup>*\<^sup>* (new_Controller cfg, new_alloc mw) (c, m)" "rebalanceLocked b m = (m', ts)"
  defines "fs \<equiv> sort_key af_seq (active m)"
  shows "map fst ts = map af_id fs \<and>
    assignedConns m' = min (sum_list (map (\<lambda>af. usableConns af b) (active m))) (max b (int (length (active m)))) \<and>
    (\<forall>i < length fs. 1 \<le> snd (ts ! i) \<and> snd (ts ! i) \<le> usableConns (fs ! i) b) \<and>
    (\<forall>i j. i < j \<and> j < length fs \<and> snd (ts ! i) < usableConns (fs ! i) b \<longrightarrow> snd (ts ! j) = 1)"
proof -
  have ok: "alloc_ok m" using alloc.inv_run [OF assms(1) new_alloc_ok] by simp
  have ts: "ts = allot b b fs" using assms(2) by (auto simp: rebalanceLocked_def Let_def fs_def)
  have sh: "1 \<le> snd (allot b l gs ! i) \<and> snd (allot b l gs ! i) \<le> usableConns (gs ! i) b" if "i < length gs" for i l gs
    using that
  proof (induction gs arbitrary: l i)
    case (Cons g gs)
    then show ?case using usable_bounds(1) [of g b] by (cases i) (auto simp: Let_def)
  qed simp
  show ?thesis
    unfolding ts
  proof (intro conjI allI impI)
    show "snd (allot b b fs ! j) = 1" if "i < j \<and> j < length fs \<and> snd (allot b b fs ! i) < usableConns (fs ! i) b" for i j
      using allot_oldest_first [of i j fs b b] that by simp
  qed (simp_all add: allot_ids rebalance_total [OF ok assms(2)] sh)
qed

definition demo_alloc :: alloc where
  "demo_alloc = fst (admitFile 1 10 35 (new_alloc 8))"

lemma demo_alloc_reachable: "alloc_step\<^sup>*\<^sup>* (new_Controller demo_cfg, new_alloc 8) (new_Controller demo_cfg, demo_alloc)"
  unfolding demo_alloc_def by (intro r_into_rtranclp alloc_step.admit)

lemmas demo_alloc_simps = demo_alloc_def admitFile_def new_alloc_def spareConnsLocked_def spareConns_def committedBudget_def
  connBudget_def rebalanceLocked_def usableConns_def assign_def assignedConns_def signed_divide_int_def signed_modulo_int_def

theorem rebalance_exact_witness:
  "assignedConns (fst (rebalanceLocked 3 demo_alloc)) = 3 \<and> snd (rebalanceLocked 3 demo_alloc) = [(1, 3)]"
  using rebalance_exact [OF demo_alloc_reachable, of 3 "fst (rebalanceLocked 3 demo_alloc)" "snd (rebalanceLocked 3 demo_alloc)"]
  by (simp add: demo_alloc_simps)

text \<open>C27: Admission never oversubscribes. In every state the scheduler can reach, a file is refused exactly
  when it is already active or the committed budget has no connection the active files cannot use; a file
  that is admitted gets at least one connection, its share is the one sent to the downloader, and all
  the shares together stay within the live budget.\<close>

theorem admission_within_budget:
  assumes "alloc_step\<^sup>*\<^sup>* (new_Controller cfg, new_alloc mw) (c, m)" "admitFile i bs n m = (m', ts, r)"
  shows "(r = None \<longleftrightarrow> i \<in> set (map af_id (active m)) \<or> spareConns m < 1) \<and> (r = None \<longrightarrow> m' = m \<and> ts = []) \<and>
    (\<forall>k. r = Some k \<longrightarrow> 1 \<le> k \<and> (i, k) \<in> set ts \<and> assignedConns m' \<le> connBudget m)"
proof (cases "i \<in> set (map af_id (active m)) \<or> spareConns m < 1")
  case True
  then show ?thesis using assms(2) by (auto simp: admitFile_eq spareConns_def)
next
  case False
  let ?m = "admitted i bs n m" and ?b = "connBudget m"
  have ok: "alloc_ok m" using alloc.inv_run [OF assms(1) new_alloc_ok] by simp
  have oka: "alloc_ok ?m" using alloc_ok_admitted [OF ok] False by blast
  obtain m1 ts1 where rb: "rebalanceLocked ?b ?m = (m1, ts1)" by force
  have eqs: "m' = m1" "ts = ts1" "r = map_option af_conns (find (\<lambda>af. af_id af = i) (active m1))"
    using assms(2) False rb by (auto simp: admitFile_eq spareConns_def)
  have ts: "ts1 = allot ?b ?b (sort_key af_seq (active ?m))" and act: "active m1 = assign ts1 (active ?m)"
    using rb by (auto simp: rebalanceLocked_def Let_def)
  have "int (length (active m)) + 1 \<le> committedBudget m"
    using False sum_usable_ge [of "active m" "committedBudget m"] by (simp add: spareConns_def spareConnsLocked_def)
  moreover have "committedBudget m \<le> ?b" using ok by (auto simp: alloc_ok_def committedBudget_def connBudget_def)
  ultimately have "int (length (active ?m)) \<le> ?b" by (simp add: admitted_def)
  then have tot: "assignedConns m1 \<le> ?b" using rebalance_total [OF oka rb] by simp
  have "i \<in> fst ` set ts1" using allot_ids [of ?b ?b "sort_key af_seq (active ?m)"] unfolding ts
    by (metis admitted_ids list.set_map set_sort image_eqI)
  then obtain k where k: "map_of ts1 i = Some k" by (metis map_of_eq_None_iff not_None_eq)
  have "r = Some k" unfolding eqs(3) act by (rule find_assigned [OF k admitted_ids])
  moreover have "(i, k) \<in> set ts1" by (rule map_of_SomeD [OF k])
  moreover have "1 \<le> k" using allot_shares calculation(2) unfolding ts by blast
  ultimately show ?thesis using False tot eqs by auto
qed

theorem admission_within_budget_witness:
  "snd (admitFile 1 10 35 (new_alloc 8)) = ([(1, 1)], Some 1) \<and> assignedConns (fst (admitFile 1 10 35 (new_alloc 8))) \<le> 1 \<and>
   snd (admitFile 2 10 5 demo_alloc) = ([], None) \<and> fst (admitFile 2 10 5 demo_alloc) = demo_alloc"
proof -
  have e: "snd (admitFile 1 10 35 (new_alloc 8)) = ([(1, 1)], Some 1)" "snd (admitFile 2 10 5 demo_alloc) = ([], None)"
    "connBudget (new_alloc 8) = 1" by code_simp+
  have 1: "admitFile 1 10 35 (new_alloc 8) = (fst (admitFile 1 10 35 (new_alloc 8)), [(1, 1)], Some 1)"
    and 2: "admitFile 2 10 5 demo_alloc = (fst (admitFile 2 10 5 demo_alloc), [], None)"
    using e(1,2) by (metis prod.collapse)+
  show ?thesis
    using admission_within_budget [OF rtranclp.rtrancl_refl [of alloc_step "(new_Controller demo_cfg, new_alloc 8)"] 1]
      admission_within_budget [OF demo_alloc_reachable 2] e by auto
qed

end
