(* ===== verification/Leaser.thy ===== *)
theory Leaser
  imports Gates Block_Stream Tune
begin

text \<open>
  \<^verbatim>\<open>pkg/sched/leaser.go\<close>: the adapter through which the downloader sees the store as a supply of blocks
  (\<^verbatim>\<open>transfer.BlockLeaser\<close>), with the contract of that interface as a locale over an abstract board of
  block states. Calls of the workers are steps; a call runs against the database without other
  writers in between, and the steps of a run come in any order.
\<close>

section \<open>The adapter\<close>

definition maxLeaseWait :: duration where "maxLeaseWait = 5 * second"
definition leaseRepoll :: duration where "leaseRepoll = 20 * millisecond"
definition maxBlockRetries :: int where "maxBlockRetries = 8"

datatype leaser_error = ErrGiveUp | ErrCall call_error | ErrQuery | ErrCtx

record blockLeaser =
  bl_fileID :: int
  bl_fileTok :: LeaseToken
  tokens :: "int \<rightharpoonup> LeaseToken"
  gaveUp :: bool

definition newBlockLeaser :: "int \<Rightarrow> LeaseToken \<Rightarrow> blockLeaser" where
  "newBlockLeaser fileID fileTok = \<lparr>bl_fileID = fileID, bl_fileTok = fileTok, tokens = Map.empty, gaveUp = False\<rparr>"

text \<open>The adapter with the parts of the manager it reaches: database, allocation, disk pause, and the
  recorded errors.\<close>

record leaser_state =
  bl :: blockLeaser
  l_db :: DB
  l_alloc :: alloc
  l_enospc :: enospc
  l_errs :: "string list"

definition pop :: "int \<Rightarrow> blockLeaser \<Rightarrow> LeaseToken \<times> blockLeaser" where
  "pop blockID l =
     (case tokens l blockID of None \<Rightarrow> '''' | Some t \<Rightarrow> t, l\<lparr>tokens := (tokens l)(blockID := None)\<rparr>)"

definition pendingState :: "int \<Rightarrow> DB \<Rightarrow> nat \<times> time option" where
  "pendingState fileID db =
     (let rows = filter (\<lambda>b. b_file_id b = fileID \<and> b_status b = BlockPending) (blocks db);
          times = List.map_filter b_available_at rows
      in (length rows, if times = [] then None else Some (foldr min (tl times) (hd times))))"

definition lease_wait :: "time option \<Rightarrow> time \<Rightarrow> duration" where
  "lease_wait earliest now =
     (case earliest of
        None \<Rightarrow> leaseRepoll
      | Some e \<Rightarrow> (let d = e - now in if d < maxLeaseWait then max d 0 else maxLeaseWait))"

text \<open>
  One round of the loop of \<^verbatim>\<open>Lease\<close>. \<open>p_err\<close> and \<open>p_perr\<close>: the claim or the probe fails with a database
  error; \<open>p_now\<close> and \<open>p_now2\<close>: the two readings of the clock.
\<close>

record poll =
  p_owner :: string
  p_toks :: "nat \<Rightarrow> LeaseToken"
  p_now :: time
  p_now2 :: time
  p_err :: bool
  p_perr :: bool

datatype lease_result = Leased Block_Stream.Block | Drained | LeaseErr leaser_error | WaitFor duration

definition lease_round :: "poll \<Rightarrow> int \<Rightarrow> leaser_state \<Rightarrow> leaser_state \<times> lease_result" where
  "lease_round p fileID s =
     (if gaveUp (bl s) then (s, LeaseErr ErrGiveUp)
      else if p_err p then (s, LeaseErr ErrQuery)
      else case LeaseBlocks (p_owner p) (p_toks p) (\<lambda>_ d. d) 1 \<lparr>FileIDs = [fileID], MaxPerFile = (\<lambda>_. None)\<rparr> (p_now p) (l_db s) of
        (db, (b, tok) # _) \<Rightarrow>
          (s\<lparr>l_db := db, bl := (bl s)\<lparr>tokens := (tokens (bl s))(b_id b \<mapsto> tok)\<rparr>\<rparr>,
           Leased \<lparr>ID = b_id b, Idx = b_idx b, Offset = b_offset b, Length = b_length b\<rparr>)
      | (db, []) \<Rightarrow>
          (let s = s\<lparr>l_db := db\<rparr>
           in if p_perr p then (s, LeaseErr ErrQuery)
              else case pendingState (bl_fileID (bl s)) (l_db s) of
                     (pending, earliest) \<Rightarrow>
                       if pending = 0 then (s, Drained) else (s, WaitFor (lease_wait earliest (p_now2 p)))))"

text \<open>The loop: \<open>during k\<close> is what the other workers do while round \<open>k\<close> waits, \<open>ctxErr k\<close> whether the wait ends
  with the context.\<close>

partial_function (option) Lease_loop ::
  "(nat \<Rightarrow> poll) \<Rightarrow> (nat \<Rightarrow> leaser_state \<Rightarrow> leaser_state) \<Rightarrow> (nat \<Rightarrow> bool) \<Rightarrow> int \<Rightarrow> nat \<Rightarrow> leaser_state
     \<Rightarrow> (leaser_state \<times> lease_result) option" where
  "Lease_loop ps during ctxErr fileID k s =
     (case lease_round (ps k) fileID s of
        (s, WaitFor d) \<Rightarrow>
          if ctxErr k then Some (s, LeaseErr ErrCtx)
          else Lease_loop ps during ctxErr fileID (k + 1) (during k s)
      | (s, r) \<Rightarrow> Some (s, r))"

definition Lease ::
  "(nat \<Rightarrow> poll) \<Rightarrow> (nat \<Rightarrow> leaser_state \<Rightarrow> leaser_state) \<Rightarrow> (nat \<Rightarrow> bool) \<Rightarrow> int \<Rightarrow> leaser_state
     \<Rightarrow> (leaser_state \<times> lease_result) option" where
  "Lease ps during ctxErr fileID s = Lease_loop ps during ctxErr fileID 0 s"

definition Complete :: "call_env \<Rightarrow> call_env \<Rightarrow> Block_Stream.Block \<Rightarrow> leaser_state \<Rightarrow> leaser_state \<times> leaser_error option" where
  "Complete env1 env2 b s =
     (case pop (ID b) (bl s) of
        (tok, l) \<Rightarrow>
          (let s = s\<lparr>bl := l\<rparr>
           in case storeCall env1 (CompleteBlock (ID b) tok (c_now env1)) (l_db s) of
                (db, Inl e) \<Rightarrow> (s\<lparr>l_db := db\<rparr>, Some (ErrCall e))
              | (db, Inr fileDone) \<Rightarrow>
                  (let s = s\<lparr>l_db := db, l_alloc := noteBlockDone (bl_fileID l) (Length b) (l_alloc s)\<rparr>
                   in if \<not> fileDone then (s, None)
                      else case storeCall env2 (plain (TransitionFile (bl_fileID l) (bl_fileTok l) FileDownloading
                               FileDownloaded None (c_now env2))) (l_db s) of
                             (db, Inl e) \<Rightarrow> (s\<lparr>l_db := db\<rparr>, if e = Failed ErrFenced then None else Some (ErrCall e))
                           | (db, Inr _) \<Rightarrow> (s\<lparr>l_db := db\<rparr>, None))))"

text \<open>\<open>q_fail\<close>: the requeue statement fails with a database error.\<close>

record requeue_env =
  q_root :: string
  q_now :: time
  q_cause :: string
  q_oos :: bool
  q_fail :: bool
  q_env1 :: call_env
  q_env2 :: call_env

definition give_up_error :: "int \<Rightarrow> string" where
  "give_up_error fileID = ''sched: file '' @ format_d fileID @ '': sched: block retry budget exhausted, file errored''"

definition give_up :: "requeue_env \<Rightarrow> leaser_state \<Rightarrow> leaser_state" where
  "give_up q s =
     (let i = bl_fileID (bl s);
          terr = give_up_error i;
          s = s\<lparr>bl := (bl s)\<lparr>gaveUp := True\<rparr>\<rparr>;
          s = s\<lparr>l_db := fst (storeCall (q_env1 q) (plain (TransitionFile i (bl_fileTok (bl s)) FileDownloading FileError
                  (Some (q_cause q)) (c_now (q_env1 q)))) (l_db s))\<rparr>;
          s = s\<lparr>l_db := fst (storeCall (q_env2 q)
                  (\<lambda>db. Inr (FailJobFilesForFile i (Some terr) (c_now (q_env2 q)) db, ())) (l_db s))\<rparr>
      in s\<lparr>l_errs := l_errs s @ [terr]\<rparr>)"

definition Requeue ::
  "requeue_env \<Rightarrow> duration \<Rightarrow> Block_Stream.Block \<Rightarrow> leaser_state \<Rightarrow> leaser_state \<times> leaser_error option" where
  "Requeue q backoff b s =
     (let s = s\<lparr>l_enospc := fst (noteIOError (q_root q) (q_oos q) (l_enospc s))\<rparr>
      in case pop (ID b) (bl s) of
           (tok, l) \<Rightarrow>
             (let s = s\<lparr>bl := l\<rparr>
              in if q_fail q then (s, Some ErrQuery)
                 else case RequeueBlock (ID b) tok (q_now q + backoff) (Some (q_cause q)) (q_now q) (l_db s) of
                        Inl e \<Rightarrow> (s, Some (ErrCall (Failed e)))
                      | Inr (db, retries) \<Rightarrow>
                          (let s = s\<lparr>l_db := db\<rparr>
                           in if retries < maxBlockRetries then (s, None)
                              else (give_up q s, Some ErrGiveUp))))"

text \<open>The heartbeat over a copy of the tokens; a lease that is gone is skipped.\<close>

fun renew_loop :: "time \<Rightarrow> time \<Rightarrow> (int \<times> LeaseToken) list \<Rightarrow> DB \<Rightarrow> DB" where
  "renew_loop until now [] db = db"
| "renew_loop until now ((i, tok) # ts) db =
     renew_loop until now ts
       (case RenewLease LeaseBlock i tok until now db of Inl e \<Rightarrow> db | Inr db' \<Rightarrow> db')"

definition renew :: "(int \<times> LeaseToken) list \<Rightarrow> time \<Rightarrow> time \<Rightarrow> leaser_state \<Rightarrow> leaser_state" where
  "renew order until now s =
     s\<lparr>l_db := renew_loop until now (filter (\<lambda>(i, t). tokens (bl s) i = Some t) order) (l_db s)\<rparr>"

section \<open>The contract of a block leaser\<close>

type_synonym board = "int \<rightharpoonup> BlockStatus"

inductive board_step :: "board \<Rightarrow> board \<Rightarrow> bool" where
  take_block: "bd i = Some BlockPending \<Longrightarrow> board_step bd (bd(i \<mapsto> BlockActive))"
| finish_block: "bd i = Some BlockActive \<Longrightarrow> board_step bd (bd(i \<mapsto> BlockDone))"
| put_back: "bd i = Some BlockActive \<Longrightarrow> board_step bd (bd(i \<mapsto> BlockPending))"

inductive_cases board_stepE: "board_step bd bd'"

lemma board_step_keeps:
  assumes "board_step bd bd'"
  shows "dom bd' = dom bd" "bd i = Some BlockDone \<Longrightarrow> bd' i = Some BlockDone"
  using assms by (auto elim!: board_stepE split: if_splits)

lemma board_run_keeps:
  assumes "board_step\<^sup>*\<^sup>* bd bd'"
  shows "dom bd' = dom bd \<and> (bd i = Some BlockDone \<longrightarrow> bd' i = Some BlockDone)"
  using assms
proof (induction rule: rtranclp_induct)
  case (step bd1 bd2)
  then show ?case using board_step_keeps [OF step.hyps(2)] by simp
qed simp

text \<open>
  What the downloader relies on: a leased block was pending, \<^verbatim>\<open>ok=false\<close> means that none is, and completing
  or requeueing touches the one block. An error may come before or after the block has moved.
\<close>

locale block_leaser =
  fixes board :: "'s \<Rightarrow> board" and inv :: "'s \<Rightarrow> bool"
    and lease :: "'p \<Rightarrow> 's \<Rightarrow> 's \<times> lease_result"
    and complete :: "'c \<Rightarrow> Block_Stream.Block \<Rightarrow> 's \<Rightarrow> 's \<times> leaser_error option"
    and requeue :: "'q \<Rightarrow> Block_Stream.Block \<Rightarrow> 's \<Rightarrow> 's \<times> leaser_error option"
    and heartbeat :: "'h \<Rightarrow> 's \<Rightarrow> 's"
  assumes lease_inv: "inv s \<Longrightarrow> inv (fst (lease p s))"
    and lease_block: "inv s \<Longrightarrow> lease p s = (s', Leased b) \<Longrightarrow>
      board s (ID b) = Some BlockPending \<and> board s' = (board s)(ID b \<mapsto> BlockActive)"
    and lease_none: "inv s \<Longrightarrow> lease p s = (s', r) \<Longrightarrow> (\<And>b. r \<noteq> Leased b) \<Longrightarrow> board s' = board s"
    and lease_drained: "inv s \<Longrightarrow> lease p s = (s', Drained) \<Longrightarrow> board s i \<noteq> Some BlockPending"
    and complete_inv: "inv s \<Longrightarrow> inv (fst (complete c b s))"
    and complete_block: "inv s \<Longrightarrow> complete c b s = (s', e) \<Longrightarrow>
      board s (ID b) = Some BlockActive \<and> board s' = (board s)(ID b \<mapsto> BlockDone) \<or> e \<noteq> None \<and> board s' = board s"
    and requeue_inv: "inv s \<Longrightarrow> inv (fst (requeue q b s))"
    and requeue_block: "inv s \<Longrightarrow> requeue q b s = (s', e) \<Longrightarrow>
      board s (ID b) = Some BlockActive \<and> board s' = (board s)(ID b \<mapsto> BlockPending) \<or> e \<noteq> None \<and> board s' = board s"
    and heartbeat: "inv s \<Longrightarrow> inv (heartbeat h s) \<and> board (heartbeat h s) = board s"
begin

definition call :: "'s \<Rightarrow> 's \<Rightarrow> bool" where
  "call s s' \<longleftrightarrow> (\<exists>p. s' = fst (lease p s)) \<or> (\<exists>c b. s' = fst (complete c b s)) \<or> (\<exists>q b. s' = fst (requeue q b s)) \<or>
     (\<exists>h. s' = heartbeat h s)"

lemma call_simulates:
  assumes "inv s" "call s s'"
  shows "inv s' \<and> board_step\<^sup>=\<^sup>= (board s) (board s')"
proof -
  have 1: "board_step\<^sup>=\<^sup>= (board s) (board s')" if eq: "s' = fst (lease p s)" for p
  proof -
    have l: "lease p s = (s', snd (lease p s))" using eq by simp
    show ?thesis
    proof (cases "snd (lease p s)")
      case (Leased b)
      from lease_block [OF assms(1)] l Leased show ?thesis by (auto intro: board_step.intros)
    qed (use lease_none [OF assms(1) l] in simp_all)
  qed
  have 2: "board_step\<^sup>=\<^sup>= (board s) (board s')" if "s' = fst (complete c b s)" for c b
    using complete_block [OF assms(1), of c b s' "snd (complete c b s)"] that by (auto intro: board_step.intros)
  have 3: "board_step\<^sup>=\<^sup>= (board s) (board s')" if "s' = fst (requeue q b s)" for q b
    using requeue_block [OF assms(1), of q b s' "snd (requeue q b s)"] that by (auto intro: board_step.intros)
  from assms(2) show ?thesis
    unfolding call_def
  proof (elim disjE exE)
    fix h assume "s' = heartbeat h s"
    then show ?thesis using heartbeat [OF assms(1), of h] by simp
  qed (use 1 2 3 lease_inv complete_inv requeue_inv assms(1) in blast)+
qed

lemma run_simulates: "call\<^sup>*\<^sup>* s s' \<Longrightarrow> inv s \<Longrightarrow> inv s' \<and> board_step\<^sup>*\<^sup>* (board s) (board s')"
proof (induction rule: rtranclp_induct)
  case (step t u)
  then have "inv u" "board_step\<^sup>=\<^sup>= (board t) (board u)" using call_simulates [of t u] by simp_all
  with step show ?case by (auto intro: rtranclp.rtrancl_into_rtrancl)
qed simp

text \<open>The test on which a worker leaves its loop: the leaser is dry and nothing is in flight.\<close>

lemma drained_is_finished:
  assumes "inv s" "lease p s = (s', Drained)" "\<And>i. board s i \<noteq> Some BlockActive" "board s i = Some st"
  shows "st = BlockDone"
  using lease_drained [OF assms(1,2), of i] assms(3) [of i] assms(4) by (cases st) auto

end

section \<open>The store as a board\<close>

definition store_board :: "int \<Rightarrow> DB \<Rightarrow> board" where
  "store_board fid db = map_of (map (\<lambda>b. (b_id b, b_status b)) (filter (\<lambda>b. b_file_id b = fid) (blocks db)))"

lemma store_board_iff:
  assumes "blocks_ok (blocks db)"
  shows "store_board fid db i = Some st \<longleftrightarrow> (\<exists>b \<in> set (blocks db). b_id b = i \<and> b_file_id b = fid \<and> b_status b = st)"
proof -
  have "distinct (map b_id (filter (\<lambda>b. b_file_id b = fid) (blocks db)))"
    using assms by (simp add: table_ok_def distinct_map_filter)
  then have "distinct (map fst (map (\<lambda>b. (b_id b, b_status b)) (filter (\<lambda>b. b_file_id b = fid) (blocks db))))"
    by (simp add: comp_def)
  from map_of_eq_Some_iff [OF this] show ?thesis by (auto simp: store_board_def)
qed

lemma map_eqI: "(\<And>i v. f i = Some v \<longleftrightarrow> g i = Some v) \<Longrightarrow> f = g"
  by (rule ext) (metis not_None_eq)

text \<open>A statement that moves the row of one block.\<close>

lemma store_board_update:
  assumes ok: "store_ok db" and r: "r \<in> set (blocks db)" "b_file_id r = fid"
    and P: "\<And>x. x \<in> set (blocks db) \<Longrightarrow> P x \<longleftrightarrow> x = r"
    and g: "\<And>b. b_id (g b) = b_id b" "\<And>b. b_file_id (g b) = b_file_id b" "b_status (g r) = st"
    and ok': "store_ok (db\<lparr>blocks := sql_update P g (blocks db)\<rparr>)"
  shows "store_board fid (db\<lparr>blocks := sql_update P g (blocks db)\<rparr>) = (store_board fid db)(b_id r \<mapsto> st)"
proof (rule map_eqI)
  fix i v
  note bd = store_board_iff [OF store_okD(5) [OF ok]] and bd' = store_board_iff [OF store_okD(5) [OF ok']]
  have id: "x = r" if "x \<in> set (blocks db)" "b_id x = b_id r" for x
    by (rule table_ok_unique [OF store_okD(5) [OF ok] that(1) r(1) that(2)])
  have in_upd: "y \<in> set (sql_update P g (blocks db)) \<longleftrightarrow> (\<exists>x \<in> set (blocks db). y = (if x = r then g r else x))" for y
    unfolding in_sql_update using P by auto
  show "store_board fid (db\<lparr>blocks := sql_update P g (blocks db)\<rparr>) i = Some v \<longleftrightarrow>
      ((store_board fid db)(b_id r \<mapsto> st)) i = Some v"
  proof (cases "i = b_id r")
    case True
    have "(\<exists>y \<in> set (sql_update P g (blocks db)). b_id y = i \<and> b_file_id y = fid \<and> b_status y = v) \<longleftrightarrow> st = v"
    proof
      show "\<exists>y \<in> set (sql_update P g (blocks db)). b_id y = i \<and> b_file_id y = fid \<and> b_status y = v" if "st = v"
      proof (rule bexI)
        show "g r \<in> set (sql_update P g (blocks db))" unfolding in_upd using r(1) by auto
      qed (use r g True that in simp)
    qed (use g id True in \<open>auto simp: in_upd split: if_splits\<close>)
    then show ?thesis using True by (simp add: bd')
  next
    case False
    have "(\<exists>y \<in> set (sql_update P g (blocks db)). b_id y = i \<and> b_file_id y = fid \<and> b_status y = v) \<longleftrightarrow>
        (\<exists>x \<in> set (blocks db). b_id x = i \<and> b_file_id x = fid \<and> b_status x = v)"
    proof
      assume "\<exists>y \<in> set (sql_update P g (blocks db)). b_id y = i \<and> b_file_id y = fid \<and> b_status y = v"
      then show "\<exists>x \<in> set (blocks db). b_id x = i \<and> b_file_id x = fid \<and> b_status x = v"
        using g(1) [of r] False by (auto simp: in_upd split: if_splits)
    next
      assume "\<exists>x \<in> set (blocks db). b_id x = i \<and> b_file_id x = fid \<and> b_status x = v"
      then obtain x where "x \<in> set (blocks db)" "x \<noteq> r" "b_id x = i" "b_file_id x = fid" "b_status x = v" using False by auto
      then show "\<exists>y \<in> set (sql_update P g (blocks db)). b_id y = i \<and> b_file_id y = fid \<and> b_status y = v"
        by (intro bexI [of _ x]) (auto simp: in_upd)
    qed
    then show ?thesis using False by (simp add: bd bd')
  qed
qed

lemma store_board_same: "blocks db' = blocks db \<Longrightarrow> store_board fid db' = store_board fid db"
  by (simp add: store_board_def)

text \<open>A lease this adapter could present is on a block of its own file.\<close>

definition own_tokens :: "int \<Rightarrow> (int \<rightharpoonup> LeaseToken) \<Rightarrow> DB \<Rightarrow> bool" where
  "own_tokens fid ts db \<longleftrightarrow>
     (\<forall>b \<in> set (blocks db). \<forall>t. lease_token b = Some t \<and> (t = '''' \<or> ts (b_id b) = Some t) \<longrightarrow> b_file_id b = fid)"

definition leaser_ok :: "leaser_state \<Rightarrow> bool" where
  "leaser_ok s \<longleftrightarrow> store_ok (l_db s) \<and> own_tokens (bl_fileID (bl s)) (tokens (bl s)) (l_db s)"

lemma own_tokens_fewer: "own_tokens fid ts db \<Longrightarrow> own_tokens fid (ts(i := None)) db"
  by (auto simp: own_tokens_def)

lemma own_tokens_update:
  assumes "own_tokens fid ts db" "\<And>b. b_id (g b) = b_id b \<and> b_file_id (g b) = b_file_id b"
    "\<And>b. P b \<Longrightarrow> lease_token (g b) = None \<or> lease_token (g b) = lease_token b"
  shows "own_tokens fid ts (db\<lparr>blocks := sql_update P g (blocks db)\<rparr>)"
  unfolding own_tokens_def
proof (intro ballI allI impI)
  fix y t
  assume y: "y \<in> set (blocks (db\<lparr>blocks := sql_update P g (blocks db)\<rparr>))"
    and t: "lease_token y = Some t \<and> (t = '''' \<or> ts (b_id y) = Some t)"
  then obtain x where x: "x \<in> set (blocks db)" "y = (if P x then g x else x)" by (auto simp: in_sql_update)
  have "lease_token x = Some t" using t x(2) assms(3) [of x] by (auto split: if_splits)
  moreover have "b_id y = b_id x" "b_file_id y = b_file_id x" using x(2) assms(2) [of x] by auto
  ultimately show "b_file_id y = fid" using assms(1) x(1) t by (simp add: own_tokens_def)
qed

lemma guarded_row:
  assumes "own_tokens fid ts db" "x \<in> set (blocks db)" "block_guard i (case ts i of None \<Rightarrow> '''' | Some t \<Rightarrow> t) x"
  shows "b_file_id x = fid"
  using assms by (auto simp: own_tokens_def block_guard_def split: option.splits)

lemma guard_unique:
  assumes "store_ok db" "r \<in> set (blocks db)" "block_guard i tok r" "x \<in> set (blocks db)"
  shows "block_guard i tok x \<longleftrightarrow> x = r"
  using table_ok_unique [OF store_okD(5) [OF assms(1)] assms(4,2)] assms(3) by (auto simp: block_guard_def)

lemma CompleteBlock_Inr:
  assumes "CompleteBlock i tok now db = Inr (db', d)"
  shows "db' = db\<lparr>blocks := sql_update (block_guard i tok) (\<lambda>b. (clear_lease b)\<lparr>b_status := BlockDone, updated_at := now\<rparr>) (blocks db)\<rparr>"
    "\<exists>r \<in> set (blocks db). block_guard i tok r"
proof -
  show "db' = db\<lparr>blocks := sql_update (block_guard i tok) (\<lambda>b. (clear_lease b)\<lparr>b_status := BlockDone, updated_at := now\<rparr>) (blocks db)\<rparr>"
    using assms by (auto simp: CompleteBlock_def execGuarded_def split: if_splits option.splits)
  have "sql_count (block_guard i tok) (blocks db) = 1"
    using assms by (simp add: CompleteBlock_def execGuarded_def split: if_splits)
  then show "\<exists>r \<in> set (blocks db). block_guard i tok r" by (simp flip: sql_count_pos)
qed

lemma RequeueBlock_Inr:
  assumes "RequeueBlock i tok av c now db = Inr (db', n)"
  shows "db' = db\<lparr>blocks := sql_update (block_guard i tok)
      (\<lambda>b. (clear_lease b)\<lparr>b_status := BlockPending, b_available_at := Some av, b_retries := b_retries b + 1,
         b_last_error := c, updated_at := now\<rparr>) (blocks db)\<rparr>"
    "\<exists>r \<in> set (blocks db). block_guard i tok r"
  using assms by (auto simp: RequeueBlock_def split: option.splits dest: find_SomeD)

section \<open>The laws of the adapter\<close>

lemma claim_effect:
  assumes ok: "store_ok db" and own: "own_tokens fid ts db" and row: "r \<in> set (blocks db)" "b_id r = i" "b_file_id r = fid"
    and claim: "claim_block ow tok now i db = Some (db', b)"
  shows "b_id b = i" "store_board fid db i = Some BlockPending" "store_board fid db' = (store_board fid db)(i \<mapsto> BlockActive)"
    "own_tokens fid (ts(i \<mapsto> tok)) db'"
proof -
  let ?P = "\<lambda>b. b_id b = i \<and> b_status b = BlockPending \<and> file_downloading db (b_file_id b)"
  let ?g = "\<lambda>b. (set_lease ow tok (now + leaseDuration) b)\<lparr>b_status := BlockActive, updated_at := now\<rparr>"
  from claim obtain b0 where f: "find ?P (blocks db) = Some b0" and b: "b = ?g b0"
    and db': "db' = db\<lparr>blocks := sql_update ?P ?g (blocks db)\<rparr>"
    by (auto simp: claim_block_def Let_def split: option.splits)
  have id: "x = r" if "x \<in> set (blocks db)" "b_id x = i" for x
    by (rule table_ok_unique [OF store_okD(5) [OF ok] that(1) row(1)]) (use that row in simp)
  have "b0 = r" using find_SomeD [OF f] id by blast
  then have P: "?P r" and br: "b = ?g r" using find_SomeD [OF f] b by simp_all
  have uniq: "?P x \<longleftrightarrow> x = r" if "x \<in> set (blocks db)" for x using id [OF that] P by auto
  show "b_id b = i" using row by (simp add: br set_lease_def)
  show "store_board fid db i = Some BlockPending" using row P by (auto simp: store_board_iff [OF store_okD(5) [OF ok]])
  have ok': "store_ok db'" by (rule claim_block_ok [OF ok claim])
  show "store_board fid db' = (store_board fid db)(i \<mapsto> BlockActive)"
    using store_board_update [OF ok row(1,3) uniq, of ?g BlockActive] ok' row(2)
    by (simp add: db' set_lease_def)
  show "own_tokens fid (ts(i \<mapsto> tok)) db'"
    unfolding own_tokens_def
  proof (intro ballI allI impI)
    fix y t
    assume y: "y \<in> set (blocks db')" and t: "lease_token y = Some t \<and> (t = '''' \<or> (ts(i \<mapsto> tok)) (b_id y) = Some t)"
    then obtain x where x: "x \<in> set (blocks db)" "y = (if x = r then ?g r else x)"
      using uniq by (auto simp: db' in_sql_update)
    show "b_file_id y = fid"
    proof (cases "x = r")
      case True
      then show ?thesis using x row by (simp add: set_lease_def)
    next
      case False
      then have "b_id x \<noteq> i" using id x(1) by blast
      then show ?thesis using own x t False by (simp add: own_tokens_def)
    qed
  qed
qed

lemma LeaseBlocks_one:
  assumes ok: "store_ok db" and lb: "LeaseBlocks ow toks (\<lambda>_ d. d) 1 flt now db = (db', res)"
    and nocap: "MaxPerFile flt = (\<lambda>_. None)"
  defines "cs \<equiv> lease_candidates flt now db"
  shows "if cs = [] then db' = db \<and> res = []
    else \<exists>b. claim_block ow (toks 0) now (fst (hd cs)) db = Some (db', b) \<and> res = [(b, toks 0)]"
proof (cases cs)
  case Nil
  then show ?thesis using lb by (simp add: LeaseBlocks_def cs_def)
next
  case (Cons c rest)
  obtain i fid where c: "c = (i, fid)" by force
  have full: "lease_loop ow toks (\<lambda>_ d. d) now cap 1 k xs pf [x] d = (d, [x])" for cap k xs pf x d
    by (cases xs) auto
  have "claimable db ((i, fid) # rest)" using claimable_candidates [OF ok, of flt now] Cons c by (simp add: cs_def)
  then obtain db1 b where cl: "claim_block ow (toks 0) now i db = Some (db1, b)"
    using claimable_claim [OF ok] by blast
  then have "db' = db1 \<and> res = [(b, toks 0)]"
    using lb Cons by (simp add: LeaseBlocks_def cs_def [symmetric] c nocap full [unfolded One_nat_def])
  with cl Cons c show ?thesis by simp
qed

lemma candidate_row:
  assumes "c \<in> set (lease_candidates flt now db)" "FileIDs flt = [fid]"
  shows "\<exists>r \<in> set (blocks db). b_id r = fst c \<and> b_file_id r = fid"
  using assms by (auto simp: lease_candidates_def)

text \<open>A round of \<^verbatim>\<open>Lease\<close> leases one pending block of the file, or leaves everything as it is.\<close>

lemma lease_round_cases:
  assumes ok: "leaser_ok s" and l: "lease_round p (bl_fileID (bl s)) s = (s', r)"
  obtains (leased) b where "r = Leased b" "leaser_ok s'" "bl_fileID (bl s') = bl_fileID (bl s)"
      "store_board (bl_fileID (bl s)) (l_db s) (ID b) = Some BlockPending"
      "store_board (bl_fileID (bl s)) (l_db s') = (store_board (bl_fileID (bl s)) (l_db s))(ID b \<mapsto> BlockActive)"
    | (none) "s' = s" "\<And>b. r \<noteq> Leased b" "r = Drained \<Longrightarrow> fst (pendingState (bl_fileID (bl s)) (l_db s)) = 0"
proof (cases "gaveUp (bl s) \<or> p_err p")
  case True
  then show thesis using l by (intro none) (auto simp: lease_round_def split: if_splits)
next
  case False
  let ?fid = "bl_fileID (bl s)"
  let ?flt = "\<lparr>FileIDs = [?fid], MaxPerFile = (\<lambda>_. None)\<rparr>"
  let ?cs = "lease_candidates ?flt (p_now p) (l_db s)"
  have sok: "store_ok (l_db s)" and own: "own_tokens ?fid (tokens (bl s)) (l_db s)" using ok by (simp_all add: leaser_ok_def)
  obtain db res where lb: "LeaseBlocks (p_owner p) (p_toks p) (\<lambda>_ d. d) 1 ?flt (p_now p) (l_db s) = (db, res)" by force
  note one = LeaseBlocks_one [OF sok lb, simplified]
  show thesis
  proof (cases "?cs = []")
    case True
    then have "db = l_db s" "res = []" using one by simp_all
    then have "s' = s \<and> (\<forall>b. r \<noteq> Leased b) \<and> (r = Drained \<longrightarrow> fst (pendingState ?fid (l_db s)) = 0)"
      using l False lb by (auto simp: lease_round_def split: prod.splits if_splits)
    then show thesis by (intro none) auto
  next
    case nonempty: False
    then obtain b where cl: "claim_block (p_owner p) (p_toks p 0) (p_now p) (fst (hd ?cs)) (l_db s) = Some (db, b)"
      and res: "res = [(b, p_toks p 0)]" using one by auto
    obtain row where row: "row \<in> set (blocks (l_db s))" "b_id row = fst (hd ?cs)" "b_file_id row = ?fid"
      using candidate_row [OF hd_in_set [OF nonempty], of ?fid] by auto
    note eff = claim_effect [OF sok own row cl]
    have s': "s' = s\<lparr>l_db := db, bl := (bl s)\<lparr>tokens := (tokens (bl s))(b_id b \<mapsto> p_toks p 0)\<rparr>\<rparr>"
      and r: "r = Leased \<lparr>ID = b_id b, Idx = b_idx b, Offset = b_offset b, Length = b_length b\<rparr>"
      using l False lb by (auto simp: lease_round_def res)
    show thesis
      by (rule leased [OF r]) (use eff claim_block_ok [OF sok cl] in \<open>simp_all add: s' leaser_ok_def\<close>)
  qed
qed

lemma pending_none:
  assumes "store_ok db" "fst (pendingState fid db) = 0"
  shows "store_board fid db i \<noteq> Some BlockPending"
proof
  assume "store_board fid db i = Some BlockPending"
  then obtain b where "b \<in> set (blocks db)" "b_file_id b = fid" "b_status b = BlockPending"
    by (auto simp: store_board_iff [OF store_okD(5) [OF assms(1)]])
  then show False using assms(2) by (auto simp: pendingState_def Let_def filter_empty_conv)
qed

text \<open>The effect of a guarded statement under the token the adapter holds.\<close>

lemma guarded_effect:
  assumes ok: "store_ok db" and own: "own_tokens fid ts db" and r: "r \<in> set (blocks db)" "block_guard i tok r"
    and tok: "tok = (case ts i of None \<Rightarrow> '''' | Some t \<Rightarrow> t)"
    and g: "\<And>b. b_id (g b) = b_id b \<and> b_file_id (g b) = b_file_id b \<and> lease_token (g b) = None" "\<And>b. b_status (g b) = st"
    and ok': "store_ok (db\<lparr>blocks := sql_update (block_guard i tok) g (blocks db)\<rparr>)"
  shows "store_board fid db i = Some BlockActive"
    "store_board fid (db\<lparr>blocks := sql_update (block_guard i tok) g (blocks db)\<rparr>) = (store_board fid db)(i \<mapsto> st)"
    "own_tokens fid (ts(i := None)) (db\<lparr>blocks := sql_update (block_guard i tok) g (blocks db)\<rparr>)"
proof -
  have own_file: "b_file_id r = fid" using guarded_row [OF own r(1), of i] r(2) by (simp add: tok)
  have id: "b_id r = i" "b_status r = BlockActive" using r(2) by (simp_all add: block_guard_def)
  show "store_board fid db i = Some BlockActive"
    using r(1) own_file id by (auto simp: store_board_iff [OF store_okD(5) [OF ok]])
  show "store_board fid (db\<lparr>blocks := sql_update (block_guard i tok) g (blocks db)\<rparr>) = (store_board fid db)(i \<mapsto> st)"
    using store_board_update [OF ok r(1) own_file guard_unique [OF ok r], of g st] g ok' id(1) by simp
  show "own_tokens fid (ts(i := None)) (db\<lparr>blocks := sql_update (block_guard i tok) g (blocks db)\<rparr>)"
    by (rule own_tokens_update [OF own_tokens_fewer [OF own]]) (use g(1) in auto)
qed

lemma Transition_blocks: "TransitionFile i tok frm to c now db = Inr db' \<Longrightarrow> blocks db' = blocks db"
  using TransitionFile_Inr(1) [of i tok frm to c now db db'] by (auto simp: update_file_def split: sum.splits)

lemma own_tokens_same: "blocks db' = blocks db \<Longrightarrow> own_tokens fid ts db' = own_tokens fid ts db"
  by (simp add: own_tokens_def)

lemma transition_call:
  assumes "store_ok db" "storeCall env (plain (TransitionFile i tok FileDownloading to c now)) db = (db', x)"
    "to = FileDownloaded \<or> to = FileError"
  shows "store_ok db' \<and> blocks db' = blocks db"
proof (cases x)
  case (Inl e)
  then show ?thesis using assms storeCall_Inl by metis
next
  case (Inr u)
  then have t: "TransitionFile i tok FileDownloading to c now db = Inr db'"
    using storeCall_Inr [OF assms(2) [unfolded Inr]] by (simp add: plain_Inr)
  have "driven_edge FileDownloading to" using assms(3) by (auto simp: driven_edge_def)
  then show ?thesis using TransitionFile_ok [OF assms(1) t] Transition_blocks [OF t] by simp
qed

abbreviation the_board :: "leaser_state \<Rightarrow> board" where
  "the_board s \<equiv> store_board (bl_fileID (bl s)) (l_db s)"

lemma Complete_effect:
  assumes ok: "leaser_ok s" and c: "Complete env1 env2 b s = (s', e)"
  shows "leaser_ok s'" "bl_fileID (bl s') = bl_fileID (bl s)"
    "the_board s (ID b) = Some BlockActive \<and> the_board s' = (the_board s)(ID b \<mapsto> BlockDone) \<or> e \<noteq> None \<and> the_board s' = the_board s"
proof -
  let ?fid = "bl_fileID (bl s)" and ?l = "(bl s)\<lparr>tokens := (tokens (bl s))(ID b := None)\<rparr>"
  define tok where "tok = (case tokens (bl s) (ID b) of None \<Rightarrow> '''' | Some t \<Rightarrow> t)"
  have pop: "pop (ID b) (bl s) = (tok, ?l)" by (simp add: pop_def tok_def)
  have sok: "store_ok (l_db s)" and own: "own_tokens ?fid (tokens (bl s)) (l_db s)" using ok by (simp_all add: leaser_ok_def)
  obtain db1 x where s1: "storeCall env1 (CompleteBlock (ID b) tok (c_now env1)) (l_db s) = (db1, x)" by force
  have "leaser_ok s' \<and> bl_fileID (bl s') = ?fid \<and>
    (the_board s (ID b) = Some BlockActive \<and> the_board s' = (the_board s)(ID b \<mapsto> BlockDone) \<or> e \<noteq> None \<and> the_board s' = the_board s)"
  proof (cases x)
    case (Inl err)
    then have "db1 = l_db s" using s1 storeCall_Inl by metis
    then show ?thesis
      using c s1 Inl own_tokens_fewer [OF own] sok by (auto simp: Complete_def pop leaser_ok_def)
  next
    case (Inr last)
    have cb: "CompleteBlock (ID b) tok (c_now env1) (l_db s) = Inr (db1, last)" using s1 Inr storeCall_Inr by metis
    obtain r where r: "r \<in> set (blocks (l_db s))" "block_guard (ID b) tok r" using CompleteBlock_Inr(2) [OF cb] by blast
    note db1 = CompleteBlock_Inr(1) [OF cb]
    have ok1: "store_ok db1" by (rule CompleteBlock_ok [OF sok cb])
    have eff: "the_board s (ID b) = Some BlockActive" "store_board ?fid db1 = (the_board s)(ID b \<mapsto> BlockDone)"
      "own_tokens ?fid ((tokens (bl s))(ID b := None)) db1"
      using guarded_effect [OF sok own r tok_def, of "\<lambda>b. (clear_lease b)\<lparr>b_status := BlockDone, updated_at := c_now env1\<rparr>" BlockDone]
        ok1 unfolding db1 by (simp_all add: clear_lease_def)
    let ?s1 = "s\<lparr>bl := ?l, l_db := db1, l_alloc := noteBlockDone ?fid (Length b) (l_alloc s)\<rparr>"
    show ?thesis
    proof (cases last)
      case False
      then show ?thesis using c s1 Inr eff ok1 by (auto simp: Complete_def pop leaser_ok_def)
    next
      case True
      obtain db2 y where s2: "storeCall env2 (plain (TransitionFile ?fid (bl_fileTok (bl s)) FileDownloading FileDownloaded
          None (c_now env2))) db1 = (db2, y)" by force
      have db2: "store_ok db2" "blocks db2 = blocks db1" using transition_call [OF ok1 s2] by simp_all
      have "l_db s' = db2" "bl s' = ?l" using c s1 s2 Inr True by (auto simp: Complete_def pop Let_def split: sum.splits)
      then show ?thesis
        using eff db2 store_board_same [OF db2(2), of ?fid] own_tokens_same [OF db2(2)] by (simp add: leaser_ok_def)
    qed
  qed
  then show "leaser_ok s'" "bl_fileID (bl s') = bl_fileID (bl s)"
    "the_board s (ID b) = Some BlockActive \<and> the_board s' = (the_board s)(ID b \<mapsto> BlockDone) \<or> e \<noteq> None \<and> the_board s' = the_board s"
    by blast+
qed

lemma give_up_effect:
  assumes "leaser_ok s"
  shows "leaser_ok (give_up q s)" "bl_fileID (bl (give_up q s)) = bl_fileID (bl s)" "the_board (give_up q s) = the_board s"
    "gaveUp (bl (give_up q s))"
proof -
  define i where "i = bl_fileID (bl s)"
  obtain db1 x where 1: "storeCall (q_env1 q) (plain (TransitionFile i (bl_fileTok (bl s)) FileDownloading FileError
      (Some (q_cause q)) (c_now (q_env1 q)))) (l_db s) = (db1, x)" by force
  have db1: "store_ok db1" "blocks db1 = blocks (l_db s)"
    using transition_call [OF _ 1] assms by (simp_all add: leaser_ok_def)
  define f where "f = (\<lambda>db. Inr (FailJobFilesForFile i (Some (give_up_error i)) (c_now (q_env2 q)) db, ())
    :: store_error + (DB \<times> unit))"
  obtain db2 y where 2: "storeCall (q_env2 q) f db1 = (db2, y)" by force
  have "db2 = db1 \<or> f db1 = Inr (db2, ())" using storeCall_cases [OF 2] by (auto split: sum.splits call_error.splits)
  then have db2: "store_ok db2" "blocks db2 = blocks db1"
    using db1(1) FailJobFilesForFile_ok [OF db1(1)] by (auto simp: f_def FailJobFilesForFile_def Let_def)
  have "l_db (give_up q s) = db2" "bl (give_up q s) = (bl s)\<lparr>gaveUp := True\<rparr>"
    using 1 2 by (simp_all add: give_up_def Let_def i_def f_def)
  then show "leaser_ok (give_up q s)" "bl_fileID (bl (give_up q s)) = bl_fileID (bl s)" "the_board (give_up q s) = the_board s"
    "gaveUp (bl (give_up q s))"
    using assms db1 db2 store_board_same [of db2 "l_db s"] own_tokens_same [of db2 "l_db s"] by (simp_all add: leaser_ok_def)
qed

lemma Requeue_effect:
  assumes ok: "leaser_ok s" and c: "Requeue q backoff b s = (s', e)"
  shows "leaser_ok s'" "bl_fileID (bl s') = bl_fileID (bl s)"
    "the_board s (ID b) = Some BlockActive \<and> the_board s' = (the_board s)(ID b \<mapsto> BlockPending) \<or> e \<noteq> None \<and> the_board s' = the_board s"
proof -
  let ?fid = "bl_fileID (bl s)" and ?l = "(bl s)\<lparr>tokens := (tokens (bl s))(ID b := None)\<rparr>"
  define tok where "tok = (case tokens (bl s) (ID b) of None \<Rightarrow> '''' | Some t \<Rightarrow> t)"
  define s0 where "s0 = s\<lparr>l_enospc := fst (noteIOError (q_root q) (q_oos q) (l_enospc s)), bl := ?l\<rparr>"
  have c': "(if q_fail q then (s0, Some ErrQuery)
      else case RequeueBlock (ID b) tok (q_now q + backoff) (Some (q_cause q)) (q_now q) (l_db s) of
             Inl e \<Rightarrow> (s0, Some (ErrCall (Failed e)))
           | Inr (db, retries) \<Rightarrow> if retries < maxBlockRetries then (s0\<lparr>l_db := db\<rparr>, None)
               else (give_up q (s0\<lparr>l_db := db\<rparr>), Some ErrGiveUp)) = (s', e)"
    using c by (simp add: Requeue_def pop_def tok_def s0_def Let_def cong: if_cong sum.case_cong prod.case_cong)
  have sok: "store_ok (l_db s)" and own: "own_tokens ?fid (tokens (bl s)) (l_db s)" using ok by (simp_all add: leaser_ok_def)
  have s0: "leaser_ok s0" "the_board s0 = the_board s" "bl_fileID (bl s0) = ?fid"
    using sok own_tokens_fewer [OF own] by (simp_all add: leaser_ok_def s0_def)
  have "leaser_ok s' \<and> bl_fileID (bl s') = ?fid \<and>
    (the_board s (ID b) = Some BlockActive \<and> the_board s' = (the_board s)(ID b \<mapsto> BlockPending) \<or> e \<noteq> None \<and> the_board s' = the_board s)"
  proof (cases "q_fail q \<or> (\<exists>x. RequeueBlock (ID b) tok (q_now q + backoff) (Some (q_cause q)) (q_now q) (l_db s) = Inl x)")
    case True
    then have "s' = s0" "e \<noteq> None" using c' by (auto split: if_splits)
    with s0 show ?thesis by simp
  next
    case False
    then obtain db n where rq: "RequeueBlock (ID b) tok (q_now q + backoff) (Some (q_cause q)) (q_now q) (l_db s) = Inr (db, n)"
      by (metis prod.exhaust sum.exhaust)
    obtain r where r: "r \<in> set (blocks (l_db s))" "block_guard (ID b) tok r" using RequeueBlock_Inr(2) [OF rq] by blast
    note db = RequeueBlock_Inr(1) [OF rq]
    have okdb: "store_ok db" by (rule RequeueBlock_ok [OF sok rq])
    have eff: "the_board s (ID b) = Some BlockActive" "store_board ?fid db = (the_board s)(ID b \<mapsto> BlockPending)"
      "own_tokens ?fid ((tokens (bl s))(ID b := None)) db"
      using guarded_effect [OF sok own r tok_def, of "\<lambda>b. (clear_lease b)\<lparr>b_status := BlockPending,
          b_available_at := Some (q_now q + backoff), b_retries := b_retries b + 1, b_last_error := Some (q_cause q),
          updated_at := q_now q\<rparr>" BlockPending] okdb
      unfolding db by (simp_all add: clear_lease_def)
    have s1: "leaser_ok (s0\<lparr>l_db := db\<rparr>)" "the_board (s0\<lparr>l_db := db\<rparr>) = (the_board s)(ID b \<mapsto> BlockPending)"
      "bl_fileID (bl (s0\<lparr>l_db := db\<rparr>)) = ?fid"
      using okdb eff by (simp_all add: leaser_ok_def s0_def)
    have "s' = s0\<lparr>l_db := db\<rparr> \<or> s' = give_up q (s0\<lparr>l_db := db\<rparr>)" using c' False rq by (auto split: if_splits)
    then show ?thesis using s1 eff(1) give_up_effect(1-3) [OF s1(1), of q] by auto
  qed
  then show "leaser_ok s'" "bl_fileID (bl s') = bl_fileID (bl s)"
    "the_board s (ID b) = Some BlockActive \<and> the_board s' = (the_board s)(ID b \<mapsto> BlockPending) \<or> e \<noteq> None \<and> the_board s' = the_board s"
    by blast+
qed

lemma store_board_quiet:
  assumes "\<And>b. P b \<Longrightarrow> b_id (g b) = b_id b \<and> b_file_id (g b) = b_file_id b \<and> b_status (g b) = b_status b"
  shows "store_board fid (db\<lparr>blocks := sql_update P g (blocks db)\<rparr>) = store_board fid db"
proof -
  have "map (\<lambda>b. (b_id b, b_status b)) (filter (\<lambda>b. b_file_id b = fid) (sql_update P g t)) =
      map (\<lambda>b. (b_id b, b_status b)) (filter (\<lambda>b. b_file_id b = fid) t)" for t
    using assms by (induction t) (auto simp: sql_update_def)
  then show ?thesis by (simp add: store_board_def)
qed

lemma renew_loop_effect:
  "store_ok db \<Longrightarrow> own_tokens fid ts db \<Longrightarrow>
     store_ok (renew_loop until now xs db) \<and> own_tokens fid ts (renew_loop until now xs db) \<and>
     store_board fid (renew_loop until now xs db) = store_board fid db"
proof (induction until now xs db rule: renew_loop.induct)
  case (2 until now i tok xs db)
  let ?r = "RenewLease LeaseBlock i tok until now db"
  have "store_ok (case ?r of Inl e \<Rightarrow> db | Inr db' \<Rightarrow> db') \<and> own_tokens fid ts (case ?r of Inl e \<Rightarrow> db | Inr db' \<Rightarrow> db') \<and>
      store_board fid (case ?r of Inl e \<Rightarrow> db | Inr db' \<Rightarrow> db') = store_board fid db"
  proof (cases ?r)
    case (Inl e)
    with "2.prems" show ?thesis by simp
  next
    case (Inr db')
    let ?P = "\<lambda>b. renew_guard i tok now b_id b \<and> b_status b = BlockActive"
    have db': "db' = db\<lparr>blocks := sql_update ?P (renew_set until now) (blocks db)\<rparr>"
      using Inr by (auto simp: execGuarded_def split: if_splits)
    have "own_tokens fid ts db'" unfolding db' by (rule own_tokens_update [OF "2.prems"(2)]) (simp_all add: renew_set_def)
    moreover have "store_board fid db' = store_board fid db" unfolding db' by (rule store_board_quiet) (simp add: renew_set_def)
    ultimately show ?thesis using RenewLease_ok [OF "2.prems"(1) Inr] Inr by simp
  qed
  with "2.IH" show ?case by simp
qed simp

interpretation adapter: block_leaser the_board leaser_ok
  "\<lambda>p s. lease_round p (bl_fileID (bl s)) s"
  "\<lambda>(env1, env2) b s. Complete env1 env2 b s"
  "\<lambda>(q, backoff) b s. Requeue q backoff b s"
  "\<lambda>(order, until, now) s. renew order until now s"
proof (unfold_locales, goal_cases)
  case (1 s p)
  then show ?case
    by (rule lease_round_cases [where p = p and s' = "fst (lease_round p (bl_fileID (bl s)) s)" and
          r = "snd (lease_round p (bl_fileID (bl s)) s)"]) (use 1 in auto)
next
  case (2 s p s' b)
  from 2(1,2) show ?case by (rule lease_round_cases) auto
next
  case (3 s p s' r)
  from 3(1,2) show ?case by (rule lease_round_cases) (use 3(3) in auto)
next
  case (4 s p s' i)
  from 4(1,2) show ?case by (rule lease_round_cases) (use 4(1) pending_none in \<open>auto simp: leaser_ok_def\<close>)
next
  case (5 s c b)
  then show ?case using Complete_effect(1) by (cases c) (metis (no_types, lifting) case_prod_conv prod.collapse)
next
  case (6 s c b s' e)
  then show ?case using Complete_effect(3) [OF 6(1)] by (cases c) simp
next
  case (7 s q b)
  then show ?case using Requeue_effect(1) by (cases q) (metis (no_types, lifting) case_prod_conv prod.collapse)
next
  case (8 s q b s' e)
  then show ?case using Requeue_effect(3) [OF 8(1)] by (cases q) simp
next
  case (9 s h)
  obtain order until now where h: "h = (order, until, now)" by (cases h)
  show ?case
    using renew_loop_effect [of "l_db s" "bl_fileID (bl s)" "tokens (bl s)" until now
        "filter (\<lambda>(i, t). tokens (bl s) i = Some t) order"] 9
    by (simp add: renew_def leaser_ok_def h)
qed

section \<open>Waiting out a backoff\<close>

lemma round_leases:
  assumes ok: "store_ok (l_db s)" and g: "\<not> gaveUp (bl s)" "\<not> p_err p"
    and b: "b \<in> set (blocks (l_db s))" "b_file_id b = fid" "b_status b = BlockPending" "file_downloading (l_db s) fid"
    and av: "case b_available_at b of None \<Rightarrow> True | Some a \<Rightarrow> a \<le> p_now p"
  shows "\<exists>s' x. lease_round p fid s = (s', Leased x)"
proof -
  let ?flt = "\<lparr>FileIDs = [fid], MaxPerFile = (\<lambda>_. None)\<rparr>"
  have "(b_id b, b_file_id b) \<in> set (lease_candidates ?flt (p_now p) (l_db s))"
    using b av by (auto simp: lease_candidates_def)
  then have ne: "lease_candidates ?flt (p_now p) (l_db s) \<noteq> []" by auto
  obtain db res where lb: "LeaseBlocks (p_owner p) (p_toks p) (\<lambda>_ d. d) 1 ?flt (p_now p) (l_db s) = (db, res)" by force
  obtain x where "res = [(x, p_toks p 0)]" using LeaseBlocks_one [OF ok lb, simplified] ne by auto
  then show ?thesis using g lb by (simp add: lease_round_def)
qed

lemma earliest_attained:
  assumes "b \<in> set (blocks db)" "b_file_id b = fid" "b_status b = BlockPending" "b_available_at b = Some a"
  shows "\<exists>e. snd (pendingState fid db) = Some e \<and>
    (\<exists>c \<in> set (blocks db). b_file_id c = fid \<and> b_status c = BlockPending \<and> b_available_at c = Some e)"
proof -
  let ?ts = "List.map_filter b_available_at (filter (\<lambda>b. b_file_id b = fid \<and> b_status b = BlockPending) (blocks db))"
  have mem: "t \<in> set ?ts \<longleftrightarrow> (\<exists>c \<in> set (blocks db). b_file_id c = fid \<and> b_status c = BlockPending \<and> b_available_at c = Some t)" for t
    by (force simp: map_filter_def)
  have ne: "?ts \<noteq> []" using assms mem [of a] by fastforce
  have "foldr min xs x \<in> set (x # xs)" for x :: int and xs by (induction xs) (auto simp: min_def)
  from this [of "tl ?ts" "hd ?ts"] ne have "foldr min (tl ?ts) (hd ?ts) \<in> set ?ts" by simp
  with ne mem show ?thesis by (simp add: pendingState_def Let_def)
qed

lemma round_waits:
  assumes ok: "leaser_ok s" and fid: "fid = bl_fileID (bl s)" and g: "\<not> gaveUp (bl s)" "\<not> p_err p" "\<not> p_perr p"
    and b: "b \<in> set (blocks (l_db s))" "b_file_id b = fid" "b_status b = BlockPending"
    and l: "\<And>s' x. lease_round p fid s \<noteq> (s', Leased x)"
  shows "lease_round p fid s = (s, WaitFor (lease_wait (snd (pendingState fid (l_db s))) (p_now2 p)))"
proof -
  let ?flt = "\<lparr>FileIDs = [fid], MaxPerFile = (\<lambda>_. None)\<rparr>"
  obtain db res where lb: "LeaseBlocks (p_owner p) (p_toks p) (\<lambda>_ d. d) 1 ?flt (p_now p) (l_db s) = (db, res)" by force
  have sok: "store_ok (l_db s)" using ok by (simp add: leaser_ok_def)
  have "res = []"
  proof (cases res)
    case (Cons x xs)
    then have "\<exists>s' y. lease_round p fid s = (s', Leased y)" using lb g by (cases x) (simp add: lease_round_def)
    then show ?thesis using l by blast
  qed
  then have db: "db = l_db s" using LeaseBlocks_one [OF sok lb, simplified] by (auto split: if_splits)
  obtain n e where pe: "pendingState fid (l_db s) = (n, e)" by force
  have "n \<noteq> 0" using b pe by (auto simp: pendingState_def Let_def filter_empty_conv)
  then show ?thesis using g lb \<open>res = []\<close> db pe fid by (simp add: lease_round_def)
qed

lemma Lease_loop_returns:
  assumes ok: "leaser_ok s" and fid: "fid = bl_fileID (bl s)" and g: "\<not> gaveUp (bl s)" "file_downloading (l_db s) fid"
    and b: "b \<in> set (blocks (l_db s))" "b_file_id b = fid" "b_status b = BlockPending"
    and env: "\<And>k. \<not> p_err (ps k) \<and> \<not> p_perr (ps k) \<and> \<not> ctxErr k"
    and clock: "\<And>k. p_now (ps k) \<le> p_now2 (ps k) \<and>
      p_now2 (ps k) + lease_wait (snd (pendingState fid (l_db s))) (p_now2 (ps k)) \<le> p_now (ps (k + 1))"
  shows "\<exists>s' x. Lease_loop ps (\<lambda>_ s. s) ctxErr fid k s = Some (s', Leased x)"
proof (induction "nat (the (snd (pendingState fid (l_db s))) - p_now (ps k))" arbitrary: k rule: less_induct)
  case less
  let ?e = "snd (pendingState fid (l_db s))"
  have sok: "store_ok (l_db s)" using ok by (simp add: leaser_ok_def)
  show ?case
  proof (cases "\<exists>s' x. lease_round (ps k) fid s = (s', Leased x)")
    case True
    then show ?thesis by (auto simp: Lease_loop.simps [where k = k])
  next
    case False
    then have wait: "lease_round (ps k) fid s = (s, WaitFor (lease_wait ?e (p_now2 (ps k))))"
      using round_waits [OF ok fid g(1) _ _ b, of "ps k"] env [of k] by blast
    have step: "Lease_loop ps (\<lambda>_ s. s) ctxErr fid k s = Lease_loop ps (\<lambda>_ s. s) ctxErr fid (k + 1) s"
      using wait env [of k] by (simp add: Lease_loop.simps [where k = k])
    have late: "\<exists>a. b_available_at c = Some a \<and> p_now (ps k) < a"
      if "c \<in> set (blocks (l_db s))" "b_file_id c = fid" "b_status c = BlockPending" for c
    proof (rule ccontr)
      assume "\<not> ?thesis"
      then have "case b_available_at c of None \<Rightarrow> True | Some a \<Rightarrow> a \<le> p_now (ps k)" by (cases "b_available_at c") auto
      then show False using round_leases [OF sok g(1) _ that g(2), of "ps k"] env [of k] False by blast
    qed
    from late [OF b] obtain a where "b_available_at b = Some a" by blast
    from earliest_attained [OF b this] obtain e c where e: "?e = Some e" and c: "c \<in> set (blocks (l_db s))" "b_file_id c = fid"
      "b_status c = BlockPending" "b_available_at c = Some e" by blast
    have "p_now (ps k) < e" using late [OF c(1-3)] c(4) by simp
    moreover have "p_now (ps k) < p_now (ps (k + 1)) \<or> e \<le> p_now (ps (k + 1))"
      using clock [of k] by (auto simp: e lease_wait_def Let_def maxLeaseWait_def second_def split: if_splits)
    ultimately have "nat (the ?e - p_now (ps (k + 1))) < nat (the ?e - p_now (ps k))" by (auto simp: e)
    from less.hyps [OF this] step show ?thesis by simp
  qed
qed

section \<open>Properties\<close>

text \<open>A step is one call of the adapter, with any block as its argument: workers interleave.\<close>

inductive leaser_step :: "leaser_state \<Rightarrow> leaser_state \<Rightarrow> bool" where
  step_lease: "lease_round p (bl_fileID (bl s)) s = (s', r) \<Longrightarrow> leaser_step s s'"
| step_complete: "Complete env1 env2 b s = (s', e) \<Longrightarrow> leaser_step s s'"
| step_requeue: "Requeue q backoff b s = (s', e) \<Longrightarrow> leaser_step s s'"
| step_renew: "renew order until now s = s' \<Longrightarrow> leaser_step s s'"

lemma leaser_step_call:
  assumes "leaser_step s s'"
  shows "adapter.call s s'"
  using assms
proof cases
  case (step_lease p r)
  then have "s' = fst (lease_round p (bl_fileID (bl s)) s)" by simp
  then show ?thesis unfolding adapter.call_def by blast
next
  case (step_complete env1 env2 b e)
  then have "s' = fst (case (env1, env2) of (env1, env2) \<Rightarrow> Complete env1 env2 b s)" by simp
  then show ?thesis unfolding adapter.call_def split_beta by blast
next
  case (step_requeue q backoff b e)
  then have "s' = fst (case (q, backoff) of (q, backoff) \<Rightarrow> Requeue q backoff b s)" by simp
  then show ?thesis unfolding adapter.call_def split_beta by blast
next
  case (step_renew order until now)
  then have "s' = (case (order, until, now) of (order, until, now) \<Rightarrow> renew order until now s)" by simp
  then show ?thesis unfolding adapter.call_def split_beta by blast
qed

lemma leaser_run_call: "leaser_step\<^sup>*\<^sup>* s s' \<Longrightarrow> adapter.call\<^sup>*\<^sup>* s s'"
  by (rule predicate2D [OF rtranclp_mono [OF predicate2I [OF leaser_step_call]]])

definition demo_leaser :: "Store_Model.Block list \<Rightarrow> leaser_state" where
  "demo_leaser bs = \<lparr>bl = newBlockLeaser 1 ''t'', l_db = demo_db (demo_file FileDownloading (Some ''t'')) bs,
     l_alloc = new_alloc 8, l_enospc = \<lparr>e_on = False, e_demand = 0, e_dir = '''', e_backoff = second, watchers = 0\<rparr>,
     l_errs = []\<rparr>"

lemma demo_leaser_ok: "leaser_ok (demo_leaser [demo_block 1 BlockDone None, demo_block 2 BlockPending None])"
  using demo_ok(1) by (auto simp: leaser_ok_def demo_leaser_def own_tokens_def newBlockLeaser_def demo_defs)

text \<open>C6: The adapter implements the contract of a block leaser. Whatever sequence of lease rounds, completions, requeues
  and heartbeats the workers issue, with whatever blocks, clocks and database failures, what happens to the blocks
  of the file is a run of the abstract board, on which a block goes from pending to active and from active to done or
  back; the set of blocks never changes, and a done block stays done.\<close>

theorem leaser_refines_board:
  assumes "leaser_ok s" "leaser_step\<^sup>*\<^sup>* s s'"
  defines "bd \<equiv> store_board (bl_fileID (bl s)) (l_db s)" and "bd' \<equiv> store_board (bl_fileID (bl s')) (l_db s')"
  shows "leaser_ok s' \<and> board_step\<^sup>*\<^sup>* bd bd' \<and> dom bd' = dom bd \<and> (\<forall>i. bd i = Some BlockDone \<longrightarrow> bd' i = Some BlockDone)"
  using adapter.run_simulates [OF leaser_run_call [OF assms(2)] assms(1)] board_run_keeps [of bd bd']
  by (simp add: bd_def bd'_def)

definition demo_poll :: "time \<Rightarrow> poll" where
  "demo_poll now = \<lparr>p_owner = ''me'', p_toks = (\<lambda>_. ''k''), p_now = now, p_now2 = now, p_err = False, p_perr = False\<rparr>"

theorem leaser_refines_board_witness:
  "let s = demo_leaser [demo_block 1 BlockDone None, demo_block 2 BlockPending None];
       s' = fst (lease_round (demo_poll 7) 1 s)
   in map b_status (blocks (l_db s')) = [BlockDone, BlockActive] \<and>
      board_step\<^sup>*\<^sup>* (store_board 1 (l_db s)) (store_board 1 (l_db s'))"
proof -
  let ?s = "demo_leaser [demo_block 1 BlockDone None, demo_block 2 BlockPending None]"
  let ?s' = "fst (lease_round (demo_poll 7) 1 ?s)"
  have run: "map b_status (blocks (l_db ?s')) = [BlockDone, BlockActive] \<and> bl_fileID (bl ?s') = 1 \<and> bl_fileID (bl ?s) = 1"
    by code_simp
  have "leaser_step ?s ?s'"
    using leaser_step.step_lease [of "demo_poll 7" ?s ?s' "snd (lease_round (demo_poll 7) 1 ?s)"] run by simp
  then show ?thesis using leaser_refines_board [OF demo_leaser_ok r_into_rtranclp, of ?s'] run by (simp add: Let_def)
qed

text \<open>C20: When \<^verbatim>\<open>Lease\<close> reports that there is no work and no block of the file is active, then every block of the
  file is done: a worker that leaves its loop on this test leaves nothing behind, whatever calls came before.\<close>

theorem drained_means_finished:
  assumes "leaser_ok s" "leaser_step\<^sup>*\<^sup>* s s'" "lease_round p (bl_fileID (bl s')) s' = (s'', Drained)"
    and "\<forall>b \<in> set (blocks (l_db s')). b_file_id b = bl_fileID (bl s') \<longrightarrow> b_status b \<noteq> BlockActive"
    and "b \<in> set (blocks (l_db s'))" "b_file_id b = bl_fileID (bl s')"
  shows "b_status b = BlockDone"
proof -
  have ok: "leaser_ok s'" using adapter.run_simulates [OF leaser_run_call [OF assms(2)] assms(1)] by simp
  then have bd: "store_board fid (l_db s') i = Some st \<longleftrightarrow>
      (\<exists>b \<in> set (blocks (l_db s')). b_id b = i \<and> b_file_id b = fid \<and> b_status b = st)" for fid i st
    by (intro store_board_iff store_okD(5)) (simp add: leaser_ok_def)
  show ?thesis
    by (rule adapter.drained_is_finished [OF ok assms(3), of "b_id b"]) (use assms(4-6) in \<open>auto simp: bd\<close>)
qed

theorem drained_means_finished_witness:
  "let s = demo_leaser [demo_block 1 BlockDone None]
   in snd (lease_round (demo_poll 7) 1 s) = Drained \<and> b_status (blocks (l_db s) ! 0) = BlockDone"
proof -
  let ?s = "demo_leaser [demo_block 1 BlockDone None]"
  have ok: "leaser_ok ?s"
    by (auto simp: leaser_ok_def demo_leaser_def own_tokens_def newBlockLeaser_def store_ok_def table_ok_def demo_defs
        row_ok_defs key_defs maxVerifyFails_def)
  have run: "snd (lease_round (demo_poll 7) 1 ?s) = Drained \<and> bl_fileID (bl ?s) = 1 \<and> length (blocks (l_db ?s)) = 1 \<and>
      map b_file_id (blocks (l_db ?s)) = [1] \<and> map b_status (blocks (l_db ?s)) = [BlockDone]" by code_simp
  have "b_status (blocks (l_db ?s) ! 0) = BlockDone"
    by (rule drained_means_finished [OF ok rtranclp.rtrancl_refl, of "demo_poll 7" "fst (lease_round (demo_poll 7) 1 ?s)"])
      (use run in \<open>auto simp: demo_leaser_def demo_db_def demo_block_def new_block_def newBlockLeaser_def prod_eq_iff\<close>)
  with run show ?thesis by (simp add: Let_def)
qed



end
