(* ===== verification/Throttle.thy ===== *)
theory Throttle
  imports Prelude
begin

text \<open>
  \<^verbatim>\<open>pkg/throttle\<close>: the ring of per-second counters, the token bucket, the paced reads of a response body, and the
  limiter of the disk's active time. The clock, the context and what other goroutines do to a bucket while
  its lock is free are arguments; clock readings are after 1970.
\<close>

section \<open>Windowed counters\<close>

text \<open>
  What a windowed counter promises: with a clock that never goes back, a reading is the sum of what was
  recorded in the last \<open>windowSecs\<close> seconds. \<open>rep lg t r\<close> says that \<open>r\<close> represents the entries of \<open>lg\<close> and was
  last used in second \<open>t\<close>; reading (\<open>touch\<close>) may change the representation.
\<close>

definition windowSecs :: int where "windowSecs = 10"

definition window_sum :: "('e \<Rightarrow> int) \<Rightarrow> ('e \<Rightarrow> int) \<Rightarrow> int \<Rightarrow> 'e list \<Rightarrow> int" where
  "window_sum sec weight now es = sum_list (map weight (filter (\<lambda>e. now - windowSecs < sec e \<and> sec e \<le> now) es))"

datatype 'e counter_op = Record 'e | ReadAt int

fun recorded :: "'e counter_op list \<Rightarrow> 'e list" where
  "recorded [] = []"
| "recorded (Record e # ops) = e # recorded ops"
| "recorded (ReadAt t # ops) = recorded ops"

fun in_order :: "('e \<Rightarrow> int) \<Rightarrow> ('e \<Rightarrow> bool) \<Rightarrow> int \<Rightarrow> 'e counter_op list \<Rightarrow> int \<Rightarrow> bool" where
  "in_order sec ok t [] u \<longleftrightarrow> t \<le> u"
| "in_order sec ok t (Record e # ops) u \<longleftrightarrow> t \<le> sec e \<and> ok e \<and> in_order sec ok (sec e) ops u"
| "in_order sec ok t (ReadAt n # ops) u \<longleftrightarrow> t \<le> n \<and> in_order sec ok n ops u"

fun run_counter :: "('e \<Rightarrow> 'r \<Rightarrow> 'r) \<Rightarrow> (int \<Rightarrow> 'r \<Rightarrow> 'r) \<Rightarrow> 'e counter_op list \<Rightarrow> 'r \<Rightarrow> 'r" where
  "run_counter add touch [] r = r"
| "run_counter add touch (Record e # ops) r = run_counter add touch ops (add e r)"
| "run_counter add touch (ReadAt n # ops) r = run_counter add touch ops (touch n r)"

locale window_counter =
  fixes sec :: "'e \<Rightarrow> int" and weight :: "'e \<Rightarrow> int" and ok :: "'e \<Rightarrow> bool"
    and new :: 'r and add :: "'e \<Rightarrow> 'r \<Rightarrow> 'r" and touch :: "int \<Rightarrow> 'r \<Rightarrow> 'r"
    and total :: "int \<Rightarrow> 'r \<Rightarrow> int"
    and rep :: "'e list \<Rightarrow> int \<Rightarrow> 'r \<Rightarrow> bool"
  assumes rep_new: "rep [] 0 new"
    and rep_add: "rep lg t r \<Longrightarrow> t \<le> sec e \<Longrightarrow> ok e \<Longrightarrow> rep (lg @ [e]) (sec e) (add e r)"
    and rep_read: "rep lg t r \<Longrightarrow> t \<le> n \<Longrightarrow> rep lg n (touch n r)"
    and read_sum: "rep lg t r \<Longrightarrow> t \<le> n \<Longrightarrow> total n r = window_sum sec weight n lg"
begin

lemma rep_run:
  "rep lg t r \<Longrightarrow> in_order sec ok t ops u \<Longrightarrow> \<exists>t' \<le> u. rep (lg @ recorded ops) t' (run_counter add touch ops r)"
proof (induction ops arbitrary: lg t r)
  case (Cons op ops)
  show ?case
  proof (cases op)
    case (Record e)
    with Cons.prems Cons.IH [OF rep_add, of lg t r e] show ?thesis by simp
  next
    case (ReadAt n)
    with Cons.prems Cons.IH [OF rep_read, of lg t r n] show ?thesis by simp
  qed
qed auto

lemma reading_exact:
  assumes "in_order sec ok 0 ops now"
  shows "total now (run_counter add touch ops new) = window_sum sec weight now (recorded ops)"
proof -
  obtain t where "t \<le> now" "rep (recorded ops) t (run_counter add touch ops new)"
    using rep_run [OF rep_new assms] by auto
  then show ?thesis using read_sum by blast
qed

end

text \<open>The seconds of a window and the ten slots of a ring correspond.\<close>

lemma window_slots:
  fixes f :: "int \<Rightarrow> int"
  shows "(\<Sum>j<10. f (now - (now - int j) mod 10)) = (\<Sum>s\<in>{now - 10<..now}. f s)"
proof -
  have "bij_betw (\<lambda>j. now - (now - int j) mod 10) {..<10} {now - 10<..now}"
  proof (rule bij_betw_byWitness [where f' = "\<lambda>s. nat (s mod 10)"])
    show "\<forall>j\<in>{..<10}. nat ((now - (now - int j) mod 10) mod 10) = j"
    proof
      fix j :: nat assume "j \<in> {..<10}"
      then have "(now - (now - int j) mod 10) mod 10 = int j mod 10"
        by (simp add: mod_diff_right_eq)
      with \<open>j \<in> {..<10}\<close> show "nat ((now - (now - int j) mod 10) mod 10) = j" by simp
    qed
    show "\<forall>s\<in>{now - 10<..now}. now - (now - int (nat (s mod 10))) mod 10 = s"
    proof
      fix s assume s: "s \<in> {now - 10<..now}"
      have "(now - s mod 10) mod 10 = (now - s) mod 10" by (simp add: mod_diff_right_eq)
      also have "\<dots> = now - s" using s by simp
      finally show "now - (now - int (nat (s mod 10))) mod 10 = s" by simp
    qed
  qed auto
  from sum.reindex_bij_betw [OF this, of f] show ?thesis .
qed

lemma sum_by_second:
  "window_sum sec weight now es = (\<Sum>s\<in>{now - 10<..now}. sum_list (map weight (filter (\<lambda>e. sec e = s) es)))"
proof (induction es)
  case (Cons e es)
  have "(\<Sum>s\<in>{now - 10<..now}. sum_list (map weight (filter (\<lambda>e. sec e = s) (e # es)))) =
      (\<Sum>s\<in>{now - 10<..now}. (if sec e = s then weight e else 0) + sum_list (map weight (filter (\<lambda>e. sec e = s) es)))"
    by (rule sum.cong) auto
  also have "\<dots> = (if sec e \<in> {now - 10<..now} then weight e else 0) + window_sum sec weight now es"
    by (simp add: sum.distrib Cons)
  finally show ?case by (auto simp: window_sum_def windowSecs_def)
qed (simp add: window_sum_def)

text \<open>Recording only.\<close>

lemma run_records: "run_counter add touch (map Record es) r = fold add es r" "recorded (map Record es) = es"
  by (induction es arbitrary: r) auto

lemma in_order_records:
  assumes "sorted (map sec es)" "\<And>e. e \<in> set es \<Longrightarrow> t \<le> sec e \<and> sec e \<le> u \<and> ok e" "t \<le> u"
  shows "in_order sec ok t (map Record es) u"
  using assms by (induction es arbitrary: t) auto

section \<open>The ring\<close>

definition MinInt64 :: int where "MinInt64 = - 9223372036854775808"

record slot =
  epoch :: int
  vals :: "int list"

type_synonym windowRing = "slot list"

definition newWindowRing :: "nat \<Rightarrow> windowRing" where
  "newWindowRing counters = replicate (nat windowSecs) \<lparr>epoch = MinInt64, vals = replicate counters 0\<rparr>"

definition ring_Add :: "time \<Rightarrow> nat \<Rightarrow> int \<Rightarrow> windowRing \<Rightarrow> windowRing" where
  "ring_Add t idx v r =
     (let ep = Unix t;
          i = nat (ep mod windowSecs);
          s = (if epoch (r ! i) \<noteq> ep then \<lparr>epoch = ep, vals = replicate (length (vals (r ! i))) 0\<rparr> else r ! i)
      in r[i := s\<lparr>vals := (vals s)[idx := vals s ! idx + v]\<rparr>])"

definition ring_Sum :: "time \<Rightarrow> nat \<Rightarrow> windowRing \<Rightarrow> int" where
  "ring_Sum t idx r =
     (let now = Unix t
      in sum_list (map (\<lambda>s. if epoch s \<le> now \<and> now - windowSecs < epoch s then vals s ! idx else 0) r))"

text \<open>Entries of the log: clock reading, counter, amount.\<close>

type_synonym ring_entry = "time \<times> nat \<times> int"

abbreviation entry_sec :: "ring_entry \<Rightarrow> int" where "entry_sec e \<equiv> Unix (fst e)"

definition entry_weight :: "nat \<Rightarrow> ring_entry \<Rightarrow> int" where
  "entry_weight idx e = (if fst (snd e) = idx then snd (snd e) else 0)"

definition sec_total :: "nat \<Rightarrow> int \<Rightarrow> ring_entry list \<Rightarrow> int" where
  "sec_total idx s lg = sum_list (map (entry_weight idx) (filter (\<lambda>e. entry_sec e = s) lg))"

definition ring_rep :: "nat \<Rightarrow> ring_entry list \<Rightarrow> int \<Rightarrow> windowRing \<Rightarrow> bool" where
  "ring_rep n lg t r \<longleftrightarrow> 0 \<le> t \<and> length r = 10 \<and> (\<forall>e \<in> set lg. 0 \<le> entry_sec e \<and> entry_sec e \<le> t \<and>
       entry_sec e \<le> epoch (r ! nat (entry_sec e mod 10))) \<and>
     (\<forall>j < 10. length (vals (r ! j)) = n \<and>
       (epoch (r ! j) = MinInt64 \<or> epoch (r ! j) \<in> entry_sec ` set lg \<and> epoch (r ! j) mod 10 = int j) \<and>
       (\<forall>idx < n. vals (r ! j) ! idx = sec_total idx (epoch (r ! j)) lg))"

lemma sec_total_snoc:
  "sec_total idx s (lg @ [(t, i, v)]) = sec_total idx s lg + (if Unix t = s \<and> i = idx then v else 0)"
  by (simp add: sec_total_def entry_weight_def)

lemma sec_total_none: "(\<And>e. e \<in> set lg \<Longrightarrow> entry_sec e \<noteq> s) \<Longrightarrow> sec_total idx s lg = 0"
  by (simp add: sec_total_def filter_empty_conv)

lemma ring_rep_add:
  assumes rep: "ring_rep n lg u r" and "u \<le> Unix t" "i < n"
  shows "ring_rep n (lg @ [(t, i, v)]) (Unix t) (ring_Add t i v r)"
proof -
  define ep k where "ep = Unix t" and "k = nat (ep mod 10)"
  define s0 where "s0 = (if epoch (r ! k) \<noteq> ep then \<lparr>epoch = ep, vals = replicate (length (vals (r ! k))) 0\<rparr> else r ! k)"
  have r: "length r = 10" "0 \<le> u" and k: "k < 10" and ep: "0 \<le> ep" "ep \<noteq> MinInt64" "u \<le> ep"
    using rep assms(2) by (auto simp: ring_rep_def k_def ep_def MinInt64_def)
  have upd: "ring_Add t i v r = r[k := s0\<lparr>vals := (vals s0)[i := vals s0 ! i + v]\<rparr>]"
    by (simp add: ring_Add_def Let_def ep_def k_def s0_def windowSecs_def)
  have lg: "0 \<le> entry_sec e" "entry_sec e \<le> ep" "entry_sec e \<le> epoch (r ! nat (entry_sec e mod 10))" if "e \<in> set lg" for e
    using rep that ep by (auto simp: ring_rep_def)
  have slot: "length (vals (r ! j)) = n" "epoch (r ! j) = MinInt64 \<or> epoch (r ! j) \<in> entry_sec ` set lg \<and> epoch (r ! j) mod 10 = int j"
    "\<And>idx. idx < n \<Longrightarrow> vals (r ! j) ! idx = sec_total idx (epoch (r ! j)) lg" if "j < 10" for j
    using rep that by (auto simp: ring_rep_def)
  have none: "sec_total idx ep lg = 0" if "epoch (r ! k) \<noteq> ep" for idx
  proof (rule sec_total_none)
    fix e assume e: "e \<in> set lg"
    show "entry_sec e \<noteq> ep"
    proof
      assume "entry_sec e = ep"
      then have "ep \<le> epoch (r ! k)" using lg(3) [OF e] by (simp add: k_def)
      moreover have "epoch (r ! k) \<le> ep" using slot(2) [OF k] lg(2) ep(1) by (auto simp: MinInt64_def)
      ultimately show False using that by simp
    qed
  qed
  have s0: "length (vals s0) = n" "epoch s0 = ep" "\<And>idx. idx < n \<Longrightarrow> vals s0 ! idx = sec_total idx ep lg"
    using slot(1,3) [OF k] none by (auto simp: s0_def)
  have at: "ring_Add t i v r ! j = (if j = k then s0\<lparr>vals := (vals s0)[i := vals s0 ! i + v]\<rparr> else r ! j)" if "j < 10" for j
    using that r k by (simp add: upd nth_list_update)
  show ?thesis
    unfolding ring_rep_def
  proof (intro conjI ballI allI impI)
    show "0 \<le> Unix t" "length (ring_Add t i v r) = 10" using ep r by (simp_all add: ep_def upd)
    fix e assume "e \<in> set (lg @ [(t, i, v)])"
    then consider "e \<in> set lg" | "e = (t, i, v)" by auto
    note cases = this
    show "0 \<le> entry_sec e" "entry_sec e \<le> Unix t" by (rule cases; use lg ep in \<open>simp add: ep_def\<close>)+
    have j: "nat (entry_sec e mod 10) < 10" by simp
    have "entry_sec e \<le> ep" by (rule cases; use lg ep_def in simp)
    moreover have "entry_sec e \<le> epoch (r ! nat (entry_sec e mod 10))" if "nat (entry_sec e mod 10) \<noteq> k"
      by (rule cases; use lg that in \<open>simp add: k_def ep_def\<close>)
    ultimately show "entry_sec e \<le> epoch (ring_Add t i v r ! nat (entry_sec e mod 10))"
      using s0(2) by (simp add: at [OF j])
  next
    fix j :: nat assume j: "j < 10"
    show "length (vals (ring_Add t i v r ! j)) = n" using slot(1) [OF j] s0 by (simp add: at j)
    show "epoch (ring_Add t i v r ! j) = MinInt64 \<or>
        epoch (ring_Add t i v r ! j) \<in> entry_sec ` set (lg @ [(t, i, v)]) \<and> epoch (ring_Add t i v r ! j) mod 10 = int j"
      using slot(2) [OF j] s0(2) by (auto simp: at j ep_def k_def)
    fix idx assume idx: "idx < n"
    have "epoch (r ! j) \<noteq> ep" if "j \<noteq> k" using slot(2) [OF j] ep that by (auto simp: k_def)
    then show "vals (ring_Add t i v r ! j) ! idx = sec_total idx (epoch (ring_Add t i v r ! j)) (lg @ [(t, i, v)])"
      using s0 slot(3) [OF j idx] idx assms(3) by (auto simp: at j sec_total_snoc ep_def nth_list_update)
  qed
qed

lemma ring_rep_sum:
  assumes rep: "ring_rep n lg u r" and "u \<le> Unix t" "idx < n"
  shows "ring_Sum t idx r = window_sum entry_sec (entry_weight idx) (Unix t) lg"
proof -
  define now where "now = Unix t"
  have r: "length r = 10" using rep by (simp add: ring_rep_def)
  have contrib: "(if epoch (r ! j) \<le> now \<and> now - 10 < epoch (r ! j) then vals (r ! j) ! idx else 0) =
      sec_total idx (now - (now - int j) mod 10) lg" if j: "j < 10" for j
  proof -
    define s where "s = now - (now - int j) mod 10"
    have s: "now - 10 < s" "s \<le> now" "s mod 10 = int j"
      using j by (simp_all add: s_def mod_diff_right_eq)
    have slot: "epoch (r ! j) = MinInt64 \<or> epoch (r ! j) \<in> entry_sec ` set lg \<and> epoch (r ! j) mod 10 = int j"
      "vals (r ! j) ! idx = sec_total idx (epoch (r ! j)) lg" using rep j assms(3) by (auto simp: ring_rep_def)
    show ?thesis
    proof (cases "epoch (r ! j) = s")
      case True
      then show ?thesis using s slot(2) by (simp add: s_def)
    next
      case False
      have out: "\<not> (epoch (r ! j) \<le> now \<and> now - 10 < epoch (r ! j))"
      proof
        assume w: "epoch (r ! j) \<le> now \<and> now - 10 < epoch (r ! j)"
        have "0 \<le> now" using rep assms(2) by (simp add: ring_rep_def now_def)
        with w have "epoch (r ! j) \<noteq> MinInt64" by (auto simp: MinInt64_def)
        then have "epoch (r ! j) mod 10 = s mod 10" using slot(1) s(3) by simp
        then have "(epoch (r ! j) - s) mod 10 = 0" by (simp add: mod_eq_dvd_iff)
        then show False using False w s(1,2) by presburger
      qed
      have "sec_total idx s lg = 0"
      proof (rule sec_total_none, rule notI)
        fix e assume e: "e \<in> set lg" "entry_sec e = s"
        then have "s \<le> epoch (r ! j)" "0 \<le> s" using rep s(3) by (auto simp: ring_rep_def)
        moreover have "epoch (r ! j) \<le> now"
          using slot(1) rep assms(2) \<open>0 \<le> s\<close> s(2) by (auto simp: ring_rep_def now_def MinInt64_def)
        ultimately show False using out s(1) by simp
      qed
      then show ?thesis using out by (auto simp: s_def)
    qed
  qed
  have "ring_Sum t idx r = (\<Sum>j<10. if epoch (r ! j) \<le> now \<and> now - 10 < epoch (r ! j) then vals (r ! j) ! idx else 0)"
    by (simp add: ring_Sum_def Let_def now_def windowSecs_def sum_list_sum_nth r atLeast0LessThan)
  also have "\<dots> = (\<Sum>j<10. sec_total idx (now - (now - int j) mod 10) lg)" using contrib by simp
  also have "\<dots> = window_sum entry_sec (entry_weight idx) now lg"
    using window_slots [of "\<lambda>s. sec_total idx s lg" now] by (simp add: sum_by_second sec_total_def)
  finally show ?thesis by (simp add: now_def)
qed

lemma ring_rep_new: "ring_rep n [] 0 (newWindowRing n)"
  by (simp add: ring_rep_def newWindowRing_def windowSecs_def sec_total_def)

lemma ring_rep_later: "ring_rep n lg u r \<Longrightarrow> u \<le> t \<Longrightarrow> ring_rep n lg t r"
  by (force simp: ring_rep_def)

interpretation win: window_counter entry_sec "entry_weight idx" "\<lambda>e. fst (snd e) < idx + Suc m" "newWindowRing (idx + Suc m)"
    "\<lambda>e. ring_Add (fst e) (fst (snd e)) (snd (snd e))" "\<lambda>now r. r" "\<lambda>now. ring_Sum (now * second) idx" "ring_rep (idx + Suc m)"
  for idx m
proof (unfold_locales, goal_cases)
  case (2 lg t r e)
  then show ?case using ring_rep_add [of _ lg t r "fst e" "fst (snd e)" "snd (snd e)"] by simp
next
  case (4 lg t r now)
  then show ?case using ring_rep_sum [of "idx + Suc m" lg t r "now * second" idx] by (simp add: Unix_def second_def)
qed (use ring_rep_new ring_rep_later in auto)

section \<open>The token bucket\<close>

record Bucket =
  bk_rate :: int
  bk_burst :: int
  bk_tokens :: real
  bk_last :: time
  bk_ring :: windowRing
  bk_waiters :: int
  bk_waitTotal :: duration

definition NewBucket :: "int \<Rightarrow> int \<Rightarrow> int \<Rightarrow> time \<Rightarrow> Bucket" where
  "NewBucket perSec burst start now =
     (let perSec = (if perSec < 0 then 0 else perSec);
          burst = (if 0 < perSec \<and> burst < 1 then 1 else burst);
          start = (if start < 0 then 0 else start)
      in \<lparr>bk_rate = perSec, bk_burst = burst, bk_tokens = real_of_int start, bk_last = now,
          bk_ring = newWindowRing 1, bk_waiters = 0, bk_waitTotal = 0\<rparr>)"

definition Limited :: "Bucket \<Rightarrow> bool" where
  "Limited b \<longleftrightarrow> 0 < bk_rate b"

definition refillLocked :: "time \<Rightarrow> int \<Rightarrow> Bucket \<Rightarrow> Bucket" where
  "refillLocked now rate b =
     (if rate \<le> 0 then b\<lparr>bk_last := now\<rparr>
      else
        (let el = now - bk_last b
         in if el \<le> 0 then b
            else
              (let tok = bk_tokens b + real_of_int rate * (real_of_int el / real_of_int second);
                   cap = real_of_int (bk_burst b)
               in b\<lparr>bk_last := now, bk_tokens := (if cap < tok then cap else tok)\<rparr>)))"

text \<open>One pass of the loop of \<^verbatim>\<open>Wait\<close> under the lock: what is still to be served, and how long to wait when the tokens
  do not suffice for the next installment.\<close>

definition wait_round :: "time \<Rightarrow> int \<Rightarrow> Bucket \<Rightarrow> Bucket \<times> int \<times> duration option" where
  "wait_round now remaining b =
     (let rate = bk_rate b
      in if rate = 0 then (b\<lparr>bk_ring := ring_Add now 0 remaining (bk_ring b)\<rparr>, 0, None)
         else
           (let b = refillLocked now rate b;
                take = (if bk_burst b < remaining then bk_burst b else remaining)
            in if real_of_int take \<le> bk_tokens b
               then (b\<lparr>bk_tokens := bk_tokens b - real_of_int take, bk_ring := ring_Add now 0 take (bk_ring b)\<rparr>,
                     remaining - take, None)
               else
                 (let w = trunc ((real_of_int take - bk_tokens b) / real_of_int rate * real_of_int second)
                  in (b, remaining, Some (if w \<le> 0 then millisecond else w)))))"

text \<open>
  The loop. In round \<open>k\<close>: \<open>wp_ctx\<close> is the error check at its head, \<open>wp_now\<close> the clock, \<open>wp_done\<close> whether the context
  ends the wait, \<open>wp_end\<close> the clock when the call returns; \<open>others k\<close> is what other goroutines do to the bucket
  before the next round.
\<close>

record wait_poll =
  wp_ctx :: bool
  wp_now :: time
  wp_done :: bool
  wp_end :: time

datatype wait_result = WaitOk | WaitErr

definition wait_exit :: "time \<Rightarrow> time option \<Rightarrow> Bucket \<Rightarrow> Bucket" where
  "wait_exit now blockedFrom b =
     (case blockedFrom of
        None \<Rightarrow> b
      | Some t \<Rightarrow> b\<lparr>bk_waiters := bk_waiters b - 1, bk_waitTotal := bk_waitTotal b + (now - t)\<rparr>)"

partial_function (option) wait_loop ::
  "(nat \<Rightarrow> wait_poll) \<Rightarrow> (nat \<Rightarrow> Bucket \<Rightarrow> Bucket) \<Rightarrow> nat \<Rightarrow> time option \<Rightarrow> int \<Rightarrow> Bucket \<Rightarrow> (Bucket \<times> wait_result) option" where
  "wait_loop env others k blockedFrom remaining b =
     (if remaining \<le> 0 then Some (wait_exit (wp_end (env k)) blockedFrom b, WaitOk)
      else if wp_ctx (env k) then Some (wait_exit (wp_end (env k)) blockedFrom b, WaitErr)
      else case wait_round (wp_now (env k)) remaining b of
             (b, remaining, None) \<Rightarrow> wait_loop env others (k + 1) blockedFrom remaining (others k b)
           | (b, remaining, Some d) \<Rightarrow>
               (let b = (if blockedFrom = None then b\<lparr>bk_waiters := bk_waiters b + 1\<rparr> else b);
                    blockedFrom = (if blockedFrom = None then Some (wp_now (env k)) else blockedFrom)
                in if wp_done (env k) then Some (wait_exit (wp_end (env k)) blockedFrom b, WaitErr)
                   else wait_loop env others (k + 1) blockedFrom remaining (others k b)))"

definition Wait ::
  "(nat \<Rightarrow> wait_poll) \<Rightarrow> (nat \<Rightarrow> Bucket \<Rightarrow> Bucket) \<Rightarrow> int \<Rightarrow> Bucket \<Rightarrow> (Bucket \<times> wait_result) option" where
  "Wait env others n b = (if n \<le> 0 then Some (b, WaitOk) else wait_loop env others 0 None n b)"

definition SetRate :: "time \<Rightarrow> int \<Rightarrow> int \<Rightarrow> Bucket \<Rightarrow> Bucket" where
  "SetRate now perSec burst b =
     (let perSec = (if perSec < 0 then 0 else perSec);
          burst = (if 0 < perSec \<and> burst < 1 then 1 else burst);
          b = (refillLocked now (bk_rate b) b)\<lparr>bk_rate := perSec, bk_burst := burst\<rparr>
      in if 0 < perSec
         then (let b = (if real_of_int burst < bk_tokens b then b\<lparr>bk_tokens := real_of_int burst\<rparr> else b)
               in if bk_tokens b < 0 then b\<lparr>bk_tokens := 0\<rparr> else b)
         else b)"

record BucketStats =
  Rate_ :: int
  Burst :: int
  WindowedRate :: real
  Waiters :: int
  WaitTotal :: duration
  Utilization_ :: real

definition bucket_Stats :: "time \<Rightarrow> Bucket \<Rightarrow> BucketStats" where
  "bucket_Stats now b =
     (let wr = real_of_int (ring_Sum now 0 (bk_ring b)) / real_of_int windowSecs
      in \<lparr>Rate_ = bk_rate b, Burst = bk_burst b, WindowedRate = wr, Waiters = bk_waiters b, WaitTotal = bk_waitTotal b,
          Utilization_ = (if 0 < bk_rate b then wr / real_of_int (bk_rate b) else 0)\<rparr>)"

section \<open>Rate of a bucket\<close>

definition bucket_ok :: "int \<Rightarrow> Bucket \<Rightarrow> bool" where
  "bucket_ok st b \<longleftrightarrow> 0 \<le> bk_rate b \<and> 0 \<le> bk_tokens b \<and>
     (0 < bk_rate b \<longrightarrow> 1 \<le> bk_burst b \<and> bk_tokens b \<le> real_of_int (max (bk_burst b) st))"

inductive bucket_step :: "Bucket \<Rightarrow> Bucket \<Rightarrow> bool" where
  step_round: "wait_round now n b = (b', r, d) \<Longrightarrow> 0 < n \<Longrightarrow> bucket_step b b'"
| step_rate: "bucket_step b (SetRate now perSec burst b)"
| step_wait: "bucket_step b (b\<lparr>bk_waiters := w, bk_waitTotal := d\<rparr>)"

lemma refill_bound:
  fixes now :: time
  assumes "bucket_ok st b" "0 < bk_rate b"
  defines "b' \<equiv> refillLocked now (bk_rate b) b"
  shows "bucket_ok st b'" "bk_rate b' = bk_rate b" "bk_burst b' = bk_burst b" "bk_last b' = max (bk_last b) now"
    "bk_tokens b' \<le> bk_tokens b + real_of_int (bk_rate b) * (real_of_int (bk_last b' - bk_last b) / real_of_int second)"
    "bk_tokens b' < real_of_int (bk_burst b) \<Longrightarrow> bk_last b \<le> now \<Longrightarrow>
       bk_tokens b' = bk_tokens b + real_of_int (bk_rate b) * (real_of_int (now - bk_last b) / real_of_int second)"
    "bk_waiters b' = bk_waiters b"
proof -
  define tok where "tok = bk_tokens b + real_of_int (bk_rate b) * (real_of_int (now - bk_last b) / real_of_int second)"
  have b': "b' = (if now \<le> bk_last b then b
      else b\<lparr>bk_last := now, bk_tokens := (if real_of_int (bk_burst b) < tok then real_of_int (bk_burst b) else tok)\<rparr>)"
    using assms by (simp add: refillLocked_def Let_def tok_def)
  have "bk_tokens b \<le> tok" if "bk_last b \<le> now" using assms(2) that by (simp add: tok_def second_def)
  moreover have "tok = bk_tokens b + real_of_int (bk_rate b) * (real_of_int now - real_of_int (bk_last b)) / real_of_int second"
    by (simp add: tok_def)
  ultimately show "bucket_ok st b'" "bk_rate b' = bk_rate b" "bk_burst b' = bk_burst b" "bk_last b' = max (bk_last b) now"
    "bk_tokens b' \<le> bk_tokens b + real_of_int (bk_rate b) * (real_of_int (bk_last b' - bk_last b) / real_of_int second)"
    "bk_tokens b' < real_of_int (bk_burst b) \<Longrightarrow> bk_last b \<le> now \<Longrightarrow>
       bk_tokens b' = bk_tokens b + real_of_int (bk_rate b) * (real_of_int (now - bk_last b) / real_of_int second)"
    "bk_waiters b' = bk_waiters b"
    using assms(1,2) unfolding b' by (auto simp: bucket_ok_def max_def split: if_splits)
qed

lemma round_bound:
  assumes ok: "bucket_ok st b" "0 < bk_rate b" "0 < n" and w: "wait_round now n b = (b', n', d)"
  shows "bucket_ok st b'" "bk_rate b' = bk_rate b" "bk_burst b' = bk_burst b" "bk_last b' = max (bk_last b) now"
    "real_of_int (n - n') + bk_tokens b' \<le>
       bk_tokens b + real_of_int (bk_rate b) * (real_of_int (bk_last b' - bk_last b) / real_of_int second)"
    "0 \<le> n'" "n' \<le> n" "bk_waiters b' = bk_waiters b"
proof -
  define b1 where "b1 = refillLocked now (bk_rate b) b"
  define tk where "tk = (if bk_burst b1 < n then bk_burst b1 else n)"
  note rf = refill_bound [OF ok(1,2), where now = now, folded b1_def]
  have tk: "1 \<le> tk" "tk \<le> n" using rf(1,2) ok by (auto simp: tk_def bucket_ok_def)
  have eff: "if real_of_int tk \<le> bk_tokens b1
    then b' = b1\<lparr>bk_tokens := bk_tokens b1 - real_of_int tk, bk_ring := ring_Add now 0 tk (bk_ring b1)\<rparr> \<and> n' = n - tk
    else b' = b1 \<and> n' = n"
    using w ok(2) by (auto simp: wait_round_def Let_def b1_def [symmetric] tk_def [symmetric] split: if_splits)
  show "bucket_ok st b'" "bk_rate b' = bk_rate b" "bk_burst b' = bk_burst b" "bk_last b' = max (bk_last b) now"
    "real_of_int (n - n') + bk_tokens b' \<le>
       bk_tokens b + real_of_int (bk_rate b) * (real_of_int (bk_last b' - bk_last b) / real_of_int second)"
    "0 \<le> n'" "n' \<le> n" "bk_waiters b' = bk_waiters b"
    using eff rf tk ok by (auto simp: bucket_ok_def split: if_splits)
qed

lemma bucket_ok_new: "bucket_ok (max start 0) (NewBucket perSec burst start now)"
  by (auto simp: NewBucket_def bucket_ok_def Let_def)

lemma bucket_ok_SetRate:
  assumes "bucket_ok st b"
  shows "bucket_ok st (SetRate now perSec burst b)"
proof -
  have "0 \<le> bk_tokens (refillLocked now (bk_rate b) b)"
    using assms refill_bound(1) [OF assms, where now = now] by (cases "0 < bk_rate b") (auto simp: bucket_ok_def refillLocked_def)
  then show ?thesis by (auto simp: SetRate_def bucket_ok_def Let_def)
qed

lemma bucket_ok_round:
  assumes "bucket_ok st b" "wait_round now n b = (b', r, d)" "0 < n"
  shows "bucket_ok st b'"
proof (cases "bk_rate b = 0")
  case True
  with assms show ?thesis by (auto simp: wait_round_def bucket_ok_def)
next
  case False
  then have "0 < bk_rate b" using assms(1) by (simp add: bucket_ok_def)
  from round_bound(1) [OF assms(1) this assms(3,2)] show ?thesis .
qed

interpretation bucket: step_invariant bucket_step "bucket_ok st" for st
proof
  show "bucket_ok st t" if "bucket_step s t" "bucket_ok st s" for s t
    using that
  proof cases
    case (step_round now n r d)
    then show ?thesis using bucket_ok_round that(2) by blast
  next
    case (step_rate now perSec burst)
    then show ?thesis using bucket_ok_SetRate that(2) by blast
  next
    case (step_wait w d)
    with that(2) show ?thesis by (simp add: bucket_ok_def)
  qed
qed

text \<open>Rounds of any callers in a row, with what they were granted.\<close>

fun granted :: "(time \<times> int) list \<Rightarrow> Bucket \<Rightarrow> Bucket \<times> int" where
  "granted [] b = (b, 0)"
| "granted ((now, n) # cs) b =
     (case wait_round now n b of
        (b1, n', d) \<Rightarrow> (case granted cs b1 of (b2, g) \<Rightarrow> (b2, n - n' + g)))"

lemma granted_bound:
  assumes "bucket_ok st b" "0 < bk_rate b" "\<forall>(now, n) \<in> set cs. now \<le> t \<and> 0 < n" "bk_last b \<le> t" "granted cs b = (b', g)"
  shows "real_of_int g \<le> bk_tokens b + real_of_int (bk_rate b) * (real_of_int (t - bk_last b) / real_of_int second)"
  using assms
proof (induction cs arbitrary: b g)
  case Nil
  then show ?case by (simp add: bucket_ok_def second_def)
next
  case (Cons c cs)
  obtain now n where c: "c = (now, n)" by force
  obtain b1 n' d where w: "wait_round now n b = (b1, n', d)" using prod_cases3 by blast
  obtain g' where g: "granted cs b1 = (b', g')" "g = n - n' + g'" using Cons.prems(5) by (auto simp: c w split: prod.splits)
  have n: "0 < n" "now \<le> t" using Cons.prems(3) by (simp_all add: c)
  note rb = round_bound [OF Cons.prems(1,2) n(1) w]
  have "real_of_int g' \<le> bk_tokens b1 + real_of_int (bk_rate b) * (real_of_int (t - bk_last b1) / real_of_int second)"
    using Cons.IH [OF rb(1) _ _ _ g(1)] Cons.prems(2-4) rb(2,4) n(2) by simp
  moreover have "real_of_int (bk_rate b) * (real_of_int (t - bk_last b1) / real_of_int second) +
      real_of_int (bk_rate b) * (real_of_int (bk_last b1 - bk_last b) / real_of_int second) =
      real_of_int (bk_rate b) * (real_of_int (t - bk_last b) / real_of_int second)"
    by (simp add: field_simps second_def)
  ultimately show ?case using rb(5) g(2) by linarith
qed

section \<open>Waiting\<close>

lemma round_cases:
  fixes now :: time and n :: int
  assumes "0 < bk_rate b"
  defines "b1 \<equiv> refillLocked now (bk_rate b) b"
  defines "tk \<equiv> (if bk_burst b1 < n then bk_burst b1 else n)"
  shows "real_of_int tk \<le> bk_tokens b1 \<Longrightarrow> \<exists>b'. wait_round now n b = (b', n - tk, None)"
    "bk_tokens b1 < real_of_int tk \<Longrightarrow> \<exists>d > 0. wait_round now n b = (b1, n, Some d)"
  using assms(1) by (auto simp: wait_round_def Let_def b1_def [symmetric] tk_def [symmetric] millisecond_def)

text \<open>Once the clock has reached the time at which the bucket would be full, the next installment has been served.\<close>

lemma wait_progress:
  assumes ok: "bucket_ok st b" "0 < bk_rate b" "0 < n" and now: "bk_last b \<le> wp_now (env k)" "k \<le> m"
    and full: "real_of_int (bk_burst b) \<le>
      bk_tokens b + real_of_int (bk_rate b) * (real_of_int (wp_now (env m) - bk_last b) / real_of_int second)"
    and env: "\<And>k. \<not> wp_ctx (env k) \<and> \<not> wp_done (env k) \<and> wp_now (env k) \<le> wp_now (env (k + 1))"
  shows "\<exists>j fr' n' b'. wait_loop env (\<lambda>_ b. b) k fr n b = wait_loop env (\<lambda>_ b. b) j fr' n' b' \<and> 0 \<le> n' \<and> n' < n \<and>
    bucket_ok st b' \<and> bk_rate b' = bk_rate b \<and> bk_last b' \<le> wp_now (env j) \<and>
    bk_waiters b' - (if fr' = None then 0 else 1) = bk_waiters b - (if fr = None then 0 else 1)"
  using ok now full
proof (induction "m - k" arbitrary: k fr b rule: less_induct)
  case less
  let ?now = "wp_now (env k)"
  define b1 where "b1 = refillLocked ?now (bk_rate b) b"
  define tk where "tk = (if bk_burst b1 < n then bk_burst b1 else n)"
  note rf = refill_bound [OF less.prems(1,2), where now = ?now, folded b1_def]
  note rc = round_cases [OF less.prems(2), where now = ?now and n = n, folded b1_def, folded tk_def]
  have tk: "1 \<le> tk" "tk \<le> n" "tk \<le> bk_burst b" using rf(1-3) less.prems by (auto simp: tk_def bucket_ok_def)
  have later: "?now \<le> wp_now (env (k + 1))" using env by blast
  show ?case
  proof (cases "real_of_int tk \<le> bk_tokens b1")
    case True
    then obtain b' where w: "wait_round ?now n b = (b', n - tk, None)"
using rc(1) by blast
    note rb = round_bound [OF less.prems(1,2,3) w]
    have "wait_loop env (\<lambda>_ b. b) k fr n b = wait_loop env (\<lambda>_ b. b) (k + 1) fr (n - tk) b'"
      using env [of k] less.prems(3) by (simp add: wait_loop.simps [where k = k] w)
    moreover have "bk_last b' \<le> wp_now (env (k + 1))" using rb(4) less.prems(4) later by simp
    ultimately show ?thesis
      using rb(1,2,8) tk by (intro exI [of _ "k + 1"] exI [of _ fr] exI [of _ "n - tk"] exI [of _ b']) simp
  next
    case False
    then obtain d where w: "wait_round ?now n b = (b1, n, Some d)"
using rc(2) by fastforce
    have tok: "bk_tokens b1 = bk_tokens b + real_of_int (bk_rate b) * (real_of_int (?now - bk_last b) / real_of_int second)"
      by (rule rf(6)) (use False tk less.prems(4) in auto)
    have last: "bk_last b1 = ?now" using rf(4) less.prems(4) by simp
    have full': "real_of_int (bk_burst b1) \<le>
        bk_tokens b1 + real_of_int (bk_rate b1) * (real_of_int (wp_now (env m) - bk_last b1) / real_of_int second)"
      using less.prems(6) rf(2,3) by (simp add: tok last field_simps second_def)
    have "k \<noteq> m" using full' False tk(3) rf(3) by (auto simp: last)
    then have "m - (k + 1) < m - k" "k + 1 \<le> m" using less.prems(5) by simp_all
    define b2 where "b2 = (if fr = None then b1\<lparr>bk_waiters := bk_waiters b1 + 1\<rparr> else b1)"
    define fr2 where "fr2 = (if fr = None then Some ?now else fr)"
    have b2: "bucket_ok st b2" "bk_rate b2 = bk_rate b" "bk_burst b2 = bk_burst b1" "bk_tokens b2 = bk_tokens b1" "bk_last b2 = ?now"
      "bk_waiters b2 - (if fr2 = None then 0 else 1) = bk_waiters b - (if fr = None then 0 else 1)"
      using rf(1,2,7) last by (auto simp: b2_def fr2_def bucket_ok_def)
    have "wait_loop env (\<lambda>_ b. b) k fr n b = wait_loop env (\<lambda>_ b. b) (k + 1) fr2 n b2"
      using env [of k] less.prems(3) by (simp add: wait_loop.simps [where k = k] w b2_def fr2_def Let_def)
    moreover have "\<exists>j fr' n' b'. wait_loop env (\<lambda>_ b. b) (k + 1) fr2 n b2 = wait_loop env (\<lambda>_ b. b) j fr' n' b' \<and> 0 \<le> n' \<and> n' < n \<and>
        bucket_ok st b' \<and> bk_rate b' = bk_rate b2 \<and> bk_last b' \<le> wp_now (env j) \<and>
        bk_waiters b' - (if fr' = None then 0 else 1) = bk_waiters b2 - (if fr2 = None then 0 else 1)"
      by (rule less.hyps) (use \<open>m - (k + 1) < m - k\<close> \<open>k + 1 \<le> m\<close> b2 less.prems(2,3) later full' rf(2) last in auto)
    ultimately show ?thesis using b2(2,6) by simp
  qed
qed

lemma wait_loop_returns:
  assumes "bucket_ok st b" "0 < bk_rate b" "0 \<le> n" "bk_last b \<le> wp_now (env k)"
    and env: "\<And>k. \<not> wp_ctx (env k) \<and> \<not> wp_done (env k) \<and> wp_now (env k) \<le> wp_now (env (k + 1))" "\<And>t. \<exists>k. t \<le> wp_now (env k)"
  shows "\<exists>b'. wait_loop env (\<lambda>_ b. b) k fr n b = Some (b', WaitOk) \<and> bk_waiters b' = bk_waiters b - (if fr = None then 0 else 1)"
  using assms(1-4)
proof (induction "nat n" arbitrary: k fr n b rule: less_induct)
  case less
  show ?case
  proof (cases "n = 0")
    case True
    then show ?thesis by (simp add: wait_loop.simps [where k = k] wait_exit_def split: option.split)
  next
    case False
    then have n: "0 < n" using less.prems(3) by simp
    define t where "t = bk_last b + \<lceil>real_of_int (bk_burst b) * real_of_int second / real_of_int (bk_rate b)\<rceil>"
    obtain m0 where m0: "t \<le> wp_now (env m0)" using env(2) by blast
    have mono: "wp_now (env m0) \<le> wp_now (env (max k m0))"
      by (rule lift_Suc_mono_le [of "\<lambda>i. wp_now (env i)"]) (use env(1) in simp_all)
    have "real_of_int (bk_burst b) * real_of_int second / real_of_int (bk_rate b) \<le> real_of_int (wp_now (env (max k m0)) - bk_last b)"
      using m0 mono by (simp add: t_def ceiling_le_iff) linarith
    then have "real_of_int (bk_burst b) \<le> real_of_int (bk_rate b) * (real_of_int (wp_now (env (max k m0)) - bk_last b) / real_of_int second)"
      using less.prems(2) by (simp add: field_simps second_def)
    then have "real_of_int (bk_burst b) \<le>
        bk_tokens b + real_of_int (bk_rate b) * (real_of_int (wp_now (env (max k m0)) - bk_last b) / real_of_int second)"
      using less.prems(1) by (simp add: bucket_ok_def)
    from wait_progress [OF less.prems(1,2) n less.prems(4) _ this env(1), of fr]
    obtain j fr' n' b' where p: "wait_loop env (\<lambda>_ b. b) k fr n b = wait_loop env (\<lambda>_ b. b) j fr' n' b'" "0 \<le> n'" "n' < n"
      "bucket_ok st b'" "bk_rate b' = bk_rate b" "bk_last b' \<le> wp_now (env j)"
      "bk_waiters b' - (if fr' = None then 0 else 1) = bk_waiters b - (if fr = None then 0 else 1)" by auto
    have "nat n' < nat n" using p(2,3) by simp
    from less.hyps [OF this p(4) _ p(2,6), of fr'] show ?thesis using p(1,5,7) less.prems(2) by simp
  qed
qed

section \<open>Properties of the bucket\<close>

text \<open>C31: A bucket keeps its rate. In every state it can reach, whatever rounds of \<^verbatim>\<open>Wait\<close> any callers go through up to a time \<open>t\<close>,
  together they are granted at most the burst and what the rate allows since the last refill (a start above the
  burst counts instead of the burst).\<close>

theorem bucket_rate_bound:
  assumes "bucket_step\<^sup>*\<^sup>* (NewBucket perSec burst start now) b" "0 < bk_rate b" "bk_last b \<le> t"
    and "\<forall>(now, n) \<in> set cs. now \<le> t \<and> 0 < n"
  shows "real_of_int (snd (granted cs b)) \<le> real_of_int (max (bk_burst b) (max start 0)) +
    real_of_int (bk_rate b) * (real_of_int (t - bk_last b) / real_of_int second)"
proof -
  have ok: "bucket_ok (max start 0) b" by (rule bucket.inv_run [OF assms(1) bucket_ok_new])
  have "bk_tokens b \<le> real_of_int (max (bk_burst b) (max start 0))" using ok assms(2) by (simp add: bucket_ok_def)
  with granted_bound [OF ok assms(2,4,3), of "fst (granted cs b)" "snd (granted cs b)"] show ?thesis by simp
qed

definition demo_bucket :: Bucket where "demo_bucket = NewBucket 4 2 0 0"

theorem bucket_rate_bound_witness:
  "0 < bk_rate demo_bucket \<and> snd (granted [(second, 3), (2 * second, 1)] demo_bucket) = 3 \<and>
   real_of_int (snd (granted [(second, 3), (2 * second, 1)] demo_bucket)) \<le>
     real_of_int (max (bk_burst demo_bucket) (max 0 0)) +
     real_of_int (bk_rate demo_bucket) * (real_of_int (2 * second - bk_last demo_bucket) / real_of_int second)"
  using bucket_rate_bound [of 4 2 0 0 demo_bucket "2 * second" "[(second, 3), (2 * second, 1)]"]
  by (simp add: demo_bucket_def NewBucket_def wait_round_def refillLocked_def second_def)



text \<open>The ring counts exactly. Over any entries recorded by a clock that does not go back, the sum of a counter is what was
  recorded for it in the last ten seconds.\<close>

lemma window_ring_exact:
  assumes "sorted (map entry_sec es)" "\<forall>(s, i, v) \<in> set es. 0 \<le> s \<and> s \<le> t \<and> i < n" "idx < n" "0 \<le> t"
  shows "ring_Sum t idx (fold (\<lambda>(s, i, v). ring_Add s i v) es (newWindowRing n)) =
    sum_list (map (\<lambda>(s, i, v). v) (filter (\<lambda>(s, i, v). i = idx \<and> Unix t - windowSecs < Unix s) es))"
proof -
  obtain m where n: "n = idx + Suc m" using assms(3) less_iff_Suc_add by auto
  have "in_order entry_sec (\<lambda>e. fst (snd e) < idx + Suc m) 0 (map Record es) (Unix t)"
    by (rule in_order_records) (use assms(1,2,4) n in \<open>auto simp: Unix_def second_def zdiv_mono1 pos_imp_zdiv_nonneg_iff\<close>)
  from win.reading_exact [OF this]
  have "ring_Sum (Unix t * second) idx (fold (\<lambda>(s, i, v). ring_Add s i v) es (newWindowRing n)) =
      window_sum entry_sec (entry_weight idx) (Unix t) es"
    by (simp add: run_records n case_prod_unfold)
  moreover have "ring_Sum (Unix t * second) idx r = ring_Sum t idx r" for r by (simp add: ring_Sum_def Unix_def second_def)
  moreover have "window_sum entry_sec (entry_weight idx) (Unix t) es =
      sum_list (map (\<lambda>(s, i, v). v) (filter (\<lambda>(s, i, v). i = idx \<and> Unix t - windowSecs < Unix s) es))"
    using assms(2) by (induction es) (auto simp: window_sum_def entry_weight_def Unix_def second_def zdiv_mono1)
  ultimately show ?thesis by simp
qed

end
