(* ===== verification/Duty.thy ===== *)
theory Duty
  imports Throttle "HOL-Library.AList"
begin

text \<open>
  \<^verbatim>\<open>pkg/throttle/reader.go\<close> and \<^verbatim>\<open>duty.go\<close>: reads of a response body paced by a bucket, and the limiter of the disk's
  active time with its registry of workers. A \<^verbatim>\<open>DutyCalc\<close> is known to the limiter by a number; the workers'
  records are objects in a heap, since a record outlives its entry in the registry.
\<close>

section \<open>Paced reads\<close>

definition pacedChunkMax :: int where "pacedChunkMax = 64 * 2 ^ 10"
definition pacedChunkMin :: int where "pacedChunkMin = 4 * 2 ^ 10"
definition pacedChunkRateDiv :: int where "pacedChunkRateDiv = 16"

definition pacedChunkFor :: "int \<Rightarrow> int" where
  "pacedChunkFor rate =
     (let c = rate div pacedChunkRateDiv
      in if pacedChunkMax < c then pacedChunkMax else if c < pacedChunkMin then pacedChunkMin else c)"

text \<open>\<^verbatim>\<open>Read\<close> of a paced body: \<open>body p\<close> is what the wrapped body returns for a buffer of length \<open>p\<close>, the number of bytes and
  whether there is an error.\<close>

definition paced_Read ::
  "(nat \<Rightarrow> wait_poll) \<Rightarrow> (nat \<Rightarrow> Bucket \<Rightarrow> Bucket) \<Rightarrow> (int \<Rightarrow> int \<times> bool) \<Rightarrow> int \<Rightarrow> Bucket \<Rightarrow> (Bucket \<times> int \<times> bool) option" where
  "paced_Read env others body p b =
     (let p = (if 0 < bk_rate b then (let c = pacedChunkFor (bk_rate b) in if c < p then c else p) else p)
      in case body p of
           (n, err) \<Rightarrow>
             if 0 < n
             then (case Wait env others n b of
                     None \<Rightarrow> None
                   | Some (b, WaitErr) \<Rightarrow> Some (b, n, True)
                   | Some (b, WaitOk) \<Rightarrow> Some (b, n, err))
             else Some (b, n, err))"

section \<open>The limiter\<close>

datatype MediaClass = MediaUnknown | MediaSSD | MediaHDD | MediaNetFS

definition dutyBusyCap :: duration where "dutyBusyCap = second"
definition dutyMaxRemain :: duration where "dutyMaxRemain = 700 * millisecond"
definition dutySleepSlice :: duration where "dutySleepSlice = 200 * millisecond"
definition dutySuspendGuard :: duration where "dutySuspendGuard = 500 * millisecond"
definition netFSDerate :: real where "netFSDerate = 14 / 10"
definition hddDerate :: real where "hddDerate = 2"
definition waitMinBuf :: int where "waitMinBuf = 256 * 1024"
definition waitMidBuf :: int where "waitMidBuf = 1024 * 1024"

record DutyCalc =
  lastTick :: "time option"
  lastRemain :: duration
  self :: "nat option"

record dutyWorker =
  dw_lastSeen :: time
  dw_lastRemain :: duration
  dw_swept :: bool

record DutyLimiter =
  d_level :: int
  d_media :: MediaClass
  d_ring :: windowRing
  d_workers :: "(nat \<times> nat) list"
  d_objs :: "dutyWorker list"

record DutyStats =
  Level :: int
  ActiveRatio :: real
  Workers :: nat
  SleepDebt :: duration
  Media :: MediaClass

definition clampLevel :: "int \<Rightarrow> int" where
  "clampLevel l = (if l < 0 then 0 else if 100 < l then 100 else l)"

definition NewDutyLimiter :: "int \<Rightarrow> MediaClass \<Rightarrow> DutyLimiter" where
  "NewDutyLimiter level media =
     \<lparr>d_level = clampLevel level, d_media = media, d_ring = newWindowRing 2, d_workers = [], d_objs = []\<rparr>"

definition SetLevel :: "int \<Rightarrow> DutyLimiter \<Rightarrow> DutyLimiter" where
  "SetLevel pct d = d\<lparr>d_level := clampLevel pct\<rparr>"

definition SetMedia :: "MediaClass \<Rightarrow> DutyLimiter \<Rightarrow> DutyLimiter" where
  "SetMedia m d = d\<lparr>d_media := m\<rparr>"

definition WriteChunkSize :: "int \<Rightarrow> DutyLimiter \<Rightarrow> int" where
  "WriteChunkSize normal d =
     (if 100 \<le> d_level d then normal else if 90 \<le> d_level d then waitMidBuf else waitMinBuf)"

definition duty_register :: "nat \<Rightarrow> time \<Rightarrow> DutyLimiter \<Rightarrow> DutyCalc \<Rightarrow> DutyLimiter \<times> DutyCalc" where
  "duty_register cid t d c =
     (let w = length (d_objs d)
      in (d\<lparr>d_objs := d_objs d @ [\<lparr>dw_lastSeen = t, dw_lastRemain = 0, dw_swept = False\<rparr>],
            d_workers := AList.update cid w (d_workers d)\<rparr>,
          c\<lparr>self := Some w\<rparr>))"

definition duty_account ::
  "nat \<Rightarrow> time \<Rightarrow> duration \<Rightarrow> duration \<Rightarrow> DutyLimiter \<Rightarrow> DutyCalc \<Rightarrow> DutyLimiter \<times> DutyCalc" where
  "duty_account cid t busy slept d c =
     (let d = d\<lparr>d_ring := ring_Add t 1 (busy + slept) (ring_Add t 0 busy (d_ring d))\<rparr>;
          (d, c) = (case self c of
                      None \<Rightarrow> duty_register cid t d c
                    | Some w \<Rightarrow> if dw_swept (d_objs d ! w) then duty_register cid t d c else (d, c));
          w = the (self c)
      in (d\<lparr>d_objs := (d_objs d)[w := (d_objs d ! w)\<lparr>dw_lastSeen := t, dw_lastRemain := lastRemain c\<rparr>]\<rparr>, c))"

text \<open>\<^verbatim>\<open>Stats\<close> sweeps the workers that have been silent for a window.\<close>

definition duty_Stats :: "time \<Rightarrow> DutyLimiter \<Rightarrow> DutyLimiter \<times> DutyStats" where
  "duty_Stats now d =
     (let busy = ring_Sum now 0 (d_ring d);
          wall = ring_Sum now 1 (d_ring d);
          cutoff = now - windowSecs * second;
          gone = filter (\<lambda>(c, w). dw_lastSeen (d_objs d ! w) < cutoff) (d_workers d);
          live = filter (\<lambda>(c, w). \<not> dw_lastSeen (d_objs d ! w) < cutoff) (d_workers d)
      in (d\<lparr>d_workers := live,
            d_objs := fold (\<lambda>(c, w) os. os[w := (os ! w)\<lparr>dw_swept := True\<rparr>]) gone (d_objs d)\<rparr>,
          \<lparr>Level = d_level d, ActiveRatio = (if 0 < wall then real_of_int busy / real_of_int wall else 0),
           Workers = length live, SleepDebt = sum_list (map (\<lambda>(c, w). dw_lastRemain (d_objs d ! w)) live),
           Media = d_media d\<rparr>))"

definition active_share :: "DutyLimiter \<Rightarrow> real" where
  "active_share d =
     (let active = real_of_int (d_level d) / 100
      in case d_media d of
           MediaNetFS \<Rightarrow> active / netFSDerate
         | MediaHDD \<Rightarrow> active / hddDerate
         | MediaUnknown \<Rightarrow> active / hddDerate
         | MediaSSD \<Rightarrow> active)"

text \<open>
  The sleep loop. \<open>sp_elapsed u\<close> is how long the sleeper really takes when asked for \<open>u\<close>, \<open>sp_ctx\<close> the check at the head of the
  loop, \<open>sp_err\<close> whether the sleep is cut by the context, \<open>sp_cur\<close> the clock after it.
\<close>

record sleep_poll =
  sp_ctx :: bool
  sp_elapsed :: "duration \<Rightarrow> duration"
  sp_err :: bool
  sp_cur :: time

datatype sleep_end = SleptOff | CtxErr | SleepErr

partial_function (option) sleep_loop ::
  "(nat \<Rightarrow> sleep_poll) \<Rightarrow> nat \<Rightarrow> duration \<Rightarrow> duration \<Rightarrow> (sleep_end \<times> nat \<times> duration \<times> duration) option" where
  "sleep_loop env k remain slept =
     (if remain \<le> 0 then Some (SleptOff, k, remain, slept)
      else if sp_ctx (env k) then Some (CtxErr, k, remain, slept)
      else
        (let unit = (if dutySleepSlice < remain then dutySleepSlice else millisecond);
             el = sp_elapsed (env k) unit;
             slept = slept + el;
             remain = remain - el;
             remain = (if remain < - dutySuspendGuard then 0 else remain)
         in if sp_err (env k) then Some (SleepErr, k, remain, slept) else sleep_loop env (k + 1) remain slept))"

text \<open>\<open>level k\<close> and \<open>ctxDone k\<close>: what the pause loop reads in round \<open>k\<close>.\<close>

partial_function (option) pause_loop :: "(nat \<Rightarrow> int) \<Rightarrow> (nat \<Rightarrow> bool) \<Rightarrow> nat \<Rightarrow> wait_result option" where
  "pause_loop level ctxDone k =
     (if level k \<noteq> 0 then Some WaitOk else if ctxDone k then Some WaitErr else pause_loop level ctxDone (k + 1))"

text \<open>\<open>de_others\<close> is what other goroutines do to the limiter while the worker sleeps, \<open>de_end\<close> the clock at the end.\<close>

record duty_env =
  de_sleep :: "nat \<Rightarrow> sleep_poll"
  de_level :: "nat \<Rightarrow> int"
  de_ctx :: "nat \<Rightarrow> bool"
  de_others :: "DutyLimiter \<Rightarrow> DutyLimiter"
  de_end :: time

definition duty_pause :: "duty_env \<Rightarrow> DutyLimiter \<Rightarrow> DutyCalc \<Rightarrow> (DutyLimiter \<times> DutyCalc \<times> wait_result \<times> duration) option" where
  "duty_pause env d c =
     (case pause_loop (de_level env) (de_ctx env) 0 of
        None \<Rightarrow> None
      | Some WaitErr \<Rightarrow> Some (de_others env d, c, WaitErr, 0)
      | Some WaitOk \<Rightarrow> Some (de_others env d, c\<lparr>lastTick := Some (de_end env)\<rparr>, WaitOk, 0))"

definition duty_debt :: "duration \<Rightarrow> real \<Rightarrow> duration" where
  "duty_debt busy active = trunc (real_of_int busy * (1 - active) / active)"

text \<open>\<^verbatim>\<open>Checkpoint\<close>; the last component is the time slept.\<close>

definition duty_Checkpoint ::
  "nat \<Rightarrow> duty_env \<Rightarrow> time \<Rightarrow> DutyLimiter \<Rightarrow> DutyCalc \<Rightarrow> (DutyLimiter \<times> DutyCalc \<times> wait_result \<times> duration) option" where
  "duty_Checkpoint cid env now d c =
     (if 100 \<le> d_level d then Some (d, c\<lparr>lastTick := Some now\<rparr>, WaitOk, 0)
      else if d_level d = 0 then duty_pause env d c
      else case lastTick c of
        None \<Rightarrow> (case duty_register cid now d (c\<lparr>lastTick := Some now\<rparr>) of (d, c) \<Rightarrow> Some (d, c, WaitOk, 0))
      | Some t \<Rightarrow>
          (let busy = now - t; c = c\<lparr>lastTick := Some now\<rparr>
           in if busy \<le> 0 then Some (d, c, WaitOk, 0)
              else
                (let busy = (if dutyBusyCap < busy then dutyBusyCap else busy);
                     remain = duty_debt busy (active_share d) + lastRemain c;
                     remain = (if dutyMaxRemain < remain then dutyMaxRemain else remain)
                 in case sleep_loop (de_sleep env) 0 remain 0 of
                      None \<Rightarrow> None
                    | Some (end, k, remain, slept) \<Rightarrow>
                        (let tick = (case end of SleptOff \<Rightarrow> Some (de_end env) | CtxErr \<Rightarrow> lastTick c
                                     | SleepErr \<Rightarrow> Some (sp_cur (de_sleep env k)));
                             c = c\<lparr>lastTick := tick, lastRemain := remain\<rparr>
                         in case duty_account cid now busy slept (de_others env d) c of
                              (d, c) \<Rightarrow> Some (d, c, if end = SleptOff then WaitOk else WaitErr, slept)))))"

section \<open>Sleeping off the debt\<close>

lemma pacedChunkFor_bounds: "pacedChunkMin \<le> pacedChunkFor rate \<and> pacedChunkFor rate \<le> pacedChunkMax"
  by (simp add: pacedChunkFor_def Let_def pacedChunkMin_def pacedChunkMax_def)

text \<open>A sleeper that sleeps at least as long as asked and not past the guard against clock jumps.\<close>

definition sound_sleeper :: "duty_env \<Rightarrow> bool" where
  "sound_sleeper env \<longleftrightarrow> (\<forall>k. \<not> sp_ctx (de_sleep env k) \<and> \<not> sp_err (de_sleep env k) \<and>
     (\<forall>u \<in> {millisecond, dutySleepSlice}. u \<le> sp_elapsed (de_sleep env k) u \<and> sp_elapsed (de_sleep env k) u \<le> dutySuspendGuard))"

lemma sleep_pays:
  assumes "sound_sleeper env"
  shows "\<exists>k' r s. sleep_loop (de_sleep env) k remain slept = Some (SleptOff, k', r, s) \<and> s + r = slept + remain \<and> r \<le> 0 \<and>
    (0 < remain \<longrightarrow> - dutySuspendGuard \<le> r)"
proof (induction "nat remain" arbitrary: k remain slept rule: less_induct)
  case less
  show ?case
  proof (cases "remain \<le> 0")
    case True
    then show ?thesis by (simp add: sleep_loop.simps [where k = k])
  next
    case False
    define el where "el = sp_elapsed (de_sleep env k) (if dutySleepSlice < remain then dutySleepSlice else millisecond)"
    have el: "0 < el" "el \<le> dutySuspendGuard"
      using assms by (auto simp: sound_sleeper_def el_def dutySleepSlice_def dutySuspendGuard_def millisecond_def dest: spec [of _ k])
    have step: "sleep_loop (de_sleep env) k remain slept = sleep_loop (de_sleep env) (k + 1) (remain - el) (slept + el)"
      using assms False el by (simp add: sleep_loop.simps [where k = k] el_def [symmetric] Let_def sound_sleeper_def)
    have "nat (remain - el) < nat remain" using el(1) False by simp
    from less.hyps [OF this, of "k + 1" "slept + el"] obtain k' r s where
      rest: "sleep_loop (de_sleep env) (k + 1) (remain - el) (slept + el) = Some (SleptOff, k', r, s)" "s + r = slept + remain" "r \<le> 0"
      "0 < remain - el \<longrightarrow> - dutySuspendGuard \<le> r" by auto
    have "r = remain - el" if "remain - el \<le> 0" using rest(1) that by (simp add: sleep_loop.simps [where k = "Suc k"])
    with rest el(2) False have "- dutySuspendGuard \<le> r" by (cases "remain - el \<le> 0") auto
    with rest step show ?thesis by simp
  qed
qed

lemma active_share_bounds: "0 < d_level d \<Longrightarrow> d_level d < 100 \<Longrightarrow> 0 < active_share d \<and> active_share d < 1"
  by (simp add: active_share_def Let_def netFSDerate_def hddDerate_def split: MediaClass.split)

lemma account_frame:
  "duty_account cid t busy slept d c = (d', c') \<Longrightarrow>
     d_level d' = d_level d \<and> d_media d' = d_media d \<and> lastTick c' = lastTick c \<and> lastRemain c' = lastRemain c"
  by (auto simp: duty_account_def duty_register_def Let_def split: option.splits if_splits)

lemma checkpoint_pays:
  assumes lvl: "0 < d_level d" "d_level d < 100" and c: "lastTick c = Some t" "t < now" "now - t \<le> dutyBusyCap"
    and env: "sound_sleeper env" "de_others env d = d" and cap: "duty_debt (now - t) (active_share d) + lastRemain c \<le> dutyMaxRemain"
  shows "\<exists>d' c' slept. duty_Checkpoint cid env now d c = Some (d', c', WaitOk, slept) \<and> lastTick c' = Some (de_end env) \<and>
    d_level d' = d_level d \<and> d_media d' = d_media d \<and> lastRemain c' \<le> 0 \<and>
    slept + lastRemain c' = duty_debt (now - t) (active_share d) + lastRemain c"
proof -
  let ?debt = "duty_debt (now - t) (active_share d) + lastRemain c"
  obtain k r s where sl: "sleep_loop (de_sleep env) 0 ?debt 0 = Some (SleptOff, k, r, s)" "s + r = ?debt" "r \<le> 0"
    using sleep_pays [OF env(1), of 0 ?debt 0] by auto
  obtain d' c' where ac: "duty_account cid now (now - t) s d (c\<lparr>lastTick := Some (de_end env), lastRemain := r\<rparr>) = (d', c')" by force
  have "duty_Checkpoint cid env now d c = Some (d', c', WaitOk, s)"
    using lvl c env(2) cap sl(1) ac by (simp add: duty_Checkpoint_def Let_def)
  then show ?thesis using account_frame [OF ac] sl(2,3) by simp
qed

text \<open>The cap bounds what one checkpoint sleeps, however long the disk was busy and however low the level is.\<close>

lemma checkpoint_sleep_capped:
  assumes "0 < d_level d" "d_level d < 100" "lastTick c = Some t" "t < now" "sound_sleeper env" "lastRemain c \<le> 0"
    and "duty_Checkpoint cid env now d c = Some (d', c', r, slept)"
  shows "slept \<le> dutyMaxRemain + dutySuspendGuard"
proof -
  define busy where "busy = (if dutyBusyCap < now - t then dutyBusyCap else now - t)"
  define owed where "owed = duty_debt busy (active_share d) + lastRemain c"
  define remain where "remain = (if dutyMaxRemain < owed then dutyMaxRemain else owed)"
  obtain k q s where sl: "sleep_loop (de_sleep env) 0 remain 0 = Some (SleptOff, k, q, s)" "s + q = remain" "q \<le> 0"
    "0 < remain \<longrightarrow> - dutySuspendGuard \<le> q" using sleep_pays [OF assms(5), of 0 remain 0] by auto
  have "remain \<le> dutyMaxRemain" by (simp add: remain_def)
  have "q = remain" if "remain \<le> 0" using sl(1) that by (simp add: sleep_loop.simps [where k = 0])
  then have "s \<le> dutyMaxRemain + dutySuspendGuard"
    using sl(2,4) \<open>remain \<le> dutyMaxRemain\<close>
    by (cases "remain \<le> 0") (auto simp: dutyMaxRemain_def dutySuspendGuard_def millisecond_def)
  moreover have rem: "(if dutyMaxRemain < duty_debt busy (active_share d) + lastRemain c then dutyMaxRemain
      else duty_debt busy (active_share d) + lastRemain c) = remain" by (simp add: remain_def owed_def)
  have "slept = s"
    using assms(1-4,7) sl(1) by (simp add: duty_Checkpoint_def Let_def busy_def [symmetric] rem split: prod.splits)
  ultimately show ?thesis by simp
qed

text \<open>A worker's checkpoints in a row: the time slept in all.\<close>

fun duty_run :: "nat \<Rightarrow> (duty_env \<times> time) list \<Rightarrow> DutyLimiter \<Rightarrow> DutyCalc \<Rightarrow> (DutyLimiter \<times> DutyCalc \<times> duration) option" where
  "duty_run cid [] d c = Some (d, c, 0)"
| "duty_run cid ((env, now) # xs) d c =
     (case duty_Checkpoint cid env now d c of
        None \<Rightarrow> None
      | Some (d, c, r, slept) \<Rightarrow>
          (case duty_run cid xs d c of None \<Rightarrow> None | Some (d, c, s) \<Rightarrow> Some (d, c, slept + s)))"

text \<open>The busy stretches of a run: from the end of one checkpoint to the start of the next.\<close>

fun busy_total :: "time \<Rightarrow> (duty_env \<times> time) list \<Rightarrow> duration" where
  "busy_total t [] = 0"
| "busy_total t ((env, now) # xs) = (now - t) + busy_total (de_end env) xs"

fun short_stretches :: "real \<Rightarrow> time \<Rightarrow> (duty_env \<times> time) list \<Rightarrow> bool" where
  "short_stretches a t [] \<longleftrightarrow> True"
| "short_stretches a t ((env, now) # xs) \<longleftrightarrow>
     t < now \<and> now - t \<le> dutyBusyCap \<and> real_of_int (now - t) * (1 - a) / a \<le> real_of_int dutyMaxRemain \<and>
     sound_sleeper env \<and> (\<forall>d. de_others env d = d) \<and> short_stretches a (de_end env) xs"

lemma duty_run_pays:
  assumes "0 < d_level d" "d_level d < 100" "lastTick c = Some t" "lastRemain c \<le> 0" "short_stretches (active_share d) t xs"
  shows "\<exists>d' c' s. duty_run cid xs d c = Some (d', c', s) \<and> lastRemain c' \<le> 0 \<and>
    real_of_int (busy_total t xs) * (1 - active_share d) / active_share d - length xs + real_of_int (lastRemain c) \<le>
      real_of_int s + real_of_int (lastRemain c')"
  using assms
proof (induction xs arbitrary: d c t)
  case (Cons x xs)
  obtain env now where x: "x = (env, now)" by force
  let ?a = "active_share d" and ?debt = "duty_debt (now - t) (active_share d)"
  have a: "0 < ?a" "?a < 1" using active_share_bounds Cons.prems(1,2) by auto
  have real_debt: "0 \<le> real_of_int (now - t) * (1 - ?a) / ?a" using Cons.prems(5) a by (simp add: x)
  have debt: "real_of_int ?debt \<le> real_of_int (now - t) * (1 - ?a) / ?a" "real_of_int (now - t) * (1 - ?a) / ?a - 1 \<le> real_of_int ?debt"
    using real_debt by (simp_all add: duty_debt_def trunc_def)
  have "real_of_int ?debt \<le> real_of_int dutyMaxRemain" using debt(1) Cons.prems(5) by (simp add: x)
  then have cap: "?debt + lastRemain c \<le> dutyMaxRemain" using Cons.prems(4) by linarith
  obtain d1 c1 slept where cp: "duty_Checkpoint cid env now d c = Some (d1, c1, WaitOk, slept)" "lastTick c1 = Some (de_end env)"
    "d_level d1 = d_level d" "d_media d1 = d_media d" "lastRemain c1 \<le> 0" "slept + lastRemain c1 = ?debt + lastRemain c"
    using checkpoint_pays [OF Cons.prems(1,2,3) _ _ _ _ cap, of env cid] Cons.prems(5) by (auto simp: x)
  have a1: "active_share d1 = ?a" using cp(3,4) by (simp add: active_share_def)
  obtain d' c' s where run: "duty_run cid xs d1 c1 = Some (d', c', s)" "lastRemain c' \<le> 0"
    "real_of_int (busy_total (de_end env) xs) * (1 - ?a) / ?a - length xs + real_of_int (lastRemain c1) \<le>
      real_of_int s + real_of_int (lastRemain c')"
    using Cons.IH [of d1 c1 "de_end env"] cp Cons.prems(1,2,5) by (auto simp: x a1)
  have "real_of_int (busy_total t (x # xs)) * (1 - ?a) / ?a =
      real_of_int (now - t) * (1 - ?a) / ?a + real_of_int (busy_total (de_end env) xs) * (1 - ?a) / ?a"
    by (simp add: x distrib_right add_divide_distrib del: of_int_diff)
  moreover have "real_of_int slept + real_of_int (lastRemain c1) = real_of_int ?debt + real_of_int (lastRemain c)"
    using cp(6) by (metis of_int_add)
  ultimately show ?case using run cp(1) debt(2) by (auto simp: x)
qed simp

text \<open>C33: The active-time ceiling is kept over time. For a worker whose busy stretches are short enough that no debt meets the cap, and a
  sleeper that sleeps at least as long as asked, every checkpoint returns, and over any number of them the busy time is at
  most the configured share of busy and slept time together, up to a nanosecond per checkpoint.\<close>

theorem duty_ceiling_kept:
  assumes "0 < d_level d" "d_level d < 100" "lastTick c = Some t" "lastRemain c = 0" "short_stretches (active_share d) t xs"
  shows "\<exists>d' c' s. duty_run cid xs d c = Some (d', c', s) \<and>
    real_of_int (busy_total t xs) \<le> active_share d * (real_of_int (busy_total t xs + s) + length xs)"
proof -
  let ?a = "active_share d" and ?b = "real_of_int (busy_total t xs)"
  have a: "0 < ?a" using active_share_bounds assms(1,2) by auto
  obtain d' c' s where run: "duty_run cid xs d c = Some (d', c', s)" "lastRemain c' \<le> 0"
    "?b * (1 - ?a) / ?a - length xs \<le> real_of_int s + real_of_int (lastRemain c')"
    using duty_run_pays [OF assms(1-3) _ assms(5), of cid] assms(4) by auto
  then have "?b * (1 - ?a) / ?a \<le> real_of_int s + length xs" by linarith
  then have "?b * (1 - ?a) \<le> ?a * (real_of_int s + length xs)" using a by (simp add: pos_divide_le_eq mult.commute)
  then have "?b \<le> ?a * (real_of_int (busy_total t xs + s) + length xs)" by (simp add: algebra_simps)
  with run(1) show ?thesis by blast
qed

definition demo_duty :: duty_env where
  "demo_duty = \<lparr>de_sleep = (\<lambda>k. \<lparr>sp_ctx = False, sp_elapsed = (\<lambda>u. u), sp_err = False, sp_cur = 0\<rparr>), de_level = (\<lambda>_. 1),
     de_ctx = (\<lambda>_. False), de_others = (\<lambda>d. d), de_end = second\<rparr>"

theorem duty_ceiling_kept_witness:
  "\<exists>d' c' s. duty_run 0 [(demo_duty, 100 * millisecond)] (NewDutyLimiter 50 MediaSSD)
       \<lparr>lastTick = Some 0, lastRemain = 0, self = None\<rparr> = Some (d', c', s) \<and>
     real_of_int (100 * millisecond) \<le> active_share (NewDutyLimiter 50 MediaSSD) * (real_of_int (100 * millisecond + s) + 1)"
  using duty_ceiling_kept [of "NewDutyLimiter 50 MediaSSD" "\<lparr>lastTick = Some 0, lastRemain = 0, self = None\<rparr>" 0
      "[(demo_duty, 100 * millisecond)]" 0]
  by (simp add: NewDutyLimiter_def clampLevel_def active_share_def sound_sleeper_def demo_duty_def dutySleepSlice_def
      dutySuspendGuard_def dutyBusyCap_def dutyMaxRemain_def time_units)

end
