(* ===== verification/Stats.thy ===== *)
theory Stats
  imports Throttle "HOL-Library.AList"
begin

text \<open>
  \<^verbatim>\<open>pkg/stats\<close>: the ring behind the windowed rates, and the registry of counters and connection gauges. The registry's
  maps are association lists; an operation is one step, as its locks make it. Seconds are after 1970.
\<close>

section \<open>The rate ring\<close>

definition windowSeconds :: int where "windowSeconds = 10"

record rateRing =
  buckets :: "int list"
  curSec :: int

definition zero_ring :: rateRing where
  "zero_ring = \<lparr>buckets = replicate (nat windowSeconds) 0, curSec = 0\<rparr>"

definition rotate_ring :: "int \<Rightarrow> rateRing \<Rightarrow> rateRing" where
  "rotate_ring nowSec r =
     (if nowSec \<le> curSec r then r
      else
        (let delta = min (nowSec - curSec r) windowSeconds
         in r\<lparr>buckets := fold (\<lambda>k bs. bs[nat ((curSec r + k) mod windowSeconds) := 0]) [1..delta] (buckets r),
              curSec := nowSec\<rparr>))"

definition rate_Add :: "int \<Rightarrow> int \<Rightarrow> rateRing \<Rightarrow> rateRing" where
  "rate_Add nowSec n r =
     (let r = rotate_ring nowSec r; i = nat (curSec r mod windowSeconds)
      in r\<lparr>buckets := (buckets r)[i := buckets r ! i + n]\<rparr>)"

definition rate_Rate :: "int \<Rightarrow> rateRing \<Rightarrow> rateRing \<times> real" where
  "rate_Rate nowSec r =
     (let r = rotate_ring nowSec r in (r, real_of_int (sum_list (buckets r)) / real_of_int windowSeconds))"

section \<open>The registry\<close>

definition registryAlpha :: real where "registryAlpha = 2 / 10"
definition registryPenalty :: real where "registryPenalty = 5 / 10"

record fileEntry =
  fe_done :: int
  fe_total :: int
  fe_conns :: int
  fe_ring :: rateRing
  fe_ema :: real
  fe_live :: "(string \<times> int) list"

record upstreamEntry =
  ue_bytes :: int
  ue_ema :: real
  ue_conns :: int
  ue_ring :: rateRing

record Registry =
  totalNetwork :: int
  totalSalvaged :: int
  rg_conns :: int
  rg_stalls :: int
  rg_retries :: int
  globalRing :: rateRing
  globalEMA :: real
  rg_files :: "(int \<times> fileEntry) list"
  rg_upstreams :: "(string \<times> upstreamEntry) list"

definition new_registry :: Registry where
  "new_registry = \<lparr>totalNetwork = 0, totalSalvaged = 0, rg_conns = 0, rg_stalls = 0, rg_retries = 0, globalRing = zero_ring,
     globalEMA = 0, rg_files = [], rg_upstreams = []\<rparr>"

definition new_file_entry :: fileEntry where
  "new_file_entry = \<lparr>fe_done = 0, fe_total = 0, fe_conns = 0, fe_ring = zero_ring, fe_ema = 0, fe_live = []\<rparr>"

definition new_upstream_entry :: upstreamEntry where
  "new_upstream_entry = \<lparr>ue_bytes = 0, ue_ema = 0, ue_conns = 0, ue_ring = zero_ring\<rparr>"

definition updateFile :: "int \<Rightarrow> (fileEntry \<Rightarrow> fileEntry) \<Rightarrow> Registry \<Rightarrow> Registry" where
  "updateFile fileID update r =
     (let f = (case map_of (rg_files r) fileID of None \<Rightarrow> new_file_entry | Some f \<Rightarrow> f)
      in r\<lparr>rg_files := AList.update fileID (update f) (rg_files r)\<rparr>)"

text \<open>\<^verbatim>\<open>upstream(name)\<close> creates the entry on first use; then the caller updates it.\<close>

definition update_upstream :: "string \<Rightarrow> (upstreamEntry \<Rightarrow> upstreamEntry) \<Rightarrow> Registry \<Rightarrow> Registry" where
  "update_upstream name update r =
     (let u = (case map_of (rg_upstreams r) name of None \<Rightarrow> new_upstream_entry | Some u \<Rightarrow> u)
      in r\<lparr>rg_upstreams := AList.update name (update u) (rg_upstreams r)\<rparr>)"

definition AddNetwork :: "int \<Rightarrow> int \<Rightarrow> Registry \<Rightarrow> Registry" where
  "AddNetwork nowSec n r = r\<lparr>totalNetwork := totalNetwork r + n, globalRing := rate_Add nowSec n (globalRing r)\<rparr>"

definition GlobalRate :: "int \<Rightarrow> Registry \<Rightarrow> Registry \<times> real" where
  "GlobalRate nowSec r = (case rate_Rate nowSec (globalRing r) of (ring, x) \<Rightarrow> (r\<lparr>globalRing := ring\<rparr>, x))"

definition AddFile :: "int \<Rightarrow> int \<Rightarrow> int \<Rightarrow> Registry \<Rightarrow> Registry" where
  "AddFile nowSec fileID n =
     updateFile fileID (\<lambda>f. f\<lparr>fe_done := fe_done f + n, fe_ring := rate_Add nowSec n (fe_ring f)\<rparr>)"

definition AddUpstream :: "int \<Rightarrow> string \<Rightarrow> int \<Rightarrow> Registry \<Rightarrow> Registry" where
  "AddUpstream nowSec name n =
     update_upstream name (\<lambda>u. u\<lparr>ue_bytes := ue_bytes u + n, ue_ring := rate_Add nowSec n (ue_ring u)\<rparr>)"

definition foldEMA :: "real \<Rightarrow> real \<Rightarrow> real" where
  "foldEMA sample old = registryAlpha * sample + (1 - registryAlpha) * old"

definition ReportUpstreamRate :: "string \<Rightarrow> real \<Rightarrow> Registry \<Rightarrow> Registry" where
  "ReportUpstreamRate name bps r =
     (let r = update_upstream name (\<lambda>u. u\<lparr>ue_ema := foldEMA bps (ue_ema u)\<rparr>) r
      in r\<lparr>globalEMA := foldEMA bps (globalEMA r)\<rparr>)"

definition ReportFileRate :: "int \<Rightarrow> real \<Rightarrow> Registry \<Rightarrow> Registry" where
  "ReportFileRate fileID bps = updateFile fileID (\<lambda>f. f\<lparr>fe_ema := foldEMA bps (fe_ema f)\<rparr>)"

definition PenalizeUpstream :: "string \<Rightarrow> Registry \<Rightarrow> Registry" where
  "PenalizeUpstream name = update_upstream name (\<lambda>u. u\<lparr>ue_ema := ue_ema u * registryPenalty\<rparr>)"

definition live_count :: "string \<Rightarrow> fileEntry \<Rightarrow> int" where
  "live_count u f = (case map_of (fe_live f) u of None \<Rightarrow> 0 | Some n \<Rightarrow> n)"

definition ConnStart :: "int \<Rightarrow> string \<Rightarrow> Registry \<Rightarrow> Registry" where
  "ConnStart fileID u r =
     (let r = updateFile fileID (\<lambda>f. f\<lparr>fe_conns := fe_conns f + 1, fe_live := AList.update u (live_count u f + 1) (fe_live f)\<rparr>) r;
          r = r\<lparr>rg_conns := rg_conns r + 1\<rparr>
      in update_upstream u (\<lambda>e. e\<lparr>ue_conns := ue_conns e + 1\<rparr>) r)"

definition subClamp :: "int \<Rightarrow> int \<Rightarrow> int" where
  "subClamp delta a = (if delta \<le> 0 then a else max (a - delta) 0)"

definition if_upstream :: "string \<Rightarrow> (upstreamEntry \<Rightarrow> upstreamEntry) \<Rightarrow> (string \<times> upstreamEntry) list \<Rightarrow> (string \<times> upstreamEntry) list" where
  "if_upstream u update ups = (case map_of ups u of None \<Rightarrow> ups | Some e \<Rightarrow> AList.update u (update e) ups)"

definition ConnEnd :: "int \<Rightarrow> string \<Rightarrow> Registry \<Rightarrow> Registry" where
  "ConnEnd fileID u r =
     (case map_of (rg_files r) fileID of
        None \<Rightarrow> r
      | Some f \<Rightarrow>
          (let n = live_count u f
           in if n \<le> 0 then r
              else
                (let lv = (if n = 1 then AList.delete u (fe_live f) else AList.update u (n - 1) (fe_live f))
                 in r\<lparr>rg_files := AList.update fileID (f\<lparr>fe_live := lv, fe_conns := subClamp 1 (fe_conns f)\<rparr>) (rg_files r),
                      rg_conns := subClamp 1 (rg_conns r),
                      rg_upstreams := if_upstream u (\<lambda>e. e\<lparr>ue_conns := subClamp 1 (ue_conns e)\<rparr>) (rg_upstreams r)\<rparr>)))"

definition AddStall :: "Registry \<Rightarrow> Registry" where "AddStall r = r\<lparr>rg_stalls := rg_stalls r + 1\<rparr>"
definition AddRetry :: "Registry \<Rightarrow> Registry" where "AddRetry r = r\<lparr>rg_retries := rg_retries r + 1\<rparr>"
definition AddSalvaged :: "int \<Rightarrow> Registry \<Rightarrow> Registry" where "AddSalvaged n r = r\<lparr>totalSalvaged := totalSalvaged r + n\<rparr>"

definition SetFileTotal :: "int \<Rightarrow> int \<Rightarrow> Registry \<Rightarrow> Registry" where
  "SetFileTotal fileID n = updateFile fileID (\<lambda>f. f\<lparr>fe_total := n\<rparr>)"

text \<open>The loop of \<^verbatim>\<open>RemoveFile\<close> over the live connections of the removed entry.\<close>

definition reconcile :: "(string \<times> int) list \<Rightarrow> (string \<times> upstreamEntry) list \<Rightarrow> (string \<times> upstreamEntry) list" where
  "reconcile = fold (\<lambda>(u, n). if_upstream u (\<lambda>e. e\<lparr>ue_conns := subClamp n (ue_conns e)\<rparr>))"

definition RemoveFile :: "int \<Rightarrow> Registry \<Rightarrow> Registry" where
  "RemoveFile fileID r =
     (case map_of (rg_files r) fileID of
        None \<Rightarrow> r
      | Some f \<Rightarrow>
          r\<lparr>rg_files := AList.delete fileID (rg_files r), rg_upstreams := reconcile (fe_live f) (rg_upstreams r),
            rg_conns := subClamp (sum_list (map snd (fe_live f))) (rg_conns r)\<rparr>)"

section \<open>Exactness of the ring\<close>

definition rate_total :: "int \<Rightarrow> (int \<times> int) list \<Rightarrow> int" where
  "rate_total s lg = sum_list (map snd (filter (\<lambda>e. fst e = s) lg))"

definition rate_rep :: "(int \<times> int) list \<Rightarrow> int \<Rightarrow> rateRing \<Rightarrow> bool" where
  "rate_rep lg t r \<longleftrightarrow> 0 \<le> curSec r \<and> curSec r \<le> t \<and> length (buckets r) = 10 \<and> (\<forall>e \<in> set lg. 0 \<le> fst e \<and> fst e \<le> curSec r) \<and>
     (\<forall>s \<in> {curSec r - 10<..curSec r}. buckets r ! nat (s mod 10) = rate_total s lg)"

lemma rate_total_none: "(\<And>e. e \<in> set lg \<Longrightarrow> fst e \<noteq> s) \<Longrightarrow> rate_total s lg = 0"
  by (simp add: rate_total_def filter_empty_conv)

lemma fold_zero:
  "i < length bs \<Longrightarrow> fold (\<lambda>k bs. bs[f k := 0]) ks bs ! i = (if i \<in> f ` set ks then 0 else bs ! i)"
  "length (fold (\<lambda>k bs. bs[f k := 0]) ks bs) = length bs"
  by (induction ks arbitrary: bs) (auto simp: nth_list_update)

lemma same_slot: "(a::int) mod 10 = b mod 10 \<Longrightarrow> \<bar>a - b\<bar> < 10 \<Longrightarrow> a = b"
  by presburger

lemma rotate_rep:
  assumes rep: "rate_rep lg t r" and now: "t \<le> now"
  shows "rate_rep lg now (rotate_ring now r)" "curSec (rotate_ring now r) = max (curSec r) now"
proof -
  have r: "0 \<le> curSec r" "curSec r \<le> t" "length (buckets r) = 10" "\<And>e. e \<in> set lg \<Longrightarrow> 0 \<le> fst e \<and> fst e \<le> curSec r"
    "\<And>s. curSec r - 10 < s \<Longrightarrow> s \<le> curSec r \<Longrightarrow> buckets r ! nat (s mod 10) = rate_total s lg"
    using rep by (auto simp: rate_rep_def)
  show "curSec (rotate_ring now r) = max (curSec r) now" by (simp add: rotate_ring_def Let_def)
  show "rate_rep lg now (rotate_ring now r)"
  proof (cases "now \<le> curSec r")
    case True
    then show ?thesis using rep now r(2) by (simp add: rotate_ring_def rate_rep_def)
  next
    case False
    define delta where "delta = min (now - curSec r) 10"
    define idx where "idx = (\<lambda>k. nat ((curSec r + k) mod 10))"
    have rot: "rotate_ring now r = r\<lparr>buckets := fold (\<lambda>k bs. bs[idx k := 0]) [1..delta] (buckets r), curSec := now\<rparr>"
      using False by (simp add: rotate_ring_def Let_def delta_def idx_def windowSeconds_def)
    have "buckets (rotate_ring now r) ! nat (s mod 10) = rate_total s lg" if s: "now - 10 < s" "s \<le> now" for s
    proof (cases "s \<le> curSec r")
      case True
      have "nat (s mod 10) \<notin> idx ` set [1..delta]"
      proof
        assume "nat (s mod 10) \<in> idx ` set [1..delta]"
        then obtain k where k: "1 \<le> k" "k \<le> delta" "nat (s mod 10) = nat ((curSec r + k) mod 10)" by (auto simp: idx_def)
        from k(3) have eq: "s mod 10 = (curSec r + k) mod 10" by simp
        have "k \<le> now - curSec r" using k(2) by (simp add: delta_def)
        then have "s = curSec r + k" using s(1) True k(1) by (intro same_slot [OF eq]) simp
        with k True show False by simp
      qed
      moreover have "buckets r ! nat (s mod 10) = rate_total s lg" by (rule r(5)) (use s True False in simp_all)
      ultimately show ?thesis using r(3) by (simp add: rot fold_zero)
    next
      case new: False
      have "\<exists>k. 1 \<le> k \<and> k \<le> delta \<and> (curSec r + k) mod 10 = s mod 10"
      proof (cases "s - curSec r \<le> 10")
        case True
        then show ?thesis using new s by (intro exI [of _ "s - curSec r"]) (simp add: delta_def)
      next
        case False
        have "(curSec r + 1 + (s - curSec r - 1) mod 10) mod 10 = (curSec r + 1 + (s - curSec r - 1)) mod 10"
          by (rule mod_add_right_eq)
        then have "(curSec r + (1 + (s - curSec r - 1) mod 10)) mod 10 = s mod 10" by (simp add: add.assoc)
        moreover have "1 + (s - curSec r - 1) mod 10 \<le> delta" using False s(2) by (simp add: delta_def)
        ultimately show ?thesis by (intro exI [of _ "1 + (s - curSec r - 1) mod 10"]) simp
      qed
      then obtain k where "1 \<le> k" "k \<le> delta" "(curSec r + k) mod 10 = s mod 10" by blast
      then have "nat (s mod 10) \<in> idx ` set [1..delta]" by (intro image_eqI [of _ _ k]) (simp_all add: idx_def)
      moreover have "rate_total s lg = 0"
      proof (rule rate_total_none)
        fix e assume "e \<in> set lg"
        from r(4) [OF this] new show "fst e \<noteq> s" by simp
      qed
      ultimately show ?thesis using r(3) by (simp add: rot fold_zero)
    qed
    then have "\<forall>s \<in> {now - 10<..now}. buckets (rotate_ring now r) ! nat (s mod 10) = rate_total s lg" by simp
    moreover have "\<forall>e \<in> set lg. 0 \<le> fst e \<and> fst e \<le> now" using rep False by (fastforce simp: rate_rep_def)
    ultimately show ?thesis using r(1,3) False by (simp add: rate_rep_def rot fold_zero(2))
  qed
qed

lemma rate_rep_add:
  assumes "rate_rep lg t r" "t \<le> sec"
  shows "rate_rep (lg @ [(sec, n)]) sec (rate_Add sec n r)"
proof -
  define q where "q = rotate_ring sec r"
  have cur: "curSec q = sec" using rotate_rep(2) [OF assms] assms by (simp add: q_def rate_rep_def)
  have q: "rate_rep lg sec q" using rotate_rep(1) [OF assms] by (simp add: q_def)
  have add: "rate_Add sec n r = q\<lparr>buckets := (buckets q)[nat (sec mod 10) := buckets q ! nat (sec mod 10) + n]\<rparr>"
    using cur by (simp add: rate_Add_def Let_def q_def [symmetric] windowSeconds_def)
  have total: "rate_total s (lg @ [(sec, n)]) = rate_total s lg + (if s = sec then n else 0)" for s by (simp add: rate_total_def)
  have "buckets (rate_Add sec n r) ! nat (s mod 10) = rate_total s (lg @ [(sec, n)])" if s: "sec - 10 < s" "s \<le> sec" for s
  proof -
    have "nat (s mod 10) = nat (sec mod 10) \<longleftrightarrow> s = sec"
    proof
      assume "nat (s mod 10) = nat (sec mod 10)"
      then have "s mod 10 = sec mod 10" by simp
      then show "s = sec" by (rule same_slot) (use s in simp)
    qed simp
    then show ?thesis using q s cur by (auto simp: add total rate_rep_def nth_list_update)
  qed
  then show ?thesis using q cur by (auto simp: rate_rep_def add)
qed

lemma rate_rep_sum:
  assumes "rate_rep lg t r" "t \<le> now"
  shows "sum_list (buckets (rotate_ring now r)) = window_sum fst snd now lg"
proof -
  define q where "q = rotate_ring now r"
  have q: "rate_rep lg now q" "curSec q = now" using rotate_rep [OF assms] assms by (simp_all add: q_def rate_rep_def)
  have at: "buckets q ! j = rate_total (now - (now - int j) mod 10) lg" if "j < 10" for j
  proof -
    define s where "s = now - (now - int j) mod 10"
    have s: "now - 10 < s" "s \<le> now" "nat (s mod 10) = j"
      using that by (simp_all add: s_def mod_diff_right_eq)
    then have "buckets q ! nat (s mod 10) = rate_total s lg" using q unfolding rate_rep_def by auto
    then show ?thesis using s(3) by (simp add: s_def)
  qed
  have "sum_list (buckets q) = (\<Sum>j<10. buckets q ! j)" using q by (simp add: rate_rep_def sum_list_sum_nth atLeast0LessThan)
  also have "\<dots> = (\<Sum>j<10. rate_total (now - (now - int j) mod 10) lg)" using at by simp
  also have "\<dots> = window_sum fst snd now lg"
    using window_slots [of "\<lambda>s. rate_total s lg" now] by (simp add: sum_by_second rate_total_def)
  finally show ?thesis by (simp add: q_def)
qed

interpretation rate: window_counter fst snd "\<lambda>_. True" zero_ring "\<lambda>e. rate_Add (fst e) (snd e)"
    "\<lambda>now r. fst (rate_Rate now r)" "\<lambda>now r. sum_list (buckets (fst (rate_Rate now r)))" rate_rep
proof (unfold_locales, goal_cases)
  case 1
  have "nat (s mod 10) < 10" for s :: int by simp
  then show ?case by (simp add: rate_rep_def zero_ring_def windowSeconds_def rate_total_def)
next
  case (2 lg t r e)
  then show ?case using rate_rep_add [of lg t r "fst e" "snd e"] by simp
next
  case (3 lg t r n)
  then show ?case using rotate_rep(1) by (simp add: rate_Rate_def Let_def)
next
  case (4 lg t r n)
  then show ?case using rate_rep_sum by (simp add: rate_Rate_def Let_def)
qed

section \<open>The connection gauges\<close>

definition asum :: "('v \<Rightarrow> int) \<Rightarrow> ('k \<times> 'v) list \<Rightarrow> int" where
  "asum g xs = sum_list (map (\<lambda>(k, x). g x) xs)"

lemma asum_update:
  "asum g (AList.update k v xs) = asum g xs - (case map_of xs k of None \<Rightarrow> 0 | Some y \<Rightarrow> g y) + g v"
  by (induction xs) (auto simp: asum_def)

lemma asum_delete:
  "distinct (map fst xs) \<Longrightarrow> asum g (AList.delete k xs) = asum g xs - (case map_of xs k of None \<Rightarrow> 0 | Some y \<Rightarrow> g y)"
proof (induction xs)
  case (Cons x xs)
  obtain k' y where x: "x = (k', y)" by force
  show ?case
  proof (cases "k' = k")
    case True
    then have "AList.delete k xs = xs" using Cons.prems by (simp add: x delete_id)
    with True show ?thesis by (simp add: x asum_def)
  next
    case False
    with Cons show ?thesis by (simp add: x asum_def)
  qed
qed (simp add: asum_def)

lemma asum_nonneg: "(\<And>k x. (k, x) \<in> set xs \<Longrightarrow> 0 \<le> g x) \<Longrightarrow> 0 \<le> asum g xs"
  by (induction xs) (force simp: asum_def)+

lemma asum_member:
  assumes "\<And>k x. (k, x) \<in> set xs \<Longrightarrow> 0 \<le> g x" "map_of xs k = Some y"
  shows "g y \<le> asum g xs"
  using assms
proof (induction xs)
  case (Cons p xs)
  obtain k' x where p: "p = (k', x)" by force
  have "0 \<le> asum g xs" by (rule asum_nonneg) (use Cons.prems(1) in force)
  moreover have "0 \<le> g x" using Cons.prems(1) [of k' x] by (simp add: p)
  moreover have "map_of xs k = Some y \<Longrightarrow> g y \<le> asum g xs" using Cons.IH Cons.prems(1) by force
  ultimately show ?case using Cons.prems(2) by (fastforce simp: p asum_def split: if_splits)
qed simp

definition uconns :: "(string \<times> upstreamEntry) list \<Rightarrow> string \<Rightarrow> int" where
  "uconns ups u = (case map_of ups u of None \<Rightarrow> 0 | Some e \<Rightarrow> ue_conns e)"

definition entry_ok :: "fileEntry \<Rightarrow> bool" where
  "entry_ok f \<longleftrightarrow> distinct (map fst (fe_live f)) \<and> (\<forall>u n. map_of (fe_live f) u = Some n \<longrightarrow> 0 < n) \<and> fe_conns f = asum id (fe_live f)"

definition registry_ok :: "Registry \<Rightarrow> bool" where
  "registry_ok r \<longleftrightarrow> distinct (map fst (rg_files r)) \<and> (\<forall>i f. map_of (rg_files r) i = Some f \<longrightarrow> entry_ok f) \<and>
     rg_conns r = asum fe_conns (rg_files r) \<and> (\<forall>u. uconns (rg_upstreams r) u = asum (live_count u) (rg_files r))"

lemma entry_okD:
  assumes "entry_ok f"
  shows "0 \<le> live_count u f" "live_count u f \<le> fe_conns f" "0 \<le> fe_conns f"
proof -
  have pos: "0 \<le> id n" if "(k, n) \<in> set (fe_live f)" for k n
    using assms that by (fastforce simp: entry_ok_def)
  have conns: "fe_conns f = asum id (fe_live f)" using assms by (simp add: entry_ok_def)
  show "0 \<le> live_count u f" using assms by (force simp: live_count_def entry_ok_def split: option.split)
  show "0 \<le> fe_conns f" unfolding conns by (rule asum_nonneg) (rule pos)
  then show "live_count u f \<le> fe_conns f"
    using asum_member [of "fe_live f" id u, OF pos] conns by (auto simp: live_count_def split: option.split)
qed

lemma entry_ok_new: "entry_ok new_file_entry" "live_count u new_file_entry = 0" "fe_conns new_file_entry = 0"
  by (simp_all add: entry_ok_def new_file_entry_def asum_def live_count_def)

lemma uconns_update: "uconns (AList.update u e ups) v = (if v = u then ue_conns e else uconns ups v)"
  by (simp add: uconns_def update_conv')

text \<open>An update of one file entry by \<open>d\<close> connections to \<open>u\<close>, with the gauges moved along.\<close>

lemma registry_ok_entry:
  assumes ok: "registry_ok r" and f: "f = (case map_of (rg_files r) i of None \<Rightarrow> new_file_entry | Some f \<Rightarrow> f)"
    and g: "entry_ok g" "fe_conns g = fe_conns f + d" "\<And>v. live_count v g = live_count v f + (if v = u then d else 0)"
    and r': "rg_files r' = AList.update i g (rg_files r)" "rg_conns r' = rg_conns r + d"
      "\<And>v. uconns (rg_upstreams r') v = uconns (rg_upstreams r) v + (if v = u then d else 0)"
  shows "registry_ok r'"
proof -
  have "asum fe_conns (rg_files r') = asum fe_conns (rg_files r) + d"
    using f g(2) by (auto simp: r' asum_update entry_ok_new(3) split: option.splits)
  moreover have "asum (live_count v) (rg_files r') = asum (live_count v) (rg_files r) + (if v = u then d else 0)" for v
    using f g(3) [of v] by (auto simp: r' asum_update entry_ok_new(2) split: option.splits)
  moreover have "distinct (map fst (rg_files r'))" using ok by (simp add: r' registry_ok_def distinct_update)
  moreover have "\<forall>j h. map_of (rg_files r') j = Some h \<longrightarrow> entry_ok h"
    using ok g(1) by (auto simp: r' registry_ok_def update_conv')
  ultimately show ?thesis using ok r'(2,3) by (simp add: registry_ok_def)
qed

lemma the_entry_ok:
  "registry_ok r \<Longrightarrow> entry_ok (case map_of (rg_files r) i of None \<Rightarrow> new_file_entry | Some f \<Rightarrow> f)"
  by (auto simp: registry_ok_def entry_ok_new split: option.split)

lemma updateFile_ok:
  assumes "registry_ok r" "\<And>f. fe_conns (upd f) = fe_conns f \<and> fe_live (upd f) = fe_live f"
  shows "registry_ok (updateFile i upd r)"
proof -
  let ?f = "case map_of (rg_files r) i of None \<Rightarrow> new_file_entry | Some f \<Rightarrow> f"
  show ?thesis
    by (rule registry_ok_entry [OF assms(1) refl, of "upd ?f" i 0 "[]"])
      (use the_entry_ok [OF assms(1), of i] assms(2) in \<open>auto simp: entry_ok_def live_count_def updateFile_def Let_def\<close>)
qed

lemma update_upstream_ok:
  assumes "registry_ok r" "\<And>e. ue_conns (upd e) = ue_conns e"
  shows "registry_ok (update_upstream u upd r)"
proof -
  have "uconns (rg_upstreams (update_upstream u upd r)) v = uconns (rg_upstreams r) v" for v
    by (simp add: update_upstream_def Let_def uconns_update assms(2)) (simp add: uconns_def new_upstream_entry_def split: option.split)
  then show ?thesis using assms(1) by (simp add: registry_ok_def) (simp add: update_upstream_def Let_def)
qed

lemma reconcile_conns:
  assumes "distinct (map fst lv)" "\<And>u n. (u, n) \<in> set lv \<Longrightarrow> 0 < n \<and> n \<le> uconns ups u"
  shows "uconns (reconcile lv ups) v = uconns ups v - (case map_of lv v of None \<Rightarrow> 0 | Some n \<Rightarrow> n)"
  using assms
proof (induction lv arbitrary: ups)
  case (Cons x lv)
  obtain u n where x: "x = (u, n)" by force
  define ups1 where "ups1 = if_upstream u (\<lambda>e. e\<lparr>ue_conns := subClamp n (ue_conns e)\<rparr>) ups"
  have n: "0 < n" "n \<le> uconns ups u" using Cons.prems(2) [of u n] by (simp_all add: x)
  then have ups1: "uconns ups1 w = (if w = u then uconns ups u - n else uconns ups w)" for w
    by (auto simp: ups1_def if_upstream_def uconns_def update_conv' subClamp_def split: option.splits)
  have notin: "u \<notin> fst ` set lv" using Cons.prems(1) by (simp add: x)
  have "uconns (reconcile lv ups1) v = uconns ups1 v - (case map_of lv v of None \<Rightarrow> 0 | Some n \<Rightarrow> n)"
  proof (rule Cons.IH)
    fix w m assume "(w, m) \<in> set lv"
    moreover from this notin have "w \<noteq> u" by force
    ultimately show "0 < m \<and> m \<le> uconns ups1 w" using Cons.prems(2) [of w m] by (simp add: ups1)
  qed (use Cons.prems(1) in simp)
  moreover have "reconcile (x # lv) ups = reconcile lv ups1" by (simp add: reconcile_def x ups1_def)
  moreover have "map_of lv u = None" using notin by (simp add: map_of_eq_None_iff)
  ultimately show ?case by (auto simp: x ups1)
qed (simp add: reconcile_def)

lemma ConnStart_ok:
  assumes ok: "registry_ok r"
  shows "registry_ok (ConnStart i u r)"
proof -
  define f where "f = (case map_of (rg_files r) i of None \<Rightarrow> new_file_entry | Some f \<Rightarrow> f)"
  define g where "g = f\<lparr>fe_conns := fe_conns f + 1, fe_live := AList.update u (live_count u f + 1) (fe_live f)\<rparr>"
  have f: "entry_ok f" using the_entry_ok [OF ok, of i] by (simp add: f_def)
  have "asum id (fe_live g) = asum id (fe_live f) + 1"
    by (simp add: g_def asum_update live_count_def split: option.split)
  moreover have "0 < live_count u f + 1" using entry_okD(1) [OF f, of u] by simp
  ultimately have g: "entry_ok g" using f by (auto simp: entry_ok_def g_def distinct_update update_conv')
  have cnt: "live_count v g = live_count v f + (if v = u then 1 else 0)" for v
    by (simp add: g_def live_count_def update_conv')
  show ?thesis
    by (rule registry_ok_entry [OF ok f_def g _ cnt])
      (simp_all add: g_def ConnStart_def updateFile_def update_upstream_def f_def [symmetric] Let_def uconns_update,
       simp add: uconns_def new_upstream_entry_def split: option.split)
qed

lemma registry_members:
  assumes ok: "registry_ok r" and f: "map_of (rg_files r) i = Some f"
  shows "entry_ok f" "fe_conns f \<le> rg_conns r" "live_count u f \<le> uconns (rg_upstreams r) u"
proof -
  have entry: "entry_ok h" if "(k, h) \<in> set (rg_files r)" for k h using ok that by (simp add: registry_ok_def)
  show "entry_ok f" using ok f by (simp add: registry_ok_def)
  have "fe_conns f \<le> asum fe_conns (rg_files r)" by (rule asum_member [OF _ f]) (rule entry_okD(3) [OF entry])
  then show "fe_conns f \<le> rg_conns r" using ok by (simp add: registry_ok_def)
  have "live_count u f \<le> asum (live_count u) (rg_files r)" by (rule asum_member [OF _ f]) (rule entry_okD(1) [OF entry])
  then show "live_count u f \<le> uconns (rg_upstreams r) u" using ok by (simp add: registry_ok_def)
qed

lemma ConnEnd_ok:
  assumes ok: "registry_ok r"
  shows "registry_ok (ConnEnd i u r)"
proof (cases "map_of (rg_files r) i")
  case None
  then show ?thesis using ok by (simp add: ConnEnd_def)
next
  case (Some f)
  show ?thesis
  proof (cases "live_count u f \<le> 0")
    case True
    then show ?thesis using ok Some by (simp add: ConnEnd_def)
  next
    case False
    let ?n = "live_count u f"
    define lv where "lv = (if ?n = 1 then AList.delete u (fe_live f) else AList.update u (?n - 1) (fe_live f))"
    define g where "g = f\<lparr>fe_live := lv, fe_conns := subClamp 1 (fe_conns f)\<rparr>"
    note f = registry_members(1) [OF ok Some] and le = registry_members(2,3) [OF ok Some]
    have live: "map_of (fe_live f) u = Some ?n" using False by (auto simp: live_count_def split: option.splits)
    have conns: "subClamp 1 (fe_conns f) = fe_conns f - 1" using entry_okD(2) [OF f, of u] False by (simp add: subClamp_def)
    have "asum id lv = asum id (fe_live f) - 1" using f live by (simp add: lv_def asum_update asum_delete entry_ok_def)
    then have fields: "fe_live g = lv" "fe_conns g = asum id lv" using f conns by (simp_all add: g_def entry_ok_def)
    have "distinct (map fst lv)" using f by (simp add: lv_def entry_ok_def distinct_update distinct_delete)
    moreover have "\<forall>v m. map_of lv v = Some m \<longrightarrow> 0 < m"
    proof (intro allI impI)
      fix v m assume "map_of lv v = Some m"
      then have "v = u \<and> m = ?n - 1 \<and> ?n \<noteq> 1 \<or> map_of (fe_live f) v = Some m"
        by (auto simp: lv_def update_conv' delete_conv' split: if_splits)
      then show "0 < m" using f False unfolding entry_ok_def by fastforce
    qed
    ultimately have g: "entry_ok g" unfolding entry_ok_def fields by blast
    have cnt: "live_count v g = live_count v f + (if v = u then - 1 else 0)" for v
      using live by (simp add: g_def lv_def live_count_def update_conv' delete_conv')
    have all: "subClamp 1 (rg_conns r) = rg_conns r - 1"
      using le(1) entry_okD(2) [OF f, of u] False by (simp add: subClamp_def)
    have ups: "uconns (if_upstream u (\<lambda>e. e\<lparr>ue_conns := subClamp 1 (ue_conns e)\<rparr>) (rg_upstreams r)) v =
        uconns (rg_upstreams r) v + (if v = u then - 1 else 0)" for v
      using False le(2) [of u] by (auto simp: if_upstream_def uconns_def update_conv' subClamp_def split: option.splits)
    show ?thesis
      by (rule registry_ok_entry [OF ok _ g _ cnt, where i = i])
        (use Some False in \<open>simp_all add: g_def conns ConnEnd_def all ups lv_def Let_def\<close>)
  qed
qed

lemma RemoveFile_ok:
  assumes ok: "registry_ok r"
  shows "registry_ok (RemoveFile i r)"
proof (cases "map_of (rg_files r) i")
  case None
  then show ?thesis using ok by (simp add: RemoveFile_def)
next
  case (Some f)
  note f = registry_members(1) [OF ok Some] and le = registry_members(3) [OF ok Some]
  have d: "distinct (map fst (rg_files r))" using ok by (simp add: registry_ok_def)
  have "uconns (reconcile (fe_live f) (rg_upstreams r)) u = uconns (rg_upstreams r) u - live_count u f" for u
    unfolding live_count_def
  proof (rule reconcile_conns)
    show "distinct (map fst (fe_live f))" using f by (simp add: entry_ok_def)
    fix v n assume "(v, n) \<in> set (fe_live f)"
    then have "map_of (fe_live f) v = Some n" using f by (simp add: entry_ok_def)
    then show "0 < n \<and> n \<le> uconns (rg_upstreams r) v" using f le [of v] by (auto simp: entry_ok_def live_count_def)
  qed
  moreover have "subClamp (sum_list (map snd (fe_live f))) (rg_conns r) = rg_conns r - fe_conns f"
  proof -
    have "sum_list (map snd (fe_live f)) = fe_conns f" using f by (simp add: entry_ok_def asum_def case_prod_unfold)
    moreover have "fe_conns f \<le> rg_conns r" by (rule registry_members(2) [OF ok Some])
    ultimately show ?thesis using entry_okD(3) [OF f] by (simp add: subClamp_def)
  qed
  moreover have "\<forall>j h. map_of (AList.delete i (rg_files r)) j = Some h \<longrightarrow> entry_ok h"
    using ok by (auto simp: registry_ok_def delete_conv' split: if_splits)
  ultimately show ?thesis
    using ok d Some by (simp add: registry_ok_def RemoveFile_def asum_delete distinct_delete)
qed

inductive registry_step :: "Registry \<Rightarrow> Registry \<Rightarrow> bool" where
  "registry_step r (AddNetwork now n r)"
| "registry_step r (fst (GlobalRate now r))"
| "registry_step r (AddFile now i n r)"
| "registry_step r (AddUpstream now u n r)"
| "registry_step r (ReportUpstreamRate u bps r)"
| "registry_step r (ReportFileRate i bps r)"
| "registry_step r (PenalizeUpstream u r)"
| "registry_step r (ConnStart i u r)"
| "registry_step r (ConnEnd i u r)"
| "registry_step r (AddStall r)"
| "registry_step r (AddRetry r)"
| "registry_step r (AddSalvaged n r)"
| "registry_step r (SetFileTotal i n r)"
| "registry_step r (RemoveFile i r)"

lemma registry_ok_fields:
  "registry_ok r \<Longrightarrow> rg_files r' = rg_files r \<Longrightarrow> rg_upstreams r' = rg_upstreams r \<Longrightarrow> rg_conns r' = rg_conns r \<Longrightarrow> registry_ok r'"
  by (simp add: registry_ok_def)

interpretation registry: step_invariant registry_step registry_ok
proof
  show "registry_ok t" if "registry_step s t" and ok: "registry_ok s" for s t
    using that(1)
  proof cases
    case (5 u bps)
    have "registry_ok (update_upstream u (\<lambda>e. e\<lparr>ue_ema := foldEMA bps (ue_ema e)\<rparr>) s)" by (rule update_upstream_ok [OF ok]) simp
    then show ?thesis unfolding 5 by (rule registry_ok_fields) (simp_all add: ReportUpstreamRate_def Let_def)
  next
    case (8 i u)
    then show ?thesis using ConnStart_ok [OF ok] by simp
  next
    case (9 i u)
    then show ?thesis using ConnEnd_ok [OF ok] by simp
  next
    case (14 i)
    then show ?thesis using RemoveFile_ok [OF ok] by simp
  qed (auto simp: AddNetwork_def GlobalRate_def AddStall_def AddRetry_def AddSalvaged_def AddFile_def AddUpstream_def ReportFileRate_def
      PenalizeUpstream_def SetFileTotal_def split: prod.splits intro!: registry_ok_fields [OF ok] updateFile_ok [OF ok] update_upstream_ok [OF ok])
qed

lemma in_order_recorded:
  "in_order sec ok t ops u \<Longrightarrow> sorted (map sec (recorded ops)) \<and> (\<forall>e \<in> set (recorded ops). t \<le> sec e \<and> sec e \<le> u) \<and> t \<le> u"
proof (induction ops arbitrary: t)
  case (Cons op ops)
  then show ?case by (cases op) (force+)
qed simp

lemma ring_same_entries:
  assumes "sorted (map fst es)" "\<forall>e \<in> set es. 0 \<le> fst e \<and> fst e \<le> now" "0 \<le> now"
  shows "ring_Sum (now * second) 0 (fold (\<lambda>(s, v). ring_Add (s * second) 0 v) es (newWindowRing 1)) =
    sum_list (map snd (filter (\<lambda>(s, v). now - 10 < s) es))"
proof -
  let ?es = "map (\<lambda>(s, v). (s * second, 0 :: nat, v)) es"
  have unix: "Unix (s * second) = s" for s by (simp add: Unix_def second_def)
  have secs: "map entry_sec ?es = map fst es" by (simp add: unix comp_def case_prod_unfold)
  have "ring_Sum (now * second) 0 (fold (\<lambda>(s, i, v). ring_Add s i v) ?es (newWindowRing 1)) =
      sum_list (map (\<lambda>(s, i, v). v) (filter (\<lambda>(s, i, v). i = 0 \<and> Unix (now * second) - windowSecs < Unix s) ?es))"
  proof (rule window_ring_exact)
    show "sorted (map entry_sec ?es)" unfolding secs by (rule assms(1))
  qed (use assms(2,3) in \<open>auto simp: second_def\<close>)
  moreover have "fold (\<lambda>(s, i, v). ring_Add s i v) ?es r = fold (\<lambda>(s, v). ring_Add (s * second) 0 v) es r" for r
    by (induction es arbitrary: r) auto
  moreover have "map (\<lambda>(s, i, v). v) (filter (\<lambda>(s, i, v). i = 0 \<and> Unix (now * second) - windowSecs < Unix s) ?es) =
      map snd (filter (\<lambda>(s, v). now - 10 < s) es)" by (induction es) (auto simp: unix windowSecs_def)
  ultimately show ?thesis by simp
qed

section \<open>Properties\<close>

text \<open>C35: The two rings agree. With a clock that does not go back, and whatever rates are read in between, the rate ring reports what was
  recorded in the last ten seconds, which is what the ring of the throttle reports for the same entries.\<close>

theorem rate_rings_agree:
  assumes "in_order fst (\<lambda>_. True) 0 ops now"
  defines "r \<equiv> run_counter (\<lambda>e. rate_Add (fst e) (snd e)) (\<lambda>t r. fst (rate_Rate t r)) ops zero_ring"
    and "w \<equiv> fold (\<lambda>(s, v). ring_Add (s * second) 0 v) (recorded ops) (newWindowRing 1)"
  shows "snd (rate_Rate now r) = real_of_int (sum_list (map snd (filter (\<lambda>(s, v). now - 10 < s) (recorded ops)))) / 10 \<and>
    snd (rate_Rate now r) = real_of_int (ring_Sum (now * second) 0 w) / 10"
proof -
  have ord: "sorted (map fst (recorded ops))" "\<forall>e \<in> set (recorded ops). 0 \<le> fst e \<and> fst e \<le> now" "0 \<le> now"
    using in_order_recorded [OF assms(1)] by simp_all
  have "window_sum fst snd now es = sum_list (map snd (filter (\<lambda>(s, v). now - 10 < s) es))"
    if "\<forall>e \<in> set es. fst e \<le> now" for es
    using that by (induction es) (auto simp: window_sum_def windowSecs_def)
  then have sum: "window_sum fst snd now (recorded ops) = sum_list (map snd (filter (\<lambda>(s, v). now - 10 < s) (recorded ops)))"
    using ord(2) by blast
  have "ring_Sum (now * second) 0 w = sum_list (map snd (filter (\<lambda>(s, v). now - 10 < s) (recorded ops)))"
    unfolding w_def by (rule ring_same_entries [OF ord])
  then show ?thesis
    using rate.reading_exact [OF assms(1)] sum by (simp add: r_def rate_Rate_def Let_def windowSeconds_def)
qed

theorem rate_rings_agree_witness:
  "let ops = [Record (1, 7), ReadAt 3, Record (4, 5), Record (11, 2)];
       r = run_counter (\<lambda>e. rate_Add (fst e) (snd e)) (\<lambda>t r. fst (rate_Rate t r)) ops zero_ring
   in in_order fst (\<lambda>_. True) 0 ops 12 \<and> snd (rate_Rate 12 r) = 7 / 10"
  using rate_rings_agree [of "[Record (1, 7), ReadAt 3, Record (4, 5), Record (11, 2)]" 12] by simp



end
