(* ===== verification/Spec2Isabelle.thy ===== *)
theory Spec2Isabelle
  imports Serde Store_Props Http_Source Block_Stream Stall Downloader Leaser Duty Stats
begin

text \<open>
  Verification of hfdl, a resumable multi-connection downloader for model hubs (Go sources under
  \<^verbatim>\<open>src/\<close>).

  \<^bold>\<open>The program.\<close> A scheduler (\<^verbatim>\<open>pkg/sched\<close>) keeps jobs, files and blocks in a SQLite state database
  (\<^verbatim>\<open>pkg/store\<close>). Work is claimed by leases: a claim writes an owner, a fresh token and an expiry into the row,
  every later statement on the row is guarded by the token, and \<^verbatim>\<open>Recover\<close> takes expired rows back. For a
  file in \<^verbatim>\<open>downloading\<close> the scheduler runs the transfer engine (\<^verbatim>\<open>pkg/transfer\<close>): workers lease blocks through an
  adapter (\<^verbatim>\<open>sched/leaser.go\<close>), open ranged requests on one of several upstreams (\<^verbatim>\<open>source.go\<close>), stream the body
  through an aligned write path into the file (\<^verbatim>\<open>worker.go\<close>) and record the flushed ranges in an interval set
  (\<^verbatim>\<open>interval.go\<close>), which a checkpointer persists after an fsync (\<^verbatim>\<open>checkpoint.go\<close>, \<^verbatim>\<open>interval_serde.go\<close>).
  A stall monitor kills slow connections (\<^verbatim>\<open>stall.go\<close>, \<^verbatim>\<open>killgate.go\<close>); a controller tunes the number of
  connections (\<^verbatim>\<open>pkg/tune\<close>, \<^verbatim>\<open>sched/autotune.go\<close>); a full disk pauses everything (\<^verbatim>\<open>sched/gates.go\<close>).
  Buckets pace requests and bandwidth and a limiter the disk (\<^verbatim>\<open>pkg/throttle\<close>); a registry keeps rates and connection
  gauges (\<^verbatim>\<open>pkg/stats\<close>), which the controller and the kill gate read.

  \<^bold>\<open>Conventions.\<close> A Go \<^verbatim>\<open>int64\<close> or \<^verbatim>\<open>int\<close> is an \<^typ>\<open>int\<close>, with the bounds of the type written out where the code
  depends on them; \<^verbatim>\<open>uint64\<close> is a 64-bit word and a byte an 8-bit word. Times and durations are nanoseconds. A
  \<^verbatim>\<open>float64\<close> is a \<^typ>\<open>real\<close>: rounding is not modelled. A zero \<^verbatim>\<open>time.Time\<close> that stands for \<^emph>\<open>never\<close> is \<open>None\<close>. A
  SQL table is a list of rows in rowid order, a statement a function on it. Fallible operations return a sum
  or an option. What the program reads from outside is an argument: the clock, random draws, responses of servers,
  outcomes of writes, what other goroutines do at a point where the lock is not held. Logging, metrics and
  tracing have no effect in the model.

  \<^bold>\<open>Theories.\<close>

  \<^item> \<open>Prelude\<close>: Go slices and copy, \<^verbatim>\<open>sort.Search\<close>, varints, and the locale \<open>step_invariant\<close> for invariants of step
    relations, interpreted in each theory that has one.
  \<^item> \<open>Intervals\<close> (\<^verbatim>\<open>transfer/interval.go\<close>): \<^verbatim>\<open>IntervalSet\<close> with \<^verbatim>\<open>Add\<close>, \<^verbatim>\<open>Missing\<close>, \<^verbatim>\<open>contains\<close>, \<^verbatim>\<open>total\<close>, \<^verbatim>\<open>clone\<close>. The
    representation is kept sorted, disjoint and coalesced; every operation is exact on the covered bytes.
  \<^item> \<open>Serde\<close> (\<^verbatim>\<open>transfer/interval_serde.go\<close>, the salvage record of \<^verbatim>\<open>sched/disk.go\<close>): the progress blob on bytes and
    64-bit words. Decoding inverts encoding, and every accepted blob is a well-formed set.
  \<^item> \<open>Store_Model\<close>, \<open>Store_Ops\<close> (\<^verbatim>\<open>pkg/store\<close>): rows, statements, and every operation that changes state.
    \<open>Store_Inv\<close>: keys, lease columns and statuses agree in every reachable database. \<open>Store_Safety\<close>: a token that
    lost its row never guards it again. \<open>Store_Props\<close>: the properties of recovery, fencing, transitions, the
    verify ladder and the leasing of blocks, with other writers interleaved.
  \<^item> \<open>Go_Strings\<close>, \<open>Config\<close> (\<^verbatim>\<open>pkg/config\<close>): the string functions the sources use, limits and their parsers,
    \<^verbatim>\<open>Retry-After\<close>, and the transport that attaches the access token.
  \<^item> \<open>Http_Source\<close> (\<^verbatim>\<open>transfer/policy.go\<close>, \<^verbatim>\<open>source.go\<close>): choice of an upstream, the ranged and the whole-file
    request, validation of the response, and the identity pin of each upstream.
  \<^item> \<open>Checkpoint\<close> (\<^verbatim>\<open>transfer/checkpoint.go\<close>): tracker and checkpointer over a file with stable and volatile content;
    crashes and restarts are steps.
  \<^item> \<open>Block_Stream\<close> (\<^verbatim>\<open>transfer/worker.go\<close>): one attempt at a block, from the body of the response to the bytes of the
    file, with the aligned write path, aborts and the in-order mode.
  \<^item> \<open>Stall\<close> (\<^verbatim>\<open>transfer/stall.go\<close>, \<^verbatim>\<open>killgate.go\<close>): windows of a connection, verdicts, and the gate that spaces kills.
  \<^item> \<open>Downloader\<close> (\<^verbatim>\<open>transfer/downloader.go\<close>): defaults, block size, and the set of workers under changing parallelism.
  \<^item> \<open>Tune\<close> (\<^verbatim>\<open>tune/controller.go\<close>, \<^verbatim>\<open>sched/autotune.go\<close>): the controller, the split of its budget over the active files
    and their admission.
  \<^item> \<open>Gates\<close> (\<^verbatim>\<open>sched/storecall.go\<close>, \<^verbatim>\<open>gates.go\<close>): retried store calls, cooldowns, and the disk-full pause with its
    watcher.
  \<^item> \<open>Leaser\<close> (\<^verbatim>\<open>sched/leaser.go\<close>): the adapter between the engine and the store. The locale \<open>block_leaser\<close> states what the
    engine relies on over an abstract board of block states; the adapter over the store is an interpretation
    of it, so every run of the adapter refines a run of the board.

  \<^item> \<open>Throttle\<close> (\<^verbatim>\<open>throttle/ring.go\<close>, \<^verbatim>\<open>bucket.go\<close>): the locale \<open>window_counter\<close> states what a windowed counter promises, the ring of
    per-second slots is an interpretation; the token bucket grants no more than burst and rate allow, and a wait ends.
  \<^item> \<open>Duty\<close> (\<^verbatim>\<open>throttle/reader.go\<close>, \<^verbatim>\<open>duty.go\<close>): paced reads and the limiter of the disk's active time, whose ceiling holds as long as
    no sleep debt meets its cap.
  \<^item> \<open>Stats\<close> (\<^verbatim>\<open>stats/ring.go\<close>, \<^verbatim>\<open>registry.go\<close>): the rotating ring, a second interpretation of \<open>window_counter\<close>, and the registry, whose
    connection gauges agree in every reachable state.

  \<^bold>\<open>Loops and bounds.\<close> Loops that consume data are structural recursions. Loops that may run forever are partial
  functions into \<open>option\<close>, where \<open>None\<close> is not returning; for each there is a proof that it returns:
  \<open>stream_loop\<close> on a finite body, \<open>adaptive_loop\<close> always, \<open>watch_loop\<close> when the context ends at some time,
  \<open>Lease_loop\<close> when a block is pending and the clock advances by the time waited, \<open>wait_loop\<close> when the clock passes every
  time, \<open>sleep_loop\<close> when the sleeper sleeps. (\<open>pause_loop\<close> ends only by the operator.) The only fuel is the loop of
  \<^verbatim>\<open>storeCall\<close>, which the source bounds by \<^verbatim>\<open>busyRetries\<close>.

  \<^bold>\<open>Not modelled.\<close> The command line, the terminal interface, logging, metrics and tracing (\<^verbatim>\<open>cmd\<close>, \<^verbatim>\<open>pkg/tui\<close>,
  \<^verbatim>\<open>logging\<close>, \<^verbatim>\<open>otel\<close>): presentation. The platform file engine, dialing and proxies (\<^verbatim>\<open>pkg/fcio\<close>, \<^verbatim>\<open>netcfg\<close>) and
  the locks and migrations of the database: calls into the operating system and the driver. The hub client
  (\<^verbatim>\<open>pkg/hfapi\<close>) and the \<^verbatim>\<open>xet\<close> source: wire formats of services. The installer, the verifier and salvage (\<^verbatim>\<open>pkg/cache\<close>,
  \<^verbatim>\<open>pkg/verify\<close>, \<^verbatim>\<open>sched/install.go\<close>, \<^verbatim>\<open>salvage.go\<close>): file-system traffic around the store operations modelled here. The
  goroutines of the scheduler (\<^verbatim>\<open>run.go\<close>, \<^verbatim>\<open>download.go\<close>, \<^verbatim>\<open>disk.go\<close>, \<^verbatim>\<open>meta.go\<close>) and the worker loop around one attempt at a block: orchestration of these operations;
  their steps appear as arbitrary sequences of operations in the step relations.
\<close>

end
